(* ===== verification/Prelude.thy ===== *)
theory Prelude
  imports Main "HOL-Library.Word"
begin

text \<open>
  Shared vocabulary of the development: the machine integers of the i686 target, the
  kernel's status codes (\<^verbatim>\<open>src/src/include/core/errors.h\<close>), the freestanding string
  routines (\<^verbatim>\<open>src/src/core/string.c\<close>), the search loops over fixed arrays that many
  components repeat, and the generic lemmas their proofs share.

  Conventions used by every component:
  \<^item> a pointer that the code compares with null is an \<open>option\<close>, \<open>None\<close> being null;
  \<^item> an output parameter is part of the result, as an \<open>option\<close> where some path leaves
    the caller's object unwritten;
  \<^item> a \<^verbatim>\<open>uint32_t\<close> kept in kernel state is a \<open>32 word\<close>, whose arithmetic wraps;
    an array index or a loop counter that is bounded by an array length is a \<open>nat\<close>;
  \<^item> log output (\<^verbatim>\<open>LOG_*\<close>) has no effect on the modelled state and is left out.
\<close>

unbundle bit_operations_syntax

named_theorems frame_simps \<open>fields that an operation leaves alone\<close>
named_theorems inv_intros \<open>operations that preserve a component invariant\<close>

type_synonym u8 = "8 word"
type_synonym u16 = "16 word"
type_synonym u32 = "32 word"

section \<open>Status codes\<close>

datatype status =
    OK | ERR_NULL | ERR_MEM | ERR_DISK | ERR_NOT_FOUND | ERR_OVERFLOW | ERR_INVALID
  | ERR_STATE | ERR_TIMEOUT | ERR_UNAVAILABLE | ERR_CANCELLED | ERR_AGAIN

text \<open>
  \<open>and_then r f\<close> is the idiom \<^verbatim>\<open>result = ...; if (result != OK) return result; ...\<close> on a
  computation that returns a status and the updated state.
\<close>

definition and_then :: "status \<times> 's \<Rightarrow> ('s \<Rightarrow> status \<times> 's) \<Rightarrow> status \<times> 's" where
  "and_then r f = (if fst r = OK then f (snd r) else r)"

lemma and_then_simps [simp]:
  "and_then (OK, s) f = f s"
  "e \<noteq> OK \<Longrightarrow> and_then (e, s) f = (e, s)"
  by (simp_all add: and_then_def)

lemma and_then_OK_iff:
  "and_then r f = (OK, t) \<longleftrightarrow> (\<exists>s. r = (OK, s) \<and> f s = (OK, t))"
  by (cases r) (auto simp: and_then_def)

lemma and_then_cong [fundef_cong]:
  "r = r' \<Longrightarrow> (\<And>s. r' = (OK, s) \<Longrightarrow> f s = f' s) \<Longrightarrow> and_then r f = and_then r' f'"
  by (cases r') (auto simp: and_then_def)

section \<open>Freestanding string routines\<close>

text \<open>
  The two block routines run over a byte buffer; a buffer is the list of its bytes.
  A store outside the buffer is undefined behaviour in C and is dropped here; the
  lemmas below assume the range fits.
\<close>

function kmemset_loop :: "u8 list \<Rightarrow> u8 \<Rightarrow> nat \<Rightarrow> nat \<Rightarrow> u8 list" where
  "kmemset_loop d val i n =
     (if i < n then kmemset_loop (d[i := val]) val (Suc i) n else d)"
  by pat_completeness auto
termination
  by (relation "measure (\<lambda>(d, val, i, n). n - i)") auto

definition kmemset :: "u8 list \<Rightarrow> u8 \<Rightarrow> nat \<Rightarrow> u8 list" where
  "kmemset d val n = kmemset_loop d val 0 n"

function kmemcpy_loop :: "u8 list \<Rightarrow> u8 list \<Rightarrow> nat \<Rightarrow> nat \<Rightarrow> u8 list" where
  "kmemcpy_loop d s i n =
     (if i < n then kmemcpy_loop (d[i := s ! i]) s (Suc i) n else d)"
  by pat_completeness auto
termination
  by (relation "measure (\<lambda>(d, s, i, n). n - i)") auto

definition kmemcpy :: "u8 list \<Rightarrow> u8 list \<Rightarrow> nat \<Rightarrow> u8 list" where
  "kmemcpy d s n = kmemcpy_loop d s 0 n"

text \<open>
  A C string is the list of its characters before the terminator, so reading one past
  the end yields the terminator.
\<close>

fun kstrcmp :: "string \<Rightarrow> string \<Rightarrow> int" where
  "kstrcmp (a # as) (b # bs) =
     (if of_char a \<noteq> (0 :: int) \<and> a = b then kstrcmp as bs
      else of_char a - of_char b)"
| "kstrcmp [] [] = 0"
| "kstrcmp [] (b # bs) = 0 - of_char b"
| "kstrcmp (a # as) [] = of_char a - 0"

function kstrlen_loop :: "string \<Rightarrow> nat \<Rightarrow> nat" where
  "kstrlen_loop s len =
     (if len < length s \<and> of_char (s ! len) \<noteq> (0 :: int)
      then kstrlen_loop s (Suc len) else len)"
  by pat_completeness auto
termination
  by (relation "measure (\<lambda>(s, len). length s - len)") auto

definition kstrlen :: "string \<Rightarrow> nat" where
  "kstrlen s = kstrlen_loop s 0"

definition is_cstr :: "string \<Rightarrow> bool" where
  "is_cstr s \<longleftrightarrow> (\<forall>c \<in> set s. of_char c \<noteq> (0 :: int))"

declare kmemset_loop.simps [simp del] kmemcpy_loop.simps [simp del]
  kstrlen_loop.simps [simp del]

lemma kmemset_loop_eq:
  "i \<le> n \<Longrightarrow> n \<le> length d \<Longrightarrow>
   kmemset_loop d val i n = take i d @ replicate (n - i) val @ drop n d"
proof (induction d val i n rule: kmemset_loop.induct)
  case (1 d val i n)
  show ?case
  proof (cases "i < n")
    case True
    then have "kmemset_loop (d[i := val]) val (Suc i) n
      = take (Suc i) (d[i := val]) @ replicate (n - Suc i) val @ drop n (d[i := val])"
      using 1 by simp
    also have "\<dots> = take i d @ replicate (n - i) val @ drop n d"
      using True "1.prems"
      by (simp add: take_Suc_conv_app_nth Suc_diff_Suc flip: replicate_Suc)
    finally show ?thesis using True by (simp add: kmemset_loop.simps [of d val i n])
  next
    case False
    then have "i = n" using "1.prems" by simp
    then show ?thesis using "1.prems" by (simp add: kmemset_loop.simps [of d val n n])
  qed
qed

lemma kmemset_eq: "n \<le> length d \<Longrightarrow> kmemset d val n = replicate n val @ drop n d"
  by (simp add: kmemset_def kmemset_loop_eq)

lemma kmemcpy_loop_eq:
  "i \<le> n \<Longrightarrow> n \<le> length d \<Longrightarrow> n \<le> length s \<Longrightarrow>
   kmemcpy_loop d s i n = take i d @ drop i (take n s) @ drop n d"
proof (induction d s i n rule: kmemcpy_loop.induct)
  case (1 d s i n)
  show ?case
  proof (cases "i < n")
    case True
    then have "kmemcpy_loop (d[i := s ! i]) s (Suc i) n
      = take (Suc i) (d[i := s ! i]) @ drop (Suc i) (take n s) @ drop n (d[i := s ! i])"
      using 1 by simp
    also have "\<dots> = take i d @ drop i (take n s) @ drop n d"
      using True "1.prems"
      by (simp add: take_Suc_conv_app_nth Cons_nth_drop_Suc [symmetric])
    finally show ?thesis using True by (simp add: kmemcpy_loop.simps [of d s i n])
  next
    case False
    then have "i = n" using "1.prems" by simp
    then show ?thesis using "1.prems" by (simp add: kmemcpy_loop.simps [of d s n n])
  qed
qed

lemma kmemcpy_eq:
  "n \<le> length d \<Longrightarrow> n \<le> length s \<Longrightarrow> kmemcpy d s n = take n s @ drop n d"
  by (simp add: kmemcpy_def kmemcpy_loop_eq)

lemma kstrcmp_refl [simp]: "is_cstr a \<Longrightarrow> kstrcmp a a = 0"
  by (induction a) (auto simp: is_cstr_def)

lemma of_char_int_eq_iff: "(of_char a :: int) = of_char b \<longleftrightarrow> a = b"
  by (rule of_char_eq_iff)

lemma kstrcmp_eq_0_iff: "is_cstr a \<Longrightarrow> is_cstr b \<Longrightarrow> kstrcmp a b = 0 \<longleftrightarrow> a = b"
  by (induction a b rule: kstrcmp.induct) (auto simp: is_cstr_def)

lemma kstrlen_loop_eq:
  "is_cstr s \<Longrightarrow> len \<le> length s \<Longrightarrow> kstrlen_loop s len = length s"
proof (induction s len rule: kstrlen_loop.induct)
  case (1 s len)
  then show ?case
    by (cases "len < length s") (auto simp: is_cstr_def kstrlen_loop.simps [of s len]
        kstrlen_loop.simps [of s "length s"])
qed

lemma kstrlen_eq: "is_cstr s \<Longrightarrow> kstrlen s = length s"
  by (simp add: kstrlen_def kstrlen_loop_eq)

section \<open>Search loops over fixed arrays\<close>

text \<open>
  \<open>first_index P xs\<close> is the loop
  \<^verbatim>\<open>for (i = 0; i < N; i++) if (P(xs[i])) return i; return -1;\<close>.
\<close>

fun first_index :: "('a \<Rightarrow> bool) \<Rightarrow> 'a list \<Rightarrow> nat option" where
  "first_index P [] = None"
| "first_index P (x # xs) = (if P x then Some 0 else map_option Suc (first_index P xs))"

lemma first_index_SomeD:
  "first_index P xs = Some i \<Longrightarrow> i < length xs \<and> P (xs ! i) \<and> (\<forall>j<i. \<not> P (xs ! j))"
proof (induction xs arbitrary: i)
  case (Cons x xs)
  then show ?case
    by (cases i) (auto split: if_splits simp: less_Suc_eq_0_disj)
qed simp

lemma first_index_None_iff: "first_index P xs = None \<longleftrightarrow> (\<forall>x \<in> set xs. \<not> P x)"
  by (induction xs) auto

lemma first_index_Some_ex: "x \<in> set xs \<Longrightarrow> P x \<Longrightarrow> \<exists>i. first_index P xs = Some i"
  using first_index_None_iff [of P xs] by (cases "first_index P xs") auto

lemma first_index_less: "first_index P xs = Some i \<Longrightarrow> i < length xs"
  by (simp add: first_index_SomeD)

lemma first_index_prop: "first_index P xs = Some i \<Longrightarrow> P (xs ! i)"
  by (simp add: first_index_SomeD)

lemma first_index_upt:
  "first_index P [0..<n] = Some i \<longleftrightarrow> i < n \<and> P i \<and> (\<forall>j<i. \<not> P j)"
proof
  assume "first_index P [0..<n] = Some i"
  from first_index_SomeD [OF this] show "i < n \<and> P i \<and> (\<forall>j<i. \<not> P j)" by auto
next
  assume i: "i < n \<and> P i \<and> (\<forall>j<i. \<not> P j)"
  then obtain k where k: "first_index P [0..<n] = Some k"
    using first_index_Some_ex [of i "[0..<n]" P] by auto
  from first_index_SomeD [OF this] i have "k = i" by (auto simp: not_less_iff_gr_or_eq [symmetric]) (metis less_trans linorder_neqE_nat nth_upt add_0)
  with k show "first_index P [0..<n] = Some i" by simp
qed

section \<open>Lists\<close>

lemma all_range_Suc:
  "i < b \<Longrightarrow> (\<forall>j :: nat. i \<le> j \<and> j < b \<longrightarrow> Q j) \<longleftrightarrow> Q i \<and> (\<forall>j. Suc i \<le> j \<and> j < b \<longrightarrow> Q j)"
  by (metis Suc_leI Suc_leD le_neq_implies_less le_refl)

lemma length_filter_update:
  "i < length xs \<Longrightarrow>
   length (filter P (xs[i := x])) + of_bool (P (xs ! i)) = length (filter P xs) + of_bool (P x)"
proof (induction xs arbitrary: i)
  case (Cons y ys)
  then show ?case by (cases i) (fastforce simp: of_bool_def split: if_splits)+
qed simp

lemma length_filter_update_add:
  "i < length xs \<Longrightarrow> \<not> P (xs ! i) \<Longrightarrow> P x \<Longrightarrow>
   length (filter P (xs[i := x])) = Suc (length (filter P xs))"
  using length_filter_update [of i xs P x] by simp

lemma length_filter_update_del:
  "i < length xs \<Longrightarrow> P (xs ! i) \<Longrightarrow> \<not> P x \<Longrightarrow>
   Suc (length (filter P (xs[i := x]))) = length (filter P xs)"
  using length_filter_update [of i xs P x] by simp

lemma length_filter_update_same:
  "i < length xs \<Longrightarrow> P (xs ! i) = P x \<Longrightarrow>
   length (filter P (xs[i := x])) = length (filter P xs)"
  using length_filter_update [of i xs P x] by simp

lemma filter_length_lt:
  "i < length xs \<Longrightarrow> \<not> P (xs ! i) \<Longrightarrow> length (filter P xs) < length xs"
  by (metis length_filter_less nth_mem)

section \<open>Masks and packed fields on naturals\<close>

lemma and_mask_nat: "(n :: nat) AND mask k = n mod 2 ^ k"
  by (simp flip: take_bit_eq_mask take_bit_eq_mod)

lemma and_nat_masks:
  "(n :: nat) AND 15 = n mod 16" "(n :: nat) AND 255 = n mod 256" "(n :: nat) AND 4095 = n mod 4096"
  using and_mask_nat [of n 4] and_mask_nat [of n 8] and_mask_nat [of n 12]
  by (simp_all add: mask_eq_exp_minus_1)

lemma or_push_bit_eq_add:
  fixes x y :: nat
  assumes "x < 2 ^ k"
  shows "x OR push_bit k y = x + 2 ^ k * y"
proof -
  have "\<not> bit x n \<or> \<not> bit (push_bit k y) n" for n
  proof (cases "k \<le> n")
    case True
    have "x < 2 ^ n" using assms True by (meson le_less_trans less_le_trans nat_le_linear not_less
          power_increasing_iff one_less_numeral_iff semiring_norm(76))
    then show ?thesis by (simp add: bit_iff_odd)
  qed (simp add: bit_push_bit_iff)
  then have "x + push_bit k y = x OR push_bit k y"
    by (rule disjunctive_add)
  then show ?thesis by (simp add: push_bit_eq_mult mult.commute)
qed

lemma unat_ucast_u8: "unat (ucast (c :: u8) :: u32) = unat c"
proof -
  have "unat c < 2 ^ 8" using unsigned_less [of c] by simp
  then show ?thesis by (simp add: unsigned_ucast_eq take_bit_nat_eq_self)
qed

lemma word_of_nat_unat: "word_of_nat (unat w) = (w :: u32)"
  by simp

lemma unat_of_nat_small: "n < 2 ^ 32 \<Longrightarrow> unat (word_of_nat n :: u32) = n"
  by (simp add: unat_of_nat)

lemma word_neg_one_u32: "(- 1 :: u32) = 0xFFFFFFFF"
  by simp

lemma unat_word_Suc:
  assumes "(x :: u32) \<noteq> 0xFFFFFFFF"
  shows "unat (x + 1) = Suc (unat x)"
proof -
  have "unat x \<noteq> unat (0xFFFFFFFF :: u32)" using assms word_unat_eq_iff by blast
  moreover have "unat x < 2 ^ 32" using unsigned_less [of x] by simp
  ultimately have "unat x + 1 < 2 ^ 32" by simp
  then show ?thesis by (simp add: unat_word_ariths)
qed

lemma unat_word_Suc_le: "unat ((x :: u32) + 1) \<le> Suc (unat x)"
  unfolding unat_word_ariths using mod_less_eq_dividend [of "unat x + 1"] by simp

lemma unat_max_minus: "unat (0xFFFFFFFF - c :: u32) = 0xFFFFFFFF - unat c"
proof -
  have "unat c < 2 ^ 32" using unsigned_less [of c] by simp
  then have "c \<le> 0xFFFFFFFF" by (simp add: word_le_nat_alt)
  then show ?thesis by (simp add: unat_sub)
qed

lemma unat_add_headroom:
  assumes "(n :: u32) \<le> 0xFFFFFFFF - c"
  shows "unat (c + n) = unat c + unat n"
proof -
  have "unat n \<le> 0xFFFFFFFF - unat c" using assms by (simp add: word_le_nat_alt unat_max_minus)
  moreover have "unat c < 2 ^ 32" using unsigned_less [of c] by simp
  ultimately show ?thesis by (simp add: unat_word_ariths)
qed

lemma window_mod_neq:
  fixes i n m :: nat
  assumes "i < n" "n < i + m"
  shows "i mod m \<noteq> n mod m"
proof
  assume "i mod m = n mod m"
  then have "m dvd n - i" using assms by (metis less_imp_le mod_eq_dvd_iff_nat)
  moreover have "0 < n - i" "n - i < m" using assms by auto
  ultimately show False using nat_dvd_not_less by blast
qed

end
