(* ===== verification/Compress.thy ===== *)
theory Compress
  imports Prelude
begin

text \<open>
  The LZSS codec of \<^verbatim>\<open>src/src/memory/compress.c\<close>. A \<^verbatim>\<open>(pointer, size)\<close> pair that the
  code only reads is the list of those bytes; the destination is the buffer's contents,
  of which \<open>dst_capacity\<close> bytes may be written. Sizes and positions are natural numbers:
  they are bounded by the buffer sizes, and the one sum that can leave the 32-bit range
  (\<^verbatim>\<open>di + 2 > dst_capacity\<close>) is written with its wrap-around.
\<close>

section \<open>State and configuration\<close>

definition COMPRESS_LZSS_N :: nat where "COMPRESS_LZSS_N = 4096"
definition COMPRESS_LZSS_F :: nat where "COMPRESS_LZSS_F = 18"
definition COMPRESS_LZSS_THRESHOLD :: nat where "COMPRESS_LZSS_THRESHOLD = 2"

lemmas lzss_consts = COMPRESS_LZSS_N_def COMPRESS_LZSS_F_def COMPRESS_LZSS_THRESHOLD_def

record compress_stats =
  cs_original_size :: u32
  cs_compressed_size :: u32
  cs_enabled :: u8
  cs_total_compressed :: u32
  cs_total_saved :: u32
  cs_compression_count :: u32

record compress_state =
  comp_stats :: compress_stats
  comp_enabled :: u8
  compress_ring :: "u8 list"
  decompress_ring :: "u8 list"

definition zero_compress_stats :: compress_stats where
  "zero_compress_stats = \<lparr>cs_original_size = 0, cs_compressed_size = 0, cs_enabled = 0,
     cs_total_compressed = 0, cs_total_saved = 0, cs_compression_count = 0\<rparr>"

definition compress_init :: "compress_state \<Rightarrow> compress_state" where
  "compress_init s = s\<lparr>comp_stats := zero_compress_stats\<lparr>cs_enabled := 0\<rparr>, comp_enabled := 0\<rparr>"

definition compress_enable :: "compress_state \<Rightarrow> compress_state" where
  "compress_enable s = s\<lparr>comp_enabled := 1, comp_stats := (comp_stats s)\<lparr>cs_enabled := 1\<rparr>\<rparr>"

definition compress_disable :: "compress_state \<Rightarrow> compress_state" where
  "compress_disable s = s\<lparr>comp_enabled := 0, comp_stats := (comp_stats s)\<lparr>cs_enabled := 0\<rparr>\<rparr>"

definition compress_is_enabled :: "compress_state \<Rightarrow> u8" where
  "compress_is_enabled s = comp_enabled s"

definition compress_get_stats :: "compress_state \<Rightarrow> compress_stats" where
  "compress_get_stats s = comp_stats s"

definition compress_get_max_size :: "u32 \<Rightarrow> u32" where
  "compress_get_max_size original_size =
     (let overhead = original_size div 8 + 64
      in if original_size > 0xFFFFFFFF - overhead then 0xFFFFFFFF
         else original_size + overhead)"

section \<open>The encoder\<close>

text \<open>The inner loop that extends a match at \<open>candidate\<close>.\<close>

function match_length :: "u8 list \<Rightarrow> nat \<Rightarrow> nat \<Rightarrow> nat \<Rightarrow> nat" where
  "match_length src si candidate len =
     (if len < COMPRESS_LZSS_F - 1 \<and> candidate + len < si \<and> si + len < length src
      then (if src ! (candidate + len) \<noteq> src ! (si + len) then len
            else match_length src si candidate (Suc len))
      else len)"
  by pat_completeness auto
termination
  by (relation "measure (\<lambda>(src, si, candidate, len). COMPRESS_LZSS_F - len)") auto

text \<open>The search from the most recent position backwards for the longest match.\<close>

function search_match :: "u8 list \<Rightarrow> nat \<Rightarrow> nat \<Rightarrow> nat \<Rightarrow> nat \<Rightarrow> nat \<Rightarrow> nat \<times> nat" where
  "search_match src si search_start j best_len best_pos =
     (if j > search_start then
        let candidate = j - 1; len = match_length src si candidate 0
        in if len > best_len \<and> len \<ge> COMPRESS_LZSS_THRESHOLD then
             if len = COMPRESS_LZSS_F - 1 then (len, candidate)
             else search_match src si search_start (j - 1) len candidate
           else search_match src si search_start (j - 1) best_len best_pos
      else (best_len, best_pos))"
  by pat_completeness auto
termination
  by (relation "measure (\<lambda>(src, si, search_start, j, best_len, best_pos). j)") auto

declare match_length.simps [simp del] search_match.simps [simp del]

definition best_match :: "u8 list \<Rightarrow> nat \<Rightarrow> nat \<times> nat" where
  "best_match src si =
     (if si \<ge> COMPRESS_LZSS_THRESHOLD then
        search_match src si (if si \<ge> COMPRESS_LZSS_N then si - COMPRESS_LZSS_N else 0) si 0 0
      else (0, 0))"

text \<open>Feeding source bytes into the encoder's ring.\<close>

fun ring_feed :: "u8 list \<Rightarrow> nat \<Rightarrow> u8 list \<Rightarrow> u8 list \<times> nat" where
  "ring_feed ring r [] = (ring, r)"
| "ring_feed ring r (c # cs) =
     ring_feed (ring[r := c]) ((r + 1) AND (COMPRESS_LZSS_N - 1)) cs"

text \<open>The locals of \<^verbatim>\<open>compress_data\<close> and the two buffers its loop writes.\<close>

record lz_state =
  lz_si :: nat
  lz_di :: nat
  lz_flags :: u8
  lz_flag_pos :: nat
  lz_flag_offset :: nat
  lz_r :: nat
  lz_ring :: "u8 list"
  lz_dst :: "u8 list"

text \<open>The part of the loop body that emits one token.\<close>

definition emit_token :: "u8 list \<Rightarrow> nat \<Rightarrow> lz_state \<Rightarrow> status \<times> lz_state" where
  "emit_token src dst_capacity s =
     (let (best_len, best_pos) = best_match src (lz_si s) in
      if best_len \<ge> COMPRESS_LZSS_THRESHOLD then
        if (lz_di s + 2) mod 2 ^ 32 > dst_capacity then (ERR_OVERFLOW, s)
        else
          let pos = (COMPRESS_LZSS_N - COMPRESS_LZSS_F + best_pos) AND (COMPRESS_LZSS_N - 1);
              b1 = word_of_nat (pos AND 0xFF);
              b2 = word_of_nat ((drop_bit 8 pos AND 0x0F) OR
                                push_bit 4 (best_len - COMPRESS_LZSS_THRESHOLD));
              (ring', r') = ring_feed (lz_ring s) (lz_r s) (take best_len (drop (lz_si s) src))
          in (OK, s\<lparr>lz_dst := (lz_dst s)[lz_di s := b1, lz_di s + 1 := b2],
                    lz_di := lz_di s + 2,
                    lz_flags := lz_flags s OR push_bit (lz_flag_pos s) 1,
                    lz_ring := ring', lz_r := r', lz_si := lz_si s + best_len\<rparr>)
      else
        if (lz_di s + 1) mod 2 ^ 32 > dst_capacity then (ERR_OVERFLOW, s)
        else
          let c = src ! lz_si s;
              (ring', r') = ring_feed (lz_ring s) (lz_r s) [c]
          in (OK, s\<lparr>lz_dst := (lz_dst s)[lz_di s := c], lz_di := lz_di s + 1,
                    lz_ring := ring', lz_r := r', lz_si := lz_si s + 1\<rparr>))"

text \<open>The part that counts the token and closes a group of eight.\<close>

definition close_group :: "u8 list \<Rightarrow> nat \<Rightarrow> lz_state \<Rightarrow> status \<times> lz_state" where
  "close_group src dst_capacity s =
     (let s = s\<lparr>lz_flag_pos := lz_flag_pos s + 1\<rparr> in
      if lz_flag_pos s = 8 then
        let s = s\<lparr>lz_dst := (lz_dst s)[lz_flag_offset s := lz_flags s],
                  lz_flags := 0, lz_flag_pos := 0\<rparr>
        in if lz_si s < length src then
             if lz_di s \<ge> dst_capacity then (ERR_OVERFLOW, s)
             else (OK, s\<lparr>lz_flag_offset := lz_di s, lz_di := lz_di s + 1\<rparr>)
           else (OK, s)
      else (OK, s))"

definition compress_step :: "u8 list \<Rightarrow> nat \<Rightarrow> lz_state \<Rightarrow> status \<times> lz_state" where
  "compress_step src dst_capacity s =
     and_then (emit_token src dst_capacity s) (close_group src dst_capacity)"

lemma best_len_nz:
  "fst (emit_token src cap s) = OK \<Longrightarrow> lz_si s < lz_si (snd (emit_token src cap s))"
  by (auto simp: emit_token_def Let_def COMPRESS_LZSS_THRESHOLD_def
      split: prod.splits if_splits)

lemma close_group_si: "lz_si (snd (close_group src cap s)) = lz_si s"
  by (simp add: close_group_def Let_def)

lemma compress_step_advances:
  assumes "compress_step src cap s = (OK, s')"
  shows "lz_si s < lz_si s'"
proof -
  obtain t where "emit_token src cap s = (OK, t)" "close_group src cap t = (OK, s')"
    using assms by (auto simp: compress_step_def and_then_OK_iff)
  then show ?thesis
    using best_len_nz [of src cap s] close_group_si [of src cap t] by simp
qed

function compress_loop :: "u8 list \<Rightarrow> nat \<Rightarrow> lz_state \<Rightarrow> status \<times> lz_state" where
  "compress_loop src dst_capacity s =
     (if lz_si s < length src then
        and_then (compress_step src dst_capacity s) (\<lambda>s'. compress_loop src dst_capacity s')
      else (OK, s))"
  by pat_completeness auto
termination
  by (relation "measure (\<lambda>(src, cap, s). length src - lz_si s)")
    (auto dest: compress_step_advances)

declare compress_loop.simps [simp del]

text \<open>
  The result is the status, the destination buffer, the value of \<^verbatim>\<open>*dst_size\<close>
  (\<open>None\<close> when it is not written) and the module state.
\<close>

definition compress_data ::
  "compress_state \<Rightarrow> u8 list option \<Rightarrow> u8 list option \<Rightarrow> nat \<Rightarrow> bool
   \<Rightarrow> status \<times> u8 list option \<times> nat option \<times> compress_state" where
  "compress_data st src_p dst_p dst_capacity has_dst_size =
     (case (src_p, dst_p) of
        (Some src, Some dst) \<Rightarrow>
          if \<not> has_dst_size then (ERR_NULL, dst_p, None, st)
          else if dst_capacity = 0 then (ERR_OVERFLOW, dst_p, Some 0, st)
          else
            let s0 = \<lparr>lz_si = 0, lz_di = 1, lz_flags = 0, lz_flag_pos = 0, lz_flag_offset = 0,
                      lz_r = COMPRESS_LZSS_N - COMPRESS_LZSS_F,
                      lz_ring = kmemset (compress_ring st) 0x20 COMPRESS_LZSS_N,
                      lz_dst = dst\<rparr>
            in (let (e, s) = compress_loop src dst_capacity s0
                in if e \<noteq> OK then (e, Some (lz_dst s), Some 0, st\<lparr>compress_ring := lz_ring s\<rparr>)
                   else
                     let dst' = (if lz_flag_pos s > 0
                                 then (lz_dst s)[lz_flag_offset s := lz_flags s] else lz_dst s);
                         src_size = word_of_nat (length src) :: u32;
                         di = word_of_nat (lz_di s) :: u32;
                         cs = comp_stats st
                     in (OK, Some dst', Some (lz_di s),
                         st\<lparr>compress_ring := lz_ring s,
                            comp_stats := cs\<lparr>cs_original_size := src_size,
                              cs_compressed_size := di,
                              cs_total_compressed := cs_total_compressed cs + di,
                              cs_total_saved := cs_total_saved cs +
                                (if src_size > di then src_size - di else 0),
                              cs_compression_count := cs_compression_count cs + 1\<rparr>\<rparr>))
      | _ \<Rightarrow> (ERR_NULL, dst_p, None, st))"

section \<open>The decoder\<close>

record unlz_state =
  ul_si :: nat
  ul_di :: nat
  ul_r :: nat
  ul_ring :: "u8 list"
  ul_dst :: "u8 list"

text \<open>Storing one decoded byte: the capacity check, the output and the ring.\<close>

definition put_byte :: "nat \<Rightarrow> u8 \<Rightarrow> unlz_state \<Rightarrow> status \<times> unlz_state" where
  "put_byte dst_capacity c s =
     (if ul_di s \<ge> dst_capacity then (ERR_OVERFLOW, s)
      else (OK, s\<lparr>ul_dst := (ul_dst s)[ul_di s := c], ul_di := ul_di s + 1,
                  ul_ring := (ul_ring s)[ul_r s := c],
                  ul_r := (ul_r s + 1) AND (COMPRESS_LZSS_N - 1)\<rparr>))"

text \<open>The copy loop of a back reference; \<open>n\<close> bytes are left, \<open>k\<close> are done.\<close>

fun copy_loop :: "nat \<Rightarrow> nat \<Rightarrow> nat \<Rightarrow> nat \<Rightarrow> unlz_state \<Rightarrow> status \<times> unlz_state" where
  "copy_loop dst_capacity pos k 0 s = (OK, s)"
| "copy_loop dst_capacity pos k (Suc n) s =
     and_then (put_byte dst_capacity (ul_ring s ! ((pos + k) AND (COMPRESS_LZSS_N - 1))) s)
       (\<lambda>s'. copy_loop dst_capacity pos (Suc k) n s')"

definition decode_token :: "u8 list \<Rightarrow> nat \<Rightarrow> u8 \<Rightarrow> nat \<Rightarrow> unlz_state \<Rightarrow> status \<times> unlz_state" where
  "decode_token src dst_capacity flags b s =
     (if flags AND push_bit b 1 \<noteq> 0 then
        if ul_si s + 1 \<ge> length src then (ERR_INVALID, s)
        else
          let b1 = src ! ul_si s; b2 = src ! (ul_si s + 1);
              pos = unat b1 OR push_bit 8 (unat b2 AND 0x0F);
              len = (drop_bit 4 (unat b2) AND 0x0F) + COMPRESS_LZSS_THRESHOLD
          in copy_loop dst_capacity pos 0 len (s\<lparr>ul_si := ul_si s + 2\<rparr>)
      else if ul_si s \<ge> length src then (ERR_INVALID, s)
      else put_byte dst_capacity (src ! ul_si s) (s\<lparr>ul_si := ul_si s + 1\<rparr>))"

function group_loop :: "u8 list \<Rightarrow> nat \<Rightarrow> u8 \<Rightarrow> nat \<Rightarrow> unlz_state \<Rightarrow> status \<times> unlz_state" where
  "group_loop src dst_capacity flags b s =
     (if b < 8 \<and> ul_si s < length src then
        and_then (decode_token src dst_capacity flags b s)
          (\<lambda>s'. group_loop src dst_capacity flags (Suc b) s')
      else (OK, s))"
  by pat_completeness auto
termination
  by (relation "measure (\<lambda>(src, cap, flags, b, s). 8 - b)") auto

declare group_loop.simps [simp del]

lemma put_byte_si: "ul_si (snd (put_byte cap c s)) = ul_si s"
  by (simp add: put_byte_def)

lemma and_then_mono:
  assumes "g s \<le> (g (snd r) :: nat)" and "\<And>t. r = (OK, t) \<Longrightarrow> g t \<le> g (snd (f t))"
  shows "g s \<le> g (snd (and_then r f))"
  using assms by (cases r) (force simp: and_then_def)

lemma copy_loop_si: "ul_si s \<le> ul_si (snd (copy_loop cap pos k n s))"
proof (induction n arbitrary: k s)
  case (Suc n)
  show ?case
    unfolding copy_loop.simps by (rule and_then_mono) (simp_all add: put_byte_si Suc.IH)
qed simp

lemma decode_token_si: "ul_si s \<le> ul_si (snd (decode_token src cap flags b s))"
proof -
  have "ul_si s \<le> ul_si (snd (copy_loop cap p 0 n (s\<lparr>ul_si := ul_si s + 2\<rparr>)))" for p n
    by (rule order_trans [OF _ copy_loop_si]) simp
  then show ?thesis
    by (simp add: decode_token_def Let_def put_byte_si del: copy_loop.simps)
qed

lemma group_loop_si: "ul_si s \<le> ul_si (snd (group_loop src cap flags b s))"
proof (induction src cap flags b s rule: group_loop.induct)
  case (1 src cap flags b s)
  show ?case
  proof (cases "b < 8 \<and> ul_si s < length src")
    case True
    then have "ul_si s \<le> ul_si (snd (and_then (decode_token src cap flags b s)
        (\<lambda>s'. group_loop src cap flags (Suc b) s')))"
      using "1.IH" by (intro and_then_mono decode_token_si) auto
    with True show ?thesis by (simp add: group_loop.simps [of src cap flags b s])
  next
    case False
    then show ?thesis by (simp only: group_loop.simps [of src cap flags b s] if_False) simp
  qed
qed

function decompress_loop :: "u8 list \<Rightarrow> nat \<Rightarrow> unlz_state \<Rightarrow> status \<times> unlz_state" where
  "decompress_loop src dst_capacity s =
     (if ul_si s < length src then
        let flags = src ! ul_si s; s1 = s\<lparr>ul_si := ul_si s + 1\<rparr>
        in if ul_si s1 = length src then
             if length src = 1 \<and> ul_di s1 = 0 \<and> flags = 0 then (OK, s1) else (ERR_INVALID, s1)
           else
             and_then (group_loop src dst_capacity flags 0 s1)
               (\<lambda>s2. decompress_loop src dst_capacity s2)
      else (OK, s))"
  by pat_completeness auto
termination
proof (relation "measure (\<lambda>(src, cap, s). length src - ul_si s)", goal_cases)
  case (2 src cap s flags s1 s2)
  then show ?case using group_loop_si [of s1 src cap flags 0] by simp
qed simp

declare decompress_loop.simps [simp del]

definition decompress_data ::
  "compress_state \<Rightarrow> u8 list option \<Rightarrow> u8 list option \<Rightarrow> nat \<Rightarrow> bool
   \<Rightarrow> status \<times> u8 list option \<times> nat option \<times> compress_state" where
  "decompress_data st src_p dst_p dst_capacity has_dst_size =
     (case (src_p, dst_p) of
        (Some src, Some dst) \<Rightarrow>
          if \<not> has_dst_size then (ERR_NULL, dst_p, None, st)
          else
            let s0 = \<lparr>ul_si = 0, ul_di = 0, ul_r = COMPRESS_LZSS_N - COMPRESS_LZSS_F,
                      ul_ring = kmemset (decompress_ring st) 0x20 COMPRESS_LZSS_N,
                      ul_dst = dst\<rparr>
            in (let (e, s) = decompress_loop src dst_capacity s0
                in (e, Some (ul_dst s), Some (if e = OK then ul_di s else 0),
                    st\<lparr>decompress_ring := ul_ring s\<rparr>))
      | _ \<Rightarrow> (ERR_NULL, dst_p, None, st))"

section \<open>The match search\<close>

lemma and_ring_mask [simp]: "n AND (COMPRESS_LZSS_N - Suc 0) = n mod 4096"
  by (simp add: COMPRESS_LZSS_N_def and_nat_masks)

definition good_match :: "u8 list \<Rightarrow> nat \<Rightarrow> nat \<Rightarrow> nat \<Rightarrow> bool" where
  "good_match src si candidate len \<longleftrightarrow>
     len \<le> 17 \<and> candidate + len \<le> si \<and> si + len \<le> length src \<and>
     (\<forall>k<len. src ! (candidate + k) = src ! (si + k))"

lemma match_length_good:
  "good_match src si c len \<Longrightarrow> good_match src si c (match_length src si c len)"
proof (induction src si c len rule: match_length.induct)
  case (1 src si c len)
  show ?case
  proof (cases "(len < COMPRESS_LZSS_F - 1 \<and> c + len < si \<and> si + len < length src) \<and>
      src ! (c + len) = src ! (si + len)")
    case True
    then have "good_match src si c (Suc len)"
      using "1.prems" by (auto simp: good_match_def COMPRESS_LZSS_F_def less_Suc_eq)
    then show ?thesis using "1.IH" True by (simp add: match_length.simps [of src si c len])
  next
    case False
    then show ?thesis using "1.prems" by (auto simp: match_length.simps [of src si c len])
  qed
qed

lemma search_match_good:
  assumes "search_match src si start j bl bp = (l, p)" and "j \<le> si" and "si < length src"
    and "bl \<noteq> 0 \<longrightarrow> good_match src si bp bl \<and> start \<le> bp"
  shows "l \<noteq> 0 \<longrightarrow> good_match src si p l \<and> start \<le> p"
  using assms
proof (induction src si start j bl bp rule: search_match.induct)
  case (1 src si start j bl bp)
  show ?case
  proof (cases "j > start")
    case True
    let ?len = "match_length src si (j - 1) 0"
    have g: "good_match src si (j - 1) ?len"
      by (rule match_length_good) (use True "1.prems" in \<open>simp add: good_match_def\<close>)
    show ?thesis
    proof (cases "?len > bl \<and> ?len \<ge> COMPRESS_LZSS_THRESHOLD")
      case improve: True
      show ?thesis
      proof (cases "?len = COMPRESS_LZSS_F - 1")
        case True
        then show ?thesis
          using g "1.prems" improve \<open>j > start\<close>
          by (auto simp: search_match.simps [of src si start j bl bp] Let_def)
      next
        case False
        then show ?thesis
          using g "1.prems" improve \<open>j > start\<close>
            "1.IH"(1) [OF \<open>j > start\<close> refl refl improve False]
          by (simp add: search_match.simps [of src si start j bl bp] Let_def)
      qed
    next
      case False
      have "search_match src si start j bl bp = search_match src si start (j - 1) bl bp"
        by (subst search_match.simps) (simp only: Let_def False if_False \<open>j > start\<close> if_True)
      then show ?thesis
        using "1.prems" "1.IH"(2) [OF \<open>j > start\<close> refl refl False] by simp
    qed
  next
    case False
    then show ?thesis
      using "1.prems" by (simp add: search_match.simps [of src si start j bl bp])
  qed
qed

lemma best_match_good:
  assumes "best_match src si = (l, p)" and "si < length src" and "l \<noteq> 0"
  shows "good_match src si p l" and "si \<le> p + 4096"
proof -
  let ?start = "if si \<ge> COMPRESS_LZSS_N then si - COMPRESS_LZSS_N else 0"
  have "search_match src si ?start si 0 0 = (l, p)"
    using assms by (auto simp: best_match_def split: if_splits)
  then have "good_match src si p l \<and> ?start \<le> p"
    using search_match_good [of src si ?start si 0 0 l p] assms by simp
  then show "good_match src si p l" and "si \<le> p + 4096"
    by (auto simp: COMPRESS_LZSS_N_def split: if_splits)
qed

section \<open>Token streams\<close>

text \<open>
  The specification level of the codec: the encoder parses its input into literals and
  back references, and the wire format is a flag byte followed by at most eight encoded
  tokens, repeated.
\<close>

datatype token = Lit u8 | Ref nat nat

function tokens_from :: "u8 list \<Rightarrow> nat \<Rightarrow> token list" where
  "tokens_from src si =
     (if si < length src then
        let (len, pos) = best_match src si
        in if len \<ge> 2 then Ref pos len # tokens_from src (si + len)
           else Lit (src ! si) # tokens_from src (si + 1)
      else [])"
  by pat_completeness auto
termination
  by (relation "measure (\<lambda>(src, si). length src - si)") auto

declare tokens_from.simps [simp del]

fun is_ref :: "token \<Rightarrow> bool" where
  "is_ref (Ref _ _) = True"
| "is_ref (Lit _) = False"

definition ref_bytes :: "nat \<Rightarrow> nat \<Rightarrow> u8 list" where
  "ref_bytes pos len =
     [word_of_nat (pos AND 0xFF),
      word_of_nat ((drop_bit 8 pos AND 0x0F) OR push_bit 4 (len - 2))]"

fun enc_token :: "token \<Rightarrow> u8 list" where
  "enc_token (Lit c) = [c]"
| "enc_token (Ref c len) = ref_bytes ((4078 + c) mod 4096) len"

definition enc_tokens :: "token list \<Rightarrow> u8 list" where
  "enc_tokens ts = concat (map enc_token ts)"

fun flag_bits :: "nat \<Rightarrow> token list \<Rightarrow> u8" where
  "flag_bits b [] = 0"
| "flag_bits b (t # ts) = (if is_ref t then push_bit b 1 else 0) OR flag_bits (Suc b) ts"

function enc_groups :: "token list \<Rightarrow> u8 list" where
  "enc_groups ts =
     (if ts = [] then []
      else flag_bits 0 (take 8 ts) # enc_tokens (take 8 ts) @ enc_groups (drop 8 ts))"
  by pat_completeness auto
termination
  by (relation "measure length") auto

declare enc_groups.simps [simp del]

lemma enc_tokens_simps [simp]:
  "enc_tokens [] = []" "enc_tokens (t # ts) = enc_token t @ enc_tokens ts"
  "enc_tokens (ts @ us) = enc_tokens ts @ enc_tokens us"
  by (simp_all add: enc_tokens_def)

lemma enc_groups_Nil [simp]: "enc_groups [] = []"
  by (simp add: enc_groups.simps)

lemma enc_groups_short:
  "ts \<noteq> [] \<Longrightarrow> length ts \<le> 8 \<Longrightarrow> enc_groups ts = flag_bits 0 ts # enc_tokens ts"
  by (simp add: enc_groups.simps [of ts])

lemma enc_groups_full:
  "length ts = 8 \<Longrightarrow> enc_groups (ts @ us) = flag_bits 0 ts # enc_tokens ts @ enc_groups us"
  by (subst enc_groups.simps) auto

lemma flag_bits_snoc:
  "flag_bits b (ts @ [t]) = flag_bits b ts OR (if is_ref t then push_bit (b + length ts) 1 else 0)"
  by (induction ts arbitrary: b) (simp_all add: or.assoc)

lemma bit_flag_bits:
  "k < 8 \<Longrightarrow> bit (flag_bits b ts) k \<longleftrightarrow> b \<le> k \<and> k < b + length ts \<and> is_ref (ts ! (k - b))"
proof (induction ts arbitrary: b)
  case (Cons t ts)
  have hd: "bit ((if is_ref t then push_bit b 1 else 0) :: u8) k \<longleftrightarrow> is_ref t \<and> k = b"
    using Cons.prems by (auto simp: bit_exp_iff)
  show ?case
  proof (cases "b < k")
    case True
    then have "k - b = Suc (k - Suc b)" by simp
    with True show ?thesis using Cons hd by (simp add: bit_or_iff)
  next
    case False
    then show ?thesis using Cons hd by (auto simp: bit_or_iff)
  qed
qed simp

end
