(* ===== verification/Compress_Correct.thy ===== *)
theory Compress_Correct
  imports Compress
begin

text \<open>
  Correctness of the LZSS codec: the encoder writes the wire format of the token stream
  it parses, the decoder replays that format, and the two compose to the identity; the
  advertised worst-case size is enough for every input.
\<close>

section \<open>The encoder writes the wire format\<close>

definition flush :: "lz_state \<Rightarrow> u8 list" where
  "flush s = (if lz_flag_pos s > 0 then (lz_dst s)[lz_flag_offset s := lz_flags s] else lz_dst s)"

text \<open>
  An open group: \<open>pre\<close> has been written, then one byte is reserved for the flags, then
  the tokens \<open>cur\<close> of the group so far.
\<close>

definition open_group :: "nat \<Rightarrow> u8 list \<Rightarrow> token list \<Rightarrow> lz_state \<Rightarrow> bool" where
  "open_group cap pre cur s \<longleftrightarrow>
     length cur < 8 \<and> lz_flag_pos s = length cur \<and> lz_flags s = flag_bits 0 cur \<and>
     lz_flag_offset s = length pre \<and> lz_di s = length pre + 1 + length (enc_tokens cur) \<and>
     lz_di s \<le> cap \<and> cap \<le> length (lz_dst s) \<and> cap + 2 < 2 ^ 32 \<and>
     (\<exists>x. take (lz_di s) (lz_dst s) = pre @ x # enc_tokens cur)"

definition next_token :: "u8 list \<Rightarrow> nat \<Rightarrow> token" where
  "next_token src si =
     (let (len, pos) = best_match src si in if len \<ge> 2 then Ref pos len else Lit (src ! si))"

fun token_length :: "token \<Rightarrow> nat" where
  "token_length (Lit _) = 1"
| "token_length (Ref _ len) = len"

lemma tokens_from_step:
  "si < length src \<Longrightarrow>
   tokens_from src si = next_token src si # tokens_from src (si + token_length (next_token src si))"
  by (subst tokens_from.simps) (auto simp: next_token_def Let_def split: prod.splits)

lemma tokens_from_end: "length src \<le> si \<Longrightarrow> tokens_from src si = []"
  by (simp add: tokens_from.simps)

lemma length_enc_token [simp]: "length (enc_token t) = (if is_ref t then 2 else 1)"
  by (cases t) (simp_all add: ref_bytes_def)

lemma take_update_two:
  "i + 2 \<le> length xs \<Longrightarrow> take (i + 2) (xs[i := a, i + 1 := b]) = take i xs @ [a, b]"
  by (rule nth_equalityI) (auto simp: nth_append nth_list_update less_Suc_eq)

lemma take_update_one: "i < length xs \<Longrightarrow> take (Suc i) (xs[i := a]) = take i xs @ [a]"
  by (simp add: take_Suc_conv_app_nth)

text \<open>One token: what \<open>emit_token\<close> does to the fields, whenever it succeeds.\<close>

lemma emit_token_OK:
  assumes "emit_token src cap s = (OK, s')" and "lz_di s \<le> cap" and "cap + 2 < 2 ^ 32"
    and "cap \<le> length (lz_dst s)"
  defines "t \<equiv> next_token src (lz_si s)"
  shows "lz_si s' = lz_si s + token_length t"
    and "lz_di s' = lz_di s + length (enc_token t)" and "lz_di s' \<le> cap"
    and "take (lz_di s') (lz_dst s') = take (lz_di s) (lz_dst s) @ enc_token t"
    and "length (lz_dst s') = length (lz_dst s)"
    and "lz_flags s' = lz_flags s OR (if is_ref t then push_bit (lz_flag_pos s) 1 else 0)"
    and "lz_flag_pos s' = lz_flag_pos s" and "lz_flag_offset s' = lz_flag_offset s"
proof -
  obtain l p where bm: "best_match src (lz_si s) = (l, p)" by fastforce
  have *: "lz_si s' = lz_si s + token_length t \<and> lz_di s' = lz_di s + length (enc_token t)
    \<and> lz_di s' \<le> cap \<and> take (lz_di s') (lz_dst s') = take (lz_di s) (lz_dst s) @ enc_token t
    \<and> length (lz_dst s') = length (lz_dst s)
    \<and> lz_flags s' = lz_flags s OR (if is_ref t then push_bit (lz_flag_pos s) 1 else 0)
    \<and> lz_flag_pos s' = lz_flag_pos s \<and> lz_flag_offset s' = lz_flag_offset s"
  proof (cases "l \<ge> 2")
    case True
    then have t: "t = Ref p l" by (simp add: t_def next_token_def bm)
    have room: "lz_di s + 2 \<le> cap"
      using assms(1-3) True
      by (auto simp: emit_token_def bm COMPRESS_LZSS_THRESHOLD_def split: if_splits)
    obtain ring' r' where rf:
      "ring_feed (lz_ring s) (lz_r s) (take l (drop (lz_si s) src)) = (ring', r')" by fastforce
    let ?b = "ref_bytes ((4078 + p) mod 4096) l"
    have "s' = s\<lparr>lz_dst := (lz_dst s)[lz_di s := ?b ! 0, lz_di s + 1 := ?b ! 1],
       lz_di := lz_di s + 2, lz_flags := lz_flags s OR push_bit (lz_flag_pos s) 1,
       lz_ring := ring', lz_r := r', lz_si := lz_si s + l\<rparr>"
      using assms(1) True
      by (auto simp: emit_token_def bm rf Let_def lzss_consts and_nat_masks ref_bytes_def
          split: if_splits)
    then show ?thesis
      using assms(4) room take_update_two [of "lz_di s" "lz_dst s" "?b ! 0" "?b ! 1"]
      by (simp add: t ref_bytes_def)
  next
    case False
    then have t: "t = Lit (src ! lz_si s)" by (simp add: t_def next_token_def bm)
    have room: "lz_di s + 1 \<le> cap"
      using assms(1-3) False
      by (auto simp: emit_token_def bm COMPRESS_LZSS_THRESHOLD_def split: if_splits)
    obtain ring' r' where rf:
      "ring_feed (lz_ring s) (lz_r s) [src ! lz_si s] = (ring', r')" by fastforce
    have "s' = s\<lparr>lz_dst := (lz_dst s)[lz_di s := src ! lz_si s], lz_di := lz_di s + 1,
       lz_ring := ring', lz_r := r', lz_si := lz_si s + 1\<rparr>"
      using assms(1) False
      by (auto simp: emit_token_def bm rf Let_def COMPRESS_LZSS_THRESHOLD_def simp del: ring_feed.simps
          split: if_splits)
    then show ?thesis
      using assms(4) room take_update_one [of "lz_di s" "lz_dst s" "src ! lz_si s"]
      by (simp add: t)
  qed
  then show "lz_si s' = lz_si s + token_length t"
    and "lz_di s' = lz_di s + length (enc_token t)" and "lz_di s' \<le> cap"
    and "take (lz_di s') (lz_dst s') = take (lz_di s) (lz_dst s) @ enc_token t"
    and "length (lz_dst s') = length (lz_dst s)"
    and "lz_flags s' = lz_flags s OR (if is_ref t then push_bit (lz_flag_pos s) 1 else 0)"
    and "lz_flag_pos s' = lz_flag_pos s" and "lz_flag_offset s' = lz_flag_offset s"
    by blast+
qed


text \<open>The whole loop, from an open group to the flushed buffer.\<close>

lemma open_group_emit:
  assumes "open_group cap pre cur s" and "emit_token src cap s = (OK, s')"
  defines "t \<equiv> next_token src (lz_si s)"
  shows "lz_flag_pos s' = length cur" and "lz_flags s' = flag_bits 0 (cur @ [t])"
    and "lz_flag_offset s' = length pre"
    and "lz_di s' = length pre + 1 + length (enc_tokens (cur @ [t]))" and "lz_di s' \<le> cap"
    and "\<exists>x. take (lz_di s') (lz_dst s') = pre @ x # enc_tokens (cur @ [t])"
    and "length (lz_dst s') = length (lz_dst s)" and "lz_si s' = lz_si s + token_length t"
proof -
  have pre: "lz_di s \<le> cap" "cap + 2 < 2 ^ 32" "cap \<le> length (lz_dst s)"
    using assms(1) by (auto simp: open_group_def)
  note e = emit_token_OK [OF assms(2) pre]
  show "lz_flag_pos s' = length cur" "lz_flag_offset s' = length pre" "lz_di s' \<le> cap"
    "length (lz_dst s') = length (lz_dst s)" "lz_si s' = lz_si s + token_length t"
    using e assms(1) by (simp_all add: open_group_def t_def)
  show "lz_flags s' = flag_bits 0 (cur @ [t])"
    using e assms(1) by (simp add: open_group_def t_def flag_bits_snoc)
  show "lz_di s' = length pre + 1 + length (enc_tokens (cur @ [t]))"
    using e assms(1) by (simp add: open_group_def t_def)
  show "\<exists>x. take (lz_di s') (lz_dst s') = pre @ x # enc_tokens (cur @ [t])"
    using e(4) assms(1) by (auto simp: open_group_def t_def)
qed

lemma update_reserved:
  assumes "take n xs = pre @ x # ys"
  shows "take n (xs[length pre := y]) = pre @ y # ys"
  using arg_cong [OF assms, of "\<lambda>zs. zs[length pre := y]"] by (simp add: take_update_swap)

lemma compress_loop_writes:
  assumes "compress_loop src cap s = (OK, s')" and "open_group cap pre cur s"
    and "lz_si s < length src \<or> cur \<noteq> []"
  shows "take (lz_di s') (flush s') = pre @ enc_groups (cur @ tokens_from src (lz_si s))
    \<and> lz_di s' \<le> cap \<and> length (flush s') = length (lz_dst s)"
  using assms
proof (induction src cap s arbitrary: pre cur rule: compress_loop.induct)
  case (1 src cap s)
  show ?case
  proof (cases "lz_si s < length src")
    case False
    then have [simp]: "s' = s" using "1.prems"(1) by (simp add: compress_loop.simps [of src cap s])
    from "1.prems" False have "cur \<noteq> []" by simp
    moreover obtain x where "take (lz_di s) (lz_dst s) = pre @ x # enc_tokens cur"
      using "1.prems"(2) by (auto simp: open_group_def)
    then have "take (lz_di s) ((lz_dst s)[length pre := lz_flags s]) = pre @ lz_flags s # enc_tokens cur"
      by (rule update_reserved)
    ultimately show ?thesis
      using "1.prems"(2) False
      by (simp add: open_group_def flush_def tokens_from_end enc_groups_short)
  next
    case True
    let ?t = "next_token src (lz_si s)"
    obtain s1 where emit: "emit_token src cap s = (OK, s1)"
      and close: "compress_step src cap s = close_group src cap s1"
      using "1.prems"(1) True
      by (auto simp: compress_loop.simps [of src cap s] compress_step_def and_then_OK_iff)
    obtain s2 where step: "compress_step src cap s = (OK, s2)"
      and rest: "compress_loop src cap s2 = (OK, s')"
      using "1.prems"(1) True
      by (auto simp: compress_loop.simps [of src cap s] and_then_OK_iff)
    note e = open_group_emit [OF "1.prems"(2) emit]
    note IH = "1.IH" [OF True step rest]
    have toks: "tokens_from src (lz_si s) = ?t # tokens_from src (lz_si s1)"
      using tokens_from_step [OF True] e(8) by simp
    have cur: "length cur < 8" and cap: "cap + 2 < 2 ^ 32" "cap \<le> length (lz_dst s)"
      using "1.prems"(2) by (auto simp: open_group_def)
    show ?thesis
    proof (cases "length cur = 7")
      case False
      then have s2: "s2 = s1\<lparr>lz_flag_pos := length cur + 1\<rparr>"
        using step close e(1) by (simp add: close_group_def Let_def)
      have "open_group cap pre (cur @ [?t]) s2"
        using e False cur cap by (simp add: s2 open_group_def)
      from IH [OF this] show ?thesis
        by (simp add: s2 toks e(7))
    next
      case True
      let ?d = "(lz_dst s1)[length pre := lz_flags s1]"
      let ?g = "pre @ flag_bits 0 (cur @ [?t]) # enc_tokens (cur @ [?t])"
      obtain x where "take (lz_di s1) (lz_dst s1) = pre @ x # enc_tokens (cur @ [?t])"
        using e(6) by blast
      then have d: "take (lz_di s1) ?d = ?g" and len: "length ?g = lz_di s1"
        using update_reserved e(2,4) by fastforce+
      show ?thesis
      proof (cases "lz_si s1 < length src")
        case more: True
        then have s2: "s2 = s1\<lparr>lz_dst := ?d, lz_flags := 0, lz_flag_pos := 0,
            lz_flag_offset := lz_di s1, lz_di := lz_di s1 + 1\<rparr>" and room: "lz_di s1 < cap"
          using step close e(1,3) True by (auto simp: close_group_def Let_def split: if_splits)
        have "take (Suc (lz_di s1)) ?d = ?g @ [?d ! lz_di s1]"
          using d room cap(2) e(7) by (simp add: take_Suc_conv_app_nth)
        then have "open_group cap ?g [] s2"
          using len room cap e(7) by (simp add: s2 open_group_def)
        from IH [OF this] more True show ?thesis
          by (simp add: s2 toks e(7) enc_groups_full [of "cur @ [?t]", simplified])
      next
        case False
        then have s2: "s2 = s1\<lparr>lz_dst := ?d, lz_flags := 0, lz_flag_pos := 0\<rparr>"
          using step close e(1,3) True by (simp add: close_group_def Let_def)
        have "s' = s2"
          using rest False s2 by (subst (asm) compress_loop.simps) simp
        moreover have "enc_groups (cur @ [?t]) = flag_bits 0 (cur @ [?t]) # enc_tokens (cur @ [?t])"
          using True by (simp add: enc_groups_short)
        ultimately show ?thesis
          using d len e(5,7) False by (simp add: s2 flush_def toks tokens_from_end)
      qed
    qed
  qed
qed

section \<open>The decoder replays the wire format\<close>

text \<open>
  The decoder has produced \<open>out\<close>: the output holds it, and the ring holds its last
  4096 bytes.
\<close>

definition decoded :: "nat \<Rightarrow> u8 list \<Rightarrow> unlz_state \<Rightarrow> bool" where
  "decoded cap out s \<longleftrightarrow>
     ul_di s = length out \<and> cap \<le> length (ul_dst s) \<and> length out \<le> cap \<and>
     take (length out) (ul_dst s) = out \<and>
     length (ul_ring s) = 4096 \<and> ul_r s = (4078 + length out) mod 4096 \<and>
     (\<forall>i < length out. length out \<le> i + 4096 \<longrightarrow> ul_ring s ! ((4078 + i) mod 4096) = out ! i)"

lemma put_byte_decoded:
  assumes "decoded cap out s" and "length out < cap"
  shows "\<exists>s'. put_byte cap c s = (OK, s') \<and> decoded cap (out @ [c]) s' \<and> ul_si s' = ul_si s"
proof -
  let ?s' = "s\<lparr>ul_dst := (ul_dst s)[ul_di s := c], ul_di := ul_di s + 1,
    ul_ring := (ul_ring s)[ul_r s := c], ul_r := (ul_r s + 1) mod 4096\<rparr>"
  have "put_byte cap c s = (OK, ?s')"
    using assms by (simp add: put_byte_def decoded_def)
  moreover have "ul_ring ?s' ! ((4078 + i) mod 4096) = (out @ [c]) ! i"
    if "i < Suc (length out)" "Suc (length out) \<le> i + 4096" for i
  proof (cases "i = length out")
    case True
    then show ?thesis using assms by (simp add: decoded_def)
  next
    case False
    then have "(4078 + i) mod 4096 \<noteq> (4078 + length out) mod 4096"
      using that by (intro window_mod_neq) auto
    then show ?thesis
      using assms that False by (auto simp: decoded_def nth_append)
  qed
  then have "decoded cap (out @ [c]) ?s'"
    using assms take_update_one [of "length out" "ul_dst s" c]
    by (auto simp: decoded_def mod_simps)
  ultimately show ?thesis by auto
qed

lemma copy_loop_decoded:
  assumes "decoded cap (out @ take k (drop c out)) s"
    and "c + k + n \<le> length out" and "length out \<le> c + 4096" and "length out + k + n \<le> cap"
  shows "\<exists>s'. copy_loop cap ((4078 + c) mod 4096) k n s = (OK, s')
    \<and> decoded cap (out @ take (k + n) (drop c out)) s' \<and> ul_si s' = ul_si s"
  using assms
proof (induction n arbitrary: k s)
  case (Suc n)
  let ?out = "out @ take k (drop c out)"
  have lo: "length ?out = length out + k" using Suc.prems(2) by simp
  have "ul_ring s ! ((4078 + (c + k)) mod 4096) = ?out ! (c + k)"
    using Suc.prems lo by (simp add: decoded_def)
  also have "\<dots> = out ! (c + k)" using Suc.prems by (simp add: nth_append)
  finally have rd: "ul_ring s ! (((4078 + c) mod 4096 + k) mod 4096) = out ! (c + k)"
    by (simp add: mod_simps add.assoc)
  have snoc: "?out @ [out ! (c + k)] = out @ take (Suc k) (drop c out)"
    using Suc.prems by (simp add: take_Suc_conv_app_nth)
  obtain s1 where s1: "put_byte cap (out ! (c + k)) s = (OK, s1)"
    and d1: "decoded cap (out @ take (Suc k) (drop c out)) s1" and si: "ul_si s1 = ul_si s"
    using put_byte_decoded [OF Suc.prems(1), of "out ! (c + k)"] Suc.prems lo snoc by auto
  have "\<exists>s'. copy_loop cap ((4078 + c) mod 4096) (Suc k) n s1 = (OK, s')
    \<and> decoded cap (out @ take (Suc k + n) (drop c out)) s' \<and> ul_si s' = ul_si s1"
    using Suc.prems by (intro Suc.IH [OF d1]) auto
  then show ?case using s1 rd si by simp
qed simp

subsection \<open>Replaying one token\<close>

fun apply_token :: "u8 list \<Rightarrow> token \<Rightarrow> u8 list" where
  "apply_token out (Lit c) = out @ [c]"
| "apply_token out (Ref c len) = out @ take len (drop c out)"

fun token_ok :: "u8 list \<Rightarrow> token \<Rightarrow> bool" where
  "token_ok out (Lit c) = True"
| "token_ok out (Ref c len) = (2 \<le> len \<and> len \<le> 17 \<and> c + len \<le> length out \<and> length out \<le> c + 4096)"

fun apply_tokens :: "u8 list \<Rightarrow> token list \<Rightarrow> u8 list" where
  "apply_tokens out [] = out"
| "apply_tokens out (t # ts) = apply_tokens (apply_token out t) ts"

fun tokens_ok :: "u8 list \<Rightarrow> token list \<Rightarrow> bool" where
  "tokens_ok out [] = True"
| "tokens_ok out (t # ts) = (token_ok out t \<and> tokens_ok (apply_token out t) ts)"

lemma apply_tokens_append [simp]:
  "apply_tokens out (ts @ us) = apply_tokens (apply_tokens out ts) us"
  "tokens_ok out (ts @ us) = (tokens_ok out ts \<and> tokens_ok (apply_tokens out ts) us)"
  by (induction ts arbitrary: out) auto

lemma apply_tokens_mono: "length out \<le> length (apply_tokens out ts)"
proof (induction ts arbitrary: out)
  case (Cons t ts)
  have "length out \<le> length (apply_token out t)" by (cases t) auto
  also have "\<dots> \<le> length (apply_tokens (apply_token out t) ts)" by (rule Cons.IH)
  finally show ?case by simp
qed simp

text \<open>The two bytes of a back reference carry its position and length.\<close>

lemma unat_ref_bytes:
  assumes "pos < 4096" "2 \<le> len" "len \<le> 17"
  shows "unat (ref_bytes pos len ! 0) = pos mod 256"
    and "unat (ref_bytes pos len ! Suc 0) = pos div 256 + 16 * (len - 2)"
proof -
  have "pos div 256 < 2 ^ 4" using assms(1) by simp
  then have "(drop_bit 8 pos AND 0x0F) OR push_bit 4 (len - 2) = pos div 256 + 16 * (len - 2)"
    using or_push_bit_eq_add [of "pos div 256" 4 "len - 2"]
    by (simp add: drop_bit_eq_div and_nat_masks)
  then have "ref_bytes pos len ! Suc 0 = word_of_nat (pos div 256 + 16 * (len - 2))"
    unfolding ref_bytes_def by (simp only: nth_Cons_Suc nth_Cons_0)
  moreover have "pos div 256 + 16 * (len - 2) < 256" using assms by linarith
  ultimately show "unat (ref_bytes pos len ! Suc 0) = pos div 256 + 16 * (len - 2)"
    by (simp only: unat_of_nat len_of_numeral_defs) simp
  show "unat (ref_bytes pos len ! 0) = pos mod 256"
    by (simp add: ref_bytes_def unat_of_nat and_nat_masks)
qed

lemma ref_bytes_pos:
  assumes "pos < 4096" "2 \<le> len" "len \<le> 17"
  shows "unat (ref_bytes pos len ! 0) OR push_bit 8 (unat (ref_bytes pos len ! Suc 0) AND 0x0F) = pos"
  using assms or_push_bit_eq_add [of "pos mod 256" 8 "pos div 256"]
  by (simp add: unat_ref_bytes and_nat_masks)

lemma ref_bytes_len:
  assumes "pos < 4096" "2 \<le> len" "len \<le> 17"
  shows "(drop_bit 4 (unat (ref_bytes pos len ! Suc 0)) AND 0x0F) + 2 = len"
  using assms by (simp add: unat_ref_bytes and_nat_masks drop_bit_eq_div)

lemma nth_drop_prefix:
  "drop i xs = ys @ zs \<Longrightarrow> k < length ys \<Longrightarrow> xs ! (i + k) = ys ! k"
  by (metis (no_types, lifting) append_eq_append_conv_if le_add1 length_drop less_imp_le
      nth_append nth_drop linorder_not_less drop_all append_is_Nil_conv list.size(3) not_less0)

lemma length_drop_prefix: "drop i xs = ys @ zs \<Longrightarrow> ys \<noteq> [] \<Longrightarrow> i + length ys \<le> length xs"
  by (metis (no_types, lifting) append_is_Nil_conv drop_eq_Nil2 le_add1 length_append
      length_drop linorder_not_less add.commute less_diff_conv2 not_le_imp_less le_diff_conv2 nat_less_le)

lemma decode_token_decoded:
  assumes "decoded cap out s" and "token_ok out t" and "length (apply_token out t) \<le> cap"
    and "drop (ul_si s) src = enc_token t @ rest"
    and "flags AND push_bit b 1 \<noteq> 0 \<longleftrightarrow> is_ref t"
  shows "\<exists>s'. decode_token src cap flags b s = (OK, s') \<and> decoded cap (apply_token out t) s'
    \<and> ul_si s' = ul_si s + length (enc_token t)"
proof (cases t)
  case (Lit c)
  have "src ! ul_si s = c" "ul_si s < length src"
    using nth_drop_prefix [OF assms(4), of 0] length_drop_prefix [OF assms(4)] by (simp_all add: Lit)
  moreover have "decoded cap out (s\<lparr>ul_si := ul_si s + 1\<rparr>)"
    using assms(1) by (simp add: decoded_def)
  moreover have "length out < cap" using assms(3) Lit by simp
  ultimately show ?thesis
    using put_byte_decoded [of cap out "s\<lparr>ul_si := ul_si s + 1\<rparr>" c] assms(5)
    by (auto simp: Lit decode_token_def)
next
  case (Ref c len)
  let ?p = "(4078 + c) mod 4096"
  have t: "?p < 4096" "2 \<le> len" "len \<le> 17" "c + len \<le> length out" "length out \<le> c + 4096"
    using assms(2) Ref by auto
  have enc: "enc_token t = [ref_bytes ?p len ! 0, ref_bytes ?p len ! Suc 0]"
    by (simp add: Ref ref_bytes_def)
  have src: "src ! ul_si s = ref_bytes ?p len ! 0" "src ! (ul_si s + 1) = ref_bytes ?p len ! Suc 0"
    "ul_si s + 1 < length src"
    using nth_drop_prefix [OF assms(4), of 0] nth_drop_prefix [OF assms(4), of "Suc 0"]
      length_drop_prefix [OF assms(4)] by (simp_all add: enc)
  have d: "decoded cap (out @ take 0 (drop c out)) (s\<lparr>ul_si := ul_si s + 2\<rparr>)"
    using assms(1) by (simp add: decoded_def)
  have "length out + 0 + len \<le> cap" using assms(3) t Ref by simp
  note copy = copy_loop_decoded [OF d _ t(5) this]
  have c0: "(flags AND push_bit b 1 = 0) = False" using assms(5) Ref by simp
  have c1: "(length src \<le> ul_si s + 1) = False" using src(3) by simp
  have "decode_token src cap flags b s = copy_loop cap ?p 0 len (s\<lparr>ul_si := ul_si s + 2\<rparr>)"
    by (simp only: decode_token_def Let_def src(1,2) c0 c1 not_False_eq_True if_True if_False
        COMPRESS_LZSS_THRESHOLD_def ref_bytes_pos [OF t(1-3)] ref_bytes_len [OF t(1-3)])
  then show ?thesis using copy t(4) by (simp add: Ref ref_bytes_def)
qed

text \<open>A group of at most eight tokens, and then the whole stream.\<close>

lemma flag_test: "b < 8 \<Longrightarrow> (flags :: u8) AND push_bit b 1 \<noteq> 0 \<longleftrightarrow> bit flags b"
proof -
  assume "b < 8"
  have "flags AND push_bit b 1 = (if bit flags b then push_bit b 1 else 0)"
    by (rule bit_word_eqI) (auto simp: bit_and_iff bit_exp_iff)
  moreover have "push_bit b (1 :: u8) \<noteq> 0" using \<open>b < 8\<close> by simp
  ultimately show ?thesis by simp
qed

lemma group_loop_decoded:
  assumes "decoded cap out s" and "tokens_ok out ts" and "length (apply_tokens out ts) \<le> cap"
    and "drop (ul_si s) src = enc_tokens ts @ rest" and "rest = [] \<or> b + length ts = 8"
    and "b + length ts \<le> 8"
    and "\<And>k. k < length ts \<Longrightarrow> bit flags (b + k) \<longleftrightarrow> is_ref (ts ! k)"
  shows "\<exists>s'. group_loop src cap flags b s = (OK, s') \<and> decoded cap (apply_tokens out ts) s'
    \<and> ul_si s' = ul_si s + length (enc_tokens ts)"
  using assms
proof (induction ts arbitrary: out s b)
  case Nil
  then have "\<not> (b < 8 \<and> ul_si s < length src)" by auto
  then have "group_loop src cap flags b s = (OK, s)"
    by (simp only: group_loop.simps [of src cap flags b s] if_False)
  then show ?case using Nil.prems(1) by simp
next
  case (Cons t ts)
  have b: "b < 8" using Cons.prems(6) by simp
  have "drop (ul_si s) src = enc_token t @ (enc_tokens ts @ rest)" using Cons.prems(4) by simp
  moreover have "length (apply_token out t) \<le> cap"
    using Cons.prems(3) apply_tokens_mono [of "apply_token out t" ts] by simp
  moreover have "flags AND push_bit b 1 \<noteq> 0 \<longleftrightarrow> is_ref t"
    using flag_test [OF b] Cons.prems(7) [of 0] by simp
  ultimately obtain s1 where s1: "decode_token src cap flags b s = (OK, s1)"
    and d1: "decoded cap (apply_token out t) s1"
    and si1: "ul_si s1 = ul_si s + length (enc_token t)"
    using decode_token_decoded [OF Cons.prems(1)] Cons.prems(2) by (metis tokens_ok.simps(2))
  have "\<exists>s'. group_loop src cap flags (Suc b) s1 = (OK, s')
    \<and> decoded cap (apply_tokens (apply_token out t) ts) s' \<and> ul_si s' = ul_si s1 + length (enc_tokens ts)"
  proof (rule Cons.IH [OF d1])
    show "drop (ul_si s1) src = enc_tokens ts @ rest"
      using arg_cong [OF Cons.prems(4), of "drop (length (enc_token t))"]
      by (simp add: si1 add.commute del: length_enc_token)
    show "\<And>k. k < length ts \<Longrightarrow> bit flags (Suc b + k) = is_ref (ts ! k)"
      using Cons.prems(7) [of "Suc _"] by simp
  qed (use Cons.prems in auto)
  moreover have "ul_si s < length src"
    using length_drop_prefix [of "ul_si s" src "enc_token t" "enc_tokens ts @ rest"] Cons.prems(4)
    by (cases t) (auto simp: ref_bytes_def)
  ultimately show ?case
    using s1 b si1
    by (simp add: group_loop.simps [of src cap flags b s] add.assoc del: length_enc_token)
qed

lemma decompress_loop_decoded:
  assumes "decoded cap out s" and "tokens_ok out ts" and "length (apply_tokens out ts) \<le> cap"
    and "drop (ul_si s) src = enc_groups ts"
  shows "\<exists>s'. decompress_loop src cap s = (OK, s') \<and> decoded cap (apply_tokens out ts) s'"
  using assms
proof (induction ts arbitrary: out s rule: length_induct)
  case (1 ts)
  show ?case
  proof (cases "ts = []")
    case True
    with "1.prems" have "\<not> ul_si s < length src" by simp
    with "1.prems" True show ?thesis by (simp add: decompress_loop.simps)
  next
    case False
    let ?c = "take 8 ts" and ?r = "drop 8 ts"
    have ts: "ts = ?c @ ?r" by simp
    have src: "drop (ul_si s) src = [flag_bits 0 ?c] @ enc_tokens ?c @ enc_groups ?r"
      using "1.prems"(4) False by (simp add: enc_groups.simps [of ts])
    have "enc_tokens ?c \<noteq> []"
      using False by (cases ts; cases "hd ts") (auto simp: ref_bytes_def)
    then have si: "ul_si s + 1 < length src"
      using arg_cong [OF src, of length] by (cases "enc_tokens ?c") auto
    have flags: "src ! ul_si s = flag_bits 0 ?c"
      using nth_drop_prefix [OF src, of 0] by simp
    let ?s1 = "s\<lparr>ul_si := ul_si s + 1\<rparr>"
    have "\<exists>s'. group_loop src cap (flag_bits 0 ?c) 0 ?s1 = (OK, s')
      \<and> decoded cap (apply_tokens out ?c) s' \<and> ul_si s' = ul_si ?s1 + length (enc_tokens ?c)"
    proof (rule group_loop_decoded)
      show "decoded cap out ?s1" using "1.prems"(1) by (simp add: decoded_def)
      show "tokens_ok out ?c"
        using "1.prems"(2) by (metis append_take_drop_id apply_tokens_append(2))
      show "length (apply_tokens out ?c) \<le> cap"
        using "1.prems"(3) apply_tokens_mono [of "apply_tokens out ?c" ?r]
        by (metis append_take_drop_id apply_tokens_append(1) le_trans)
      show "drop (ul_si ?s1) src = enc_tokens ?c @ enc_groups ?r"
        using arg_cong [OF src, of tl] by (simp add: drop_Suc tl_drop)
      show "enc_groups ?r = [] \<or> 0 + length ?c = 8" by (cases "length ts \<le> 8") auto
    qed (auto simp: bit_flag_bits)
    then obtain s2 where s2: "group_loop src cap (flag_bits 0 ?c) 0 ?s1 = (OK, s2)"
      and d2: "decoded cap (apply_tokens out ?c) s2"
      and si2: "ul_si s2 = ul_si s + 1 + length (enc_tokens ?c)" by auto
    have "drop (ul_si s2) src = enc_groups ?r"
      using arg_cong [OF src, of "drop (1 + length (enc_tokens ?c))"] by (simp add: si2 add.commute)
    moreover have "tokens_ok (apply_tokens out ?c) ?r"
      "length (apply_tokens (apply_tokens out ?c) ?r) \<le> cap"
      using "1.prems"(2,3) by (metis append_take_drop_id apply_tokens_append)+
    moreover have "length ?r < length ts" using False by (cases ts) auto
    ultimately have "\<exists>s'. decompress_loop src cap s2 = (OK, s')
      \<and> decoded cap (apply_tokens (apply_tokens out ?c) ?r) s'"
      using "1.IH" d2 by blast
    then show ?thesis
      using s2 si flags
      by (subst decompress_loop.simps) (simp flip: apply_tokens_append)
  qed
qed

section \<open>The parse is faithful and the worst case fits\<close>

lemma next_token_correct:
  assumes "si < length src"
  defines "t \<equiv> next_token src si"
  shows "token_ok (take si src) t" and "apply_token (take si src) t = take (si + token_length t) src"
    and "si + token_length t \<le> length src" and "length (enc_token t) \<le> token_length t"
    and "0 < token_length t"
proof -
  obtain l p where bm: "best_match src si = (l, p)" by fastforce
  have "token_ok (take si src) t \<and> apply_token (take si src) t = take (si + token_length t) src
    \<and> si + token_length t \<le> length src \<and> length (enc_token t) \<le> token_length t \<and> 0 < token_length t"
  proof (cases "l \<ge> 2")
    case True
    then have t: "t = Ref p l" by (simp add: t_def next_token_def bm)
    note g = best_match_good [OF bm assms(1)]
    have m: "l \<le> 17" "p + l \<le> si" "si + l \<le> length src" "si \<le> p + 4096"
      "\<And>k. k < l \<Longrightarrow> src ! (p + k) = src ! (si + k)"
      using g True by (auto simp: good_match_def)
    have "take l (drop p (take si src)) = take l (drop si src)"
      by (rule nth_equalityI) (use m in auto)
    then show ?thesis using True m by (simp add: t take_add ref_bytes_def)
  next
    case False
    then have "t = Lit (src ! si)" by (simp add: t_def next_token_def bm)
    then show ?thesis using assms(1) by (simp add: take_Suc_conv_app_nth)
  qed
  then show "token_ok (take si src) t" and "apply_token (take si src) t = take (si + token_length t) src"
    and "si + token_length t \<le> length src" and "length (enc_token t) \<le> token_length t"
    and "0 < token_length t"
    by blast+
qed

lemma tokens_from_faithful:
  "si \<le> length src \<Longrightarrow> tokens_ok (take si src) (tokens_from src si) \<and>
     apply_tokens (take si src) (tokens_from src si) = src"
proof (induction "length src - si" arbitrary: si rule: less_induct)
  case less
  show ?case
  proof (cases "si < length src")
    case True
    note nt = next_token_correct [OF True]
    have "length src - (si + token_length (next_token src si)) < length src - si"
      using nt(5) True by simp
    from less.hyps [OF this nt(3)] show ?thesis
      using nt(1,2) by (simp add: tokens_from_step [OF True])
  next
    case False
    then show ?thesis using less.prems by (simp add: tokens_from_end)
  qed
qed

text \<open>
  Room left in the destination: \<open>n\<close> source bytes need at most \<open>n\<close> more bytes of tokens
  and one flag byte for each further group.
\<close>

definition need :: "nat \<Rightarrow> nat \<Rightarrow> nat" where
  "need n flag_pos = n + (flag_pos + n - 1) div 8"

definition has_room :: "u8 list \<Rightarrow> nat \<Rightarrow> lz_state \<Rightarrow> bool" where
  "has_room src cap s \<longleftrightarrow>
     lz_flag_pos s < 8 \<and> lz_si s \<le> length src \<and> cap + 2 < 2 ^ 32 \<and> cap \<le> length (lz_dst s) \<and>
     lz_di s \<le> cap \<and>
     (lz_si s < length src \<longrightarrow> lz_di s + need (length src - lz_si s) (lz_flag_pos s) \<le> cap)"

lemma need_ge: "n \<le> need n fp"
  by (simp add: need_def)

lemma need_same_group:
  assumes "Suc n' \<le> n" "a + n' \<le> b + n" "b + need n fp \<le> cap"
  shows "a + need n' (Suc fp) \<le> cap"
proof -
  have "(Suc fp + n' - 1) div 8 \<le> (fp + n - 1) div 8"
    using assms(1) by (intro div_le_mono) simp
  then show ?thesis using assms(2,3) by (simp add: need_def)
qed

lemma need_new_group:
  assumes "Suc n' \<le> n" "0 < n'" "a + n' \<le> b + n" "b + need n 7 \<le> cap"
  shows "Suc a + need n' 0 \<le> cap"
proof -
  have "Suc ((n' - 1) div 8) = (n' - 1 + 8) div 8" by simp
  also have "\<dots> \<le> (7 + n - 1) div 8" using assms by (intro div_le_mono) simp
  finally show ?thesis using assms(3,4) by (simp add: need_def)
qed

lemma emit_token_room:
  assumes "has_room src cap s" and "lz_si s < length src"
  shows "\<exists>s'. emit_token src cap s = (OK, s')"
proof -
  obtain l p where bm: "best_match src (lz_si s) = (l, p)" by fastforce
  have len: "lz_di s + (length src - lz_si s) \<le> cap"
    using assms need_ge [of "length src - lz_si s" "lz_flag_pos s"]
    unfolding has_room_def by linarith
  have "l \<ge> 2 \<Longrightarrow> lz_si s + l \<le> length src"
    using best_match_good(1) [OF bm assms(2)] by (auto simp: good_match_def)
  then have "l \<ge> 2 \<Longrightarrow> lz_di s + 2 \<le> cap" and "lz_di s + 1 \<le> cap"
    using len assms(2) by linarith+
  then have "l \<ge> 2 \<Longrightarrow> \<not> (lz_di s + 2) mod 2 ^ 32 > cap" and "\<not> (lz_di s + 1) mod 2 ^ 32 > cap"
    using mod_less_eq_dividend le_trans not_less by metis+
  then show ?thesis
    by (auto simp: emit_token_def bm COMPRESS_LZSS_THRESHOLD_def Let_def
        simp del: ring_feed.simps split: prod.splits)
qed

lemma compress_step_room:
  assumes "has_room src cap s" and "lz_si s < length src"
  shows "\<exists>s'. compress_step src cap s = (OK, s') \<and> has_room src cap s'"
proof -
  obtain s1 where e: "emit_token src cap s = (OK, s1)" using emit_token_room [OF assms] by blast
  have pre: "lz_di s \<le> cap" "cap + 2 < 2 ^ 32" "cap \<le> length (lz_dst s)" "lz_flag_pos s < 8"
    "lz_di s + need (length src - lz_si s) (lz_flag_pos s) \<le> cap"
    using assms by (auto simp: has_room_def)
  note et = emit_token_OK [OF e pre(1-3)] and nt = next_token_correct [OF assms(2)]
  let ?n = "length src - lz_si s" and ?n' = "length src - lz_si s1"
  have n': "Suc ?n' \<le> ?n" "lz_di s1 + ?n' \<le> lz_di s + ?n" "lz_si s1 \<le> length src"
    using et(1,2) nt(3,4,5) by linarith+
  show ?thesis
  proof (cases "lz_flag_pos s = 7")
    case True
    show ?thesis
    proof (cases "lz_si s1 < length src")
      case more: True
      then have r: "Suc (lz_di s1) + need ?n' 0 \<le> cap"
        using need_new_group [OF n'(1) _ n'(2)] pre(5) by (simp only: True)
      let ?s2 = "s1\<lparr>lz_dst := (lz_dst s1)[lz_flag_offset s1 := lz_flags s1], lz_flags := 0,
        lz_flag_pos := 0, lz_flag_offset := lz_di s1, lz_di := lz_di s1 + 1\<rparr>"
      have "lz_di s1 < cap" using r by linarith
      then have "compress_step src cap s = (OK, ?s2)"
        using e True more et(7) by (simp add: compress_step_def close_group_def Let_def)
      moreover have "has_room src cap ?s2"
        unfolding has_room_def using r n'(3) pre(2,3) et(5) by simp
      ultimately show ?thesis by blast
    next
      case False
      then show ?thesis
        using e True et(3,5,7) n'(3) pre(2,3)
        by (simp add: compress_step_def close_group_def Let_def has_room_def)
    qed
  next
    case False
    let ?s2 = "s1\<lparr>lz_flag_pos := lz_flag_pos s + 1\<rparr>"
    have "compress_step src cap s = (OK, ?s2)"
      using e False et(7) by (simp add: compress_step_def close_group_def Let_def)
    moreover have "has_room src cap ?s2"
      unfolding has_room_def
      using need_same_group [OF n'(1,2) pre(5)] n'(3) False pre(2-4) et(3,5) by simp
    ultimately show ?thesis by blast
  qed
qed

lemma compress_loop_room:
  "has_room src cap s \<Longrightarrow> \<exists>s'. compress_loop src cap s = (OK, s') \<and> lz_di s' \<le> cap"
proof (induction src cap s rule: compress_loop.induct)
  case (1 src cap s)
  show ?case
  proof (cases "lz_si s < length src")
    case True
    then obtain s1 where s1: "compress_step src cap s = (OK, s1)" "has_room src cap s1"
      using compress_step_room "1.prems" by blast
    from "1.IH" [OF True s1] True s1(1) show ?thesis
      by (simp add: compress_loop.simps [of src cap s])
  next
    case False
    then show ?thesis
      using "1.prems" by (simp add: compress_loop.simps [of src cap s] has_room_def)
  qed
qed

section \<open>The entry points\<close>

definition lz_init :: "compress_state \<Rightarrow> u8 list \<Rightarrow> lz_state" where
  "lz_init st dst = \<lparr>lz_si = 0, lz_di = 1, lz_flags = 0, lz_flag_pos = 0, lz_flag_offset = 0,
     lz_r = COMPRESS_LZSS_N - COMPRESS_LZSS_F,
     lz_ring = kmemset (compress_ring st) 0x20 COMPRESS_LZSS_N, lz_dst = dst\<rparr>"

lemma compress_data_OK_iff:
  assumes "cap \<noteq> 0"
  shows "(\<exists>st'. compress_data st (Some src) (Some dst) cap True = (OK, Some out, Some n, st'))
    \<longleftrightarrow> (\<exists>s. compress_loop src cap (lz_init st dst) = (OK, s) \<and> out = flush s \<and> n = lz_di s)"
  using assms
  by (auto simp: compress_data_def lz_init_def flush_def Let_def split: prod.splits if_splits)

lemma compress_writes_groups:
  assumes "compress_data st (Some src) (Some dst) cap True = (OK, Some out, Some n, st')"
    and "src \<noteq> []" and "cap \<le> length dst" and "cap + 2 < 2 ^ 32"
  shows "take n out = enc_groups (tokens_from src 0)" and "n \<le> cap" and "length out = length dst"
proof -
  have cap: "cap \<noteq> 0" using assms(1) by (auto simp: compress_data_def split: if_splits)
  then obtain s where s: "compress_loop src cap (lz_init st dst) = (OK, s)" "out = flush s" "n = lz_di s"
    using compress_data_OK_iff assms(1) by blast
  have "open_group cap [] [] (lz_init st dst)"
    using assms(3,4) cap by (cases dst) (simp_all add: open_group_def lz_init_def)
  from compress_loop_writes [OF s(1) this] assms(2)
  show "take n out = enc_groups (tokens_from src 0)" "n \<le> cap" "length out = length dst"
    by (simp_all add: s lz_init_def)
qed

lemma decompress_groups:
  assumes "length (decompress_ring st) = 4096" and "length src \<le> cap" and "cap \<le> length dst"
  shows "\<exists>out st'. decompress_data st (Some (enc_groups (tokens_from src 0))) (Some dst) cap True
    = (OK, Some out, Some (length src), st') \<and> take (length src) out = src"
proof -
  let ?s = "\<lparr>ul_si = 0, ul_di = 0, ul_r = COMPRESS_LZSS_N - COMPRESS_LZSS_F,
    ul_ring = kmemset (decompress_ring st) 0x20 COMPRESS_LZSS_N, ul_dst = dst\<rparr>"
  have "decoded cap [] ?s"
    using assms by (simp add: decoded_def kmemset_eq lzss_consts)
  then have "\<exists>s'. decompress_loop (enc_groups (tokens_from src 0)) cap ?s = (OK, s')
      \<and> decoded cap (apply_tokens [] (tokens_from src 0)) s'"
    by (rule decompress_loop_decoded)
      (use tokens_from_faithful [of 0 src] assms in \<open>simp_all\<close>)
  then show ?thesis
    using tokens_from_faithful [of 0 src]
    by (auto simp: decompress_data_def Let_def decoded_def)
qed

lemma max_size_nat:
  assumes "unat (compress_get_max_size (word_of_nat n)) + 2 < 2 ^ 32" and "n < 2 ^ 32"
  shows "unat (compress_get_max_size (word_of_nat n)) = n + n div 8 + 64"
proof -
  let ?w = "word_of_nat n :: u32"
  have w: "unat ?w = n" using assms(2) by (simp add: unat_of_nat)
  have o: "unat (?w div 8 + 64) = n div 8 + 64"
    using assms(2) w by (simp add: unat_word_ariths unat_div)
  have "\<not> 0xFFFFFFFF - (?w div 8 + 64) < ?w"
    using assms(1) by (auto simp: compress_get_max_size_def Let_def)
  moreover have "unat (0xFFFFFFFF - (?w div 8 + 64)) = 0xFFFFFFFF - (n div 8 + 64)"
    using assms(2) o by (subst unat_sub) (simp_all add: word_le_nat_alt)
  ultimately have "n + n div 8 + 64 < 2 ^ 32"
    using assms(2) w by (simp add: word_less_nat_alt)
  then show ?thesis
    using \<open>\<not> 0xFFFFFFFF - (?w div 8 + 64) < ?w\<close> o w
    by (simp add: compress_get_max_size_def Let_def unat_word_ariths add.assoc)
qed

lemma compress_fits:
  assumes "length src < 2 ^ 32" and "unat (compress_get_max_size (word_of_nat (length src))) \<le> cap"
    and "cap + 2 < 2 ^ 32" and "cap \<le> length dst"
  shows "\<exists>out n st'. compress_data st (Some src) (Some dst) cap True = (OK, Some out, Some n, st')
    \<and> n \<le> cap"
proof -
  have m: "length src + length src div 8 + 64 \<le> cap"
    using max_size_nat [of "length src"] assms by simp
  moreover have "(length src - 1) div 8 \<le> length src div 8" by (rule div_le_mono) simp
  ultimately have "has_room src cap (lz_init st dst)"
    using assms(3,4) by (simp add: has_room_def lz_init_def need_def)
  then obtain s where "compress_loop src cap (lz_init st dst) = (OK, s)" "lz_di s \<le> cap"
    using compress_loop_room by blast
  moreover have "cap \<noteq> 0" using m by simp
  ultimately show ?thesis using compress_data_OK_iff by metis
qed

subsection \<open>Capacity is respected on every input\<close>

text \<open>
  \<open>within cap dst0 d\<close>: the buffer \<open>d\<close> differs from \<open>dst0\<close> below \<open>cap\<close> only.
\<close>

definition within :: "nat \<Rightarrow> 'a list \<Rightarrow> 'a list \<Rightarrow> bool" where
  "within cap dst0 d \<longleftrightarrow> length d = length dst0 \<and> drop cap d = drop cap dst0"

lemma within_refl [simp]: "within cap d d"
  by (simp add: within_def)

lemma within_update [simp]: "within cap dst0 d \<Longrightarrow> i < cap \<Longrightarrow> within cap dst0 (d[i := x])"
  by (simp add: within_def)

definition ul_safe :: "nat \<Rightarrow> u8 list \<Rightarrow> unlz_state \<Rightarrow> bool" where
  "ul_safe cap dst0 s \<longleftrightarrow> within cap dst0 (ul_dst s) \<and> ul_di s \<le> cap \<and> length (ul_ring s) = 4096 \<and> ul_r s < 4096"

lemma and_then_inv:
  assumes "P (snd r)" and "\<And>t. r = (OK, t) \<Longrightarrow> P (snd (f t))"
  shows "P (snd (and_then r f))"
  using assms by (cases r) (auto simp: and_then_def)

lemma put_byte_safe: "ul_safe cap dst0 s \<Longrightarrow> ul_safe cap dst0 (snd (put_byte cap c s))"
  by (simp add: put_byte_def ul_safe_def)

lemma copy_loop_safe: "ul_safe cap dst0 s \<Longrightarrow> ul_safe cap dst0 (snd (copy_loop cap pos k n s))"
proof (induction n arbitrary: k s)
  case (Suc n)
  show ?case
    unfolding copy_loop.simps
  proof (rule and_then_inv)
    fix t
    assume "put_byte cap (ul_ring s ! (pos + k AND COMPRESS_LZSS_N - 1)) s = (OK, t)"
    then have "ul_safe cap dst0 t" using put_byte_safe Suc.prems by (metis snd_conv)
    then show "ul_safe cap dst0 (snd (copy_loop cap pos (Suc k) n t))" by (rule Suc.IH)
  qed (rule put_byte_safe [OF Suc.prems])
qed simp

lemma decode_token_safe:
  assumes "ul_safe cap dst0 s"
  shows "ul_safe cap dst0 (snd (decode_token src cap flags b s))"
proof -
  have "ul_safe cap dst0 (s\<lparr>ul_si := x\<rparr>)" for x using assms by (simp add: ul_safe_def)
  then show ?thesis
    using assms by (simp add: decode_token_def Let_def copy_loop_safe put_byte_safe del: copy_loop.simps)
qed

lemma group_loop_safe: "ul_safe cap dst0 s \<Longrightarrow> ul_safe cap dst0 (snd (group_loop src cap flags b s))"
proof (induction src cap flags b s rule: group_loop.induct)
  case (1 src cap flags b s)
  show ?case
  proof (cases "b < 8 \<and> ul_si s < length src")
    case True
    have "ul_safe cap dst0 (snd (and_then (decode_token src cap flags b s)
        (\<lambda>s'. group_loop src cap flags (Suc b) s')))"
    proof (rule and_then_inv)
      show d: "ul_safe cap dst0 (snd (decode_token src cap flags b s))"
        by (rule decode_token_safe [OF "1.prems"])
      show "ul_safe cap dst0 (snd (group_loop src cap flags (Suc b) t))"
        if "decode_token src cap flags b s = (OK, t)" for t
        using "1.IH" [OF True that] d that by simp
    qed
    with True show ?thesis by (simp add: group_loop.simps [of src cap flags b s])
  next
    case False
    then show ?thesis
      using "1.prems" by (simp only: group_loop.simps [of src cap flags b s] if_False snd_conv)
  qed
qed

lemma decompress_loop_safe: "ul_safe cap dst0 s \<Longrightarrow> ul_safe cap dst0 (snd (decompress_loop src cap s))"
proof (induction src cap s rule: decompress_loop.induct)
  case (1 src cap s)
  let ?s1 = "s\<lparr>ul_si := ul_si s + 1\<rparr>"
  have s1: "ul_safe cap dst0 ?s1" using "1.prems" by (simp add: ul_safe_def)
  show ?case
  proof (cases "ul_si s < length src \<and> ul_si ?s1 \<noteq> length src")
    case True
    let ?f = "src ! ul_si s"
    have "ul_safe cap dst0 (snd (and_then (group_loop src cap ?f 0 ?s1) (\<lambda>s2. decompress_loop src cap s2)))"
    proof (rule and_then_inv)
      show g: "ul_safe cap dst0 (snd (group_loop src cap ?f 0 ?s1))" by (rule group_loop_safe [OF s1])
      show "ul_safe cap dst0 (snd (decompress_loop src cap t))"
        if "group_loop src cap ?f 0 ?s1 = (OK, t)" for t
        using "1.IH" [OF _ refl refl _ that] True g that by simp
    qed
    with True show ?thesis by (subst decompress_loop.simps) (simp add: Let_def)
  next
    case False
    then show ?thesis
      using "1.prems" s1 by (subst decompress_loop.simps) (auto simp: Let_def)
  qed
qed

definition lz_safe :: "nat \<Rightarrow> u8 list \<Rightarrow> lz_state \<Rightarrow> bool" where
  "lz_safe cap dst0 s \<longleftrightarrow> within cap dst0 (lz_dst s) \<and> lz_di s \<le> cap \<and> lz_flag_offset s < cap"

lemma emit_token_safe:
  assumes "lz_safe cap dst0 s" and "cap + 2 < 2 ^ 32"
  shows "lz_safe cap dst0 (snd (emit_token src cap s))"
proof -
  have m: "(lz_di s + 2) mod 2 ^ 32 = lz_di s + 2" "(lz_di s + 1) mod 2 ^ 32 = lz_di s + 1"
    using assms by (simp_all add: lz_safe_def)
  show ?thesis
    unfolding emit_token_def m
    using assms(1) by (auto simp: Let_def lz_safe_def split: prod.splits)
qed

lemma compress_step_safe:
  assumes "lz_safe cap dst0 s" and "cap + 2 < 2 ^ 32"
  shows "lz_safe cap dst0 (snd (compress_step src cap s))"
  unfolding compress_step_def
proof (rule and_then_inv)
  show e: "lz_safe cap dst0 (snd (emit_token src cap s))" by (rule emit_token_safe [OF assms])
  show "lz_safe cap dst0 (snd (close_group src cap t))" if "emit_token src cap s = (OK, t)" for t
    using e that by (auto simp: close_group_def Let_def lz_safe_def)
qed

lemma compress_loop_safe:
  "lz_safe cap dst0 s \<Longrightarrow> cap + 2 < 2 ^ 32 \<Longrightarrow> lz_safe cap dst0 (snd (compress_loop src cap s))"
proof (induction src cap s rule: compress_loop.induct)
  case (1 src cap s)
  show ?case
  proof (cases "lz_si s < length src")
    case True
    have "lz_safe cap dst0 (snd (and_then (compress_step src cap s) (\<lambda>s'. compress_loop src cap s')))"
    proof (rule and_then_inv)
      show e: "lz_safe cap dst0 (snd (compress_step src cap s))"
        by (rule compress_step_safe [OF "1.prems"])
      show "lz_safe cap dst0 (snd (compress_loop src cap t))" if "compress_step src cap s = (OK, t)" for t
        using "1.IH" [OF True that] e that "1.prems"(2) by simp
    qed
    with True show ?thesis by (simp add: compress_loop.simps [of src cap s])
  next
    case False
    then show ?thesis using "1.prems" by (simp add: compress_loop.simps [of src cap s])
  qed
qed

text \<open>Whatever the arguments, non-null buffers give a status, a buffer and a size.\<close>

lemma decompress_data_total:
  "\<exists>e out n st'. decompress_data st (Some src) (Some dst) cap True = (e, Some out, Some n, st')"
  by (simp add: decompress_data_def Let_def case_prod_unfold)

lemma compress_data_total:
  "\<exists>e out n st'. compress_data st (Some src) (Some dst) cap True = (e, Some out, Some n, st')"
  by (simp add: compress_data_def Let_def case_prod_unfold)

section \<open>Claims\<close>

definition compress_static :: compress_state where
  "compress_static = \<lparr>comp_stats = zero_compress_stats, comp_enabled = 0,
     compress_ring = replicate 4096 0, decompress_ring = replicate 4096 0\<rparr>"

text \<open>
  C1. Decompression undoes compression: when \<^verbatim>\<open>compress_data\<close> accepts a non-empty buffer,
  \<^verbatim>\<open>decompress_data\<close> on the bytes it reported returns \<open>OK\<close> with exactly the original
  bytes and size, for every destination large enough. The capacity bound excludes only
  destinations whose size makes \<^verbatim>\<open>di + 2\<close> wrap around in 32 bits.
\<close>

theorem compress_decompress_roundtrip:
  assumes "compress_data st (Some src) (Some dst) cap True = (OK, Some out, Some n, st')"
    and "src \<noteq> []" and "cap \<le> length dst" and "cap + 2 < 2 ^ 32"
    and "length (decompress_ring st2) = 4096" and "length src \<le> cap2" and "cap2 \<le> length dst2"
  shows "\<exists>out2 st3. decompress_data st2 (Some (take n out)) (Some dst2) cap2 True
    = (OK, Some out2, Some (length src), st3) \<and> take (length src) out2 = src"
  using compress_writes_groups(1) [OF assms(1-4)] decompress_groups [OF assms(5-7)] by simp

theorem compress_decompress_roundtrip_witness:
  "\<exists>out n st' out2 st3.
     compress_data compress_static (Some [7, 7, 7]) (Some (replicate 100 0)) 100 True
       = (OK, Some out, Some n, st')
     \<and> decompress_data compress_static (Some (take n out)) (Some (replicate 8 0)) 8 True
       = (OK, Some out2, Some 3, st3) \<and> take 3 out2 = [7, 7, 7]"
proof -
  obtain out n st' where c:
    "compress_data compress_static (Some [7, 7, 7]) (Some (replicate 100 0)) 100 True
       = (OK, Some out, Some n, st')"
    using compress_fits [of "[7, 7, 7]" 100 "replicate 100 0" compress_static]
    by (auto simp: compress_get_max_size_def)
  from compress_decompress_roundtrip [OF c, of compress_static 8 "replicate 8 0"] c
  show ?thesis by (auto simp: compress_static_def numeral_3_eq_3)
qed

text \<open>
  C14. The advertised worst case is enough: with a destination of at least
  \<^verbatim>\<open>compress_get_max_size(src_size)\<close> bytes, compression never fails.
\<close>

theorem compress_max_size_suffices:
  assumes "length src < 2 ^ 32" and "unat (compress_get_max_size (word_of_nat (length src))) \<le> cap"
    and "cap + 2 < 2 ^ 32" and "cap \<le> length dst"
  shows "\<exists>out n st'. compress_data st (Some src) (Some dst) cap True = (OK, Some out, Some n, st')
    \<and> n \<le> cap"
  by (rule compress_fits [OF assms])

theorem compress_max_size_suffices_witness:
  "\<exists>out n st'. compress_data compress_static (Some [1, 2]) (Some (replicate 80 0)) 80 True
     = (OK, Some out, Some n, st') \<and> n \<le> 80"
  using compress_max_size_suffices [of "[1, 2]" 80 "replicate 80 0" compress_static]
  by (simp add: compress_get_max_size_def)

text \<open>
  C15. Decompression is memory safe on arbitrary input: whatever bytes it is given, it
  writes nothing at or beyond \<^verbatim>\<open>dst_capacity\<close>, keeps the destination's size, and reports
  a size within the capacity (zero on every error).
\<close>

theorem decompress_respects_capacity:
  assumes "length (decompress_ring st) = 4096"
    and "decompress_data st (Some src) (Some dst) cap True = (e, Some out, Some n, st')"
  shows "within cap dst out \<and> n \<le> cap \<and> (e \<noteq> OK \<longrightarrow> n = 0)"
proof -
  let ?s = "\<lparr>ul_si = 0, ul_di = 0, ul_r = COMPRESS_LZSS_N - COMPRESS_LZSS_F,
    ul_ring = kmemset (decompress_ring st) 0x20 COMPRESS_LZSS_N, ul_dst = dst\<rparr>"
  have "ul_safe cap dst ?s"
    using assms(1) by (simp add: ul_safe_def lzss_consts kmemset_eq)
  then have "ul_safe cap dst (snd (decompress_loop src cap ?s))" by (rule decompress_loop_safe)
  then show ?thesis
    using assms(2) by (auto simp: decompress_data_def Let_def ul_safe_def split: prod.splits)
qed

theorem decompress_respects_capacity_witness:
  "\<exists>e out n st'. decompress_data compress_static (Some [1, 2, 240]) (Some (replicate 5 0)) 3 True
     = (e, Some out, Some n, st') \<and> within 3 (replicate 5 0) out \<and> n \<le> 3"
proof -
  obtain e out n st' where d:
    "decompress_data compress_static (Some [1, 2, 240]) (Some (replicate 5 0)) 3 True
       = (e, Some out, Some n, st')"
    using decompress_data_total by blast
  from decompress_respects_capacity [OF _ d] d show ?thesis by (auto simp: compress_static_def)
qed

text \<open>
  C16. Compression stays inside its destination too, on success and on
  \<^verbatim>\<open>ERR_OVERFLOW\<close>: no byte at or beyond \<^verbatim>\<open>dst_capacity\<close> changes.
\<close>

theorem compress_respects_capacity:
  assumes "cap + 2 < 2 ^ 32"
    and "compress_data st (Some src) (Some dst) cap True = (e, Some out, Some n, st')"
  shows "within cap dst out \<and> n \<le> cap \<and> (e \<noteq> OK \<longrightarrow> n = 0)"
proof (cases "cap = 0")
  case True
  then show ?thesis using assms(2) by (auto simp: compress_data_def)
next
  case False
  have "lz_safe cap dst (lz_init st dst)" using False by (simp add: lz_safe_def lz_init_def)
  then have "lz_safe cap dst (snd (compress_loop src cap (lz_init st dst)))"
    using assms(1) by (rule compress_loop_safe)
  then show ?thesis
    using assms(2) False
    by (auto simp: compress_data_def Let_def lz_safe_def lz_init_def split: prod.splits if_splits)
qed

theorem compress_respects_capacity_witness:
  "\<exists>e out n st'. compress_data compress_static (Some [1, 2, 3]) (Some (replicate 5 0)) 2 True
     = (e, Some out, Some n, st') \<and> within 2 (replicate 5 0) out \<and> n \<le> 2"
proof -
  obtain e out n st' where d:
    "compress_data compress_static (Some [1, 2, 3]) (Some (replicate 5 0)) 2 True
       = (e, Some out, Some n, st')"
    using compress_data_total by blast
  from compress_respects_capacity [OF _ d] d show ?thesis by auto
qed

text \<open>
  C17. An empty buffer does not round-trip: \<^verbatim>\<open>compress_data\<close> reports one byte but never
  writes the flag byte it reserved, so the byte is whatever the destination held, and
  unless that is zero \<^verbatim>\<open>decompress_data\<close> rejects the stream with \<^verbatim>\<open>ERR_INVALID\<close>.
\<close>

theorem compress_empty_leaves_flag_byte:
  assumes "dst \<noteq> []" and "dst ! 0 \<noteq> 0"
  shows "\<exists>st1. compress_data st (Some []) (Some dst) (length dst) True = (OK, Some dst, Some 1, st1)
    \<and> fst (decompress_data st2 (Some (take 1 dst)) (Some dst2) cap2 True) = ERR_INVALID"
proof -
  have "compress_loop [] (length dst) (lz_init st dst) = (OK, lz_init st dst)"
    by (simp add: compress_loop.simps lz_init_def)
  then have c: "\<exists>st1. compress_data st (Some []) (Some dst) (length dst) True = (OK, Some dst, Some 1, st1)"
    using compress_data_OK_iff [of "length dst" st "[]" dst dst 1] assms(1)
    by (simp add: flush_def lz_init_def)
  have "take 1 dst = [dst ! 0]" using assms(1) by (cases dst) auto
  then have "fst (decompress_data st2 (Some (take 1 dst)) (Some dst2) cap2 True) = ERR_INVALID"
    using assms(2) by (simp add: decompress_data_def Let_def decompress_loop.simps)
  with c show ?thesis by blast
qed

theorem compress_empty_leaves_flag_byte_witness:
  "\<exists>st1. compress_data compress_static (Some []) (Some [255]) 1 True = (OK, Some [255], Some 1, st1)
    \<and> fst (decompress_data compress_static (Some [255]) (Some [0]) 1 True) = ERR_INVALID"
  using compress_empty_leaves_flag_byte [of "[255]" compress_static compress_static "[0]" 1] by simp

end
