(* ===== verification/Slots.thy ===== *)
theory Slots
  imports Prelude
begin

text \<open>
  The kernel keeps most of its tables as fixed arrays of slots, each slot carrying a
  flag that says whether it is in use: routes, resource entries, page directories,
  processes, notifiers. The two locales state the laws of such a table once: what
  claiming the first free slot and blanking a slot do to the number of used slots and,
  where slots carry keys, to the map from keys to entries that the table represents.
\<close>

section \<open>Tables of slots\<close>

locale slot_table =
  fixes used :: "'e \<Rightarrow> bool" and blank :: 'e
  assumes blank_unused: "\<not> used blank"
begin

lemma claim_count:
  "first_index (\<lambda>e. \<not> used e) xs = Some i \<Longrightarrow> used e \<Longrightarrow>
   length (filter used (xs[i := e])) = Suc (length (filter used xs))"
  by (auto dest!: first_index_SomeD simp: length_filter_update_add)

lemma release_count:
  "i < length xs \<Longrightarrow> used (xs ! i) \<Longrightarrow>
   Suc (length (filter used (xs[i := blank]))) = length (filter used xs)"
  by (simp add: length_filter_update_del blank_unused)

lemma clear_count: "filter used (replicate n blank) = []"
  by (simp add: blank_unused)

lemma full_iff:
  "first_index (\<lambda>e. \<not> used e) xs = None \<longleftrightarrow> length (filter used xs) = length xs"
  by (auto simp: first_index_None_iff dest: length_filter_less [where P = used])

lemma claim_members:
  assumes "first_index (\<lambda>e. \<not> used e) xs = Some i" and "used e"
  shows "x \<in> set (xs[i := e]) \<and> used x \<longleftrightarrow> x = e \<or> x \<in> set xs \<and> used x"
proof -
  have i: "i < length xs" "\<not> used (xs ! i)" using first_index_SomeD [OF assms(1)] by auto
  have "x \<in> set (xs[i := e])" if x: "x \<in> set xs" "used x"
  proof -
    obtain j where "j < length xs" "xs ! j = x" using x by (auto simp: in_set_conv_nth)
    moreover from this have "j \<noteq> i" using i x by auto
    ultimately show ?thesis by (metis length_list_update nth_list_update_neq nth_mem)
  qed
  moreover have "e \<in> set (xs[i := e])" using i by (simp add: set_update_memI)
  moreover have "set (xs[i := e]) \<subseteq> insert e (set xs)" by (rule set_update_subset_insert)
  ultimately show ?thesis using assms(2) by blast
qed

lemma release_members: "x \<in> set (xs[i := blank]) \<Longrightarrow> used x \<Longrightarrow> x \<in> set xs"
  using subsetD [OF set_update_subset_insert, of x xs i blank] blank_unused by auto

end

section \<open>Tables of slots with keys\<close>

definition keys_unique :: "('e \<Rightarrow> bool) \<Rightarrow> ('e \<Rightarrow> 'k) \<Rightarrow> 'e list \<Rightarrow> bool" where
  "keys_unique used key xs \<longleftrightarrow>
     (\<forall>i < length xs. \<forall>j < length xs. used (xs ! i) \<and> used (xs ! j) \<and> key (xs ! i) = key (xs ! j)
        \<longrightarrow> i = j)"

definition slot_map :: "('e \<Rightarrow> bool) \<Rightarrow> ('e \<Rightarrow> 'k) \<Rightarrow> 'e list \<Rightarrow> 'k \<Rightarrow> 'e option" where
  "slot_map used key xs k = map_option (nth xs) (first_index (\<lambda>e. used e \<and> key e = k) xs)"

lemma all_less_Suc_iff: "(\<forall>i < Suc n. P i) \<longleftrightarrow> P 0 \<and> (\<forall>i < n. P (Suc i))"
  using less_Suc_eq_0_disj by auto

lemma keys_unique_Nil [simp]: "keys_unique used key []"
  by (simp add: keys_unique_def)

lemma keys_unique_Cons:
  "keys_unique used key (x # xs) \<longleftrightarrow>
     (used x \<longrightarrow> (\<forall>y \<in> set xs. used y \<longrightarrow> key y \<noteq> key x)) \<and> keys_unique used key xs"
  unfolding keys_unique_def list.size add_Suc_right add_0_right all_less_Suc_iff all_set_conv_all_nth
  by (simp add: eq_commute [of "key x"]) blast

lemma slot_map_SomeD:
  "slot_map used key xs k = Some e \<Longrightarrow> e \<in> set xs \<and> used e \<and> key e = k"
  by (auto simp: slot_map_def dest: first_index_SomeD)

lemma slot_map_None_iff:
  "slot_map used key xs k = None \<longleftrightarrow> (\<forall>e \<in> set xs. used e \<longrightarrow> key e \<noteq> k)"
  by (auto simp: slot_map_def first_index_None_iff)

lemma slot_map_unique:
  assumes "keys_unique used key xs" and "i < length xs" and "used (xs ! i)"
  shows "slot_map used key xs (key (xs ! i)) = Some (xs ! i)"
proof -
  obtain j where j: "first_index (\<lambda>e. used e \<and> key e = key (xs ! i)) xs = Some j"
    using first_index_Some_ex [of "xs ! i" xs "\<lambda>e. used e \<and> key e = key (xs ! i)"] assms(2,3) by auto
  then have "j = i" using first_index_SomeD [OF j] assms by (auto simp: keys_unique_def)
  with j show ?thesis by (simp add: slot_map_def)
qed

lemma slot_map_Some_iff:
  "keys_unique used key xs \<Longrightarrow>
   slot_map used key xs k = Some e \<longleftrightarrow> e \<in> set xs \<and> used e \<and> key e = k"
  by (auto dest: slot_map_SomeD simp: in_set_conv_nth slot_map_unique)

locale keyed_table = slot_table used blank
  for used :: "'e \<Rightarrow> bool" and blank :: 'e +
  fixes key :: "'e \<Rightarrow> 'k"
begin

lemma keys_unique_clear: "keys_unique used key (replicate n blank)"
  by (simp add: keys_unique_def blank_unused)

lemma keys_unique_claim:
  assumes "keys_unique used key xs" and "slot_map used key xs (key e) = None"
  shows "keys_unique used key (xs[i := e])"
proof -
  have fresh: "k < length xs \<Longrightarrow> used (xs ! k) \<Longrightarrow> key (xs ! k) \<noteq> key e" for k
    using assms(2) by (auto simp: slot_map_None_iff)
  show ?thesis
    unfolding keys_unique_def
  proof (intro allI impI)
    fix m n
    assume l: "m < length (xs[i := e])" "n < length (xs[i := e])"
      and u: "used (xs[i := e] ! m) \<and> used (xs[i := e] ! n) \<and> key (xs[i := e] ! m) = key (xs[i := e] ! n)"
    show "m = n"
    proof (cases "m = i \<or> n = i")
      case True
      then show ?thesis using l u fresh by (metis length_list_update nth_list_update_eq nth_list_update_neq)
    next
      case False
      then show ?thesis using l u assms(1) by (auto simp: keys_unique_def)
    qed
  qed
qed

lemma keys_unique_release:
  "keys_unique used key xs \<Longrightarrow> keys_unique used key (xs[i := blank])"
  unfolding keys_unique_def length_list_update
  by (metis blank_unused nth_list_update_eq nth_list_update_neq)

lemma keys_unique_replace:
  "keys_unique used key xs \<Longrightarrow> i < length xs \<Longrightarrow> used (xs ! i) \<Longrightarrow> key e = key (xs ! i) \<Longrightarrow>
   keys_unique used key (xs[i := e])"
  unfolding keys_unique_def length_list_update
  by (metis nth_list_update_eq nth_list_update_neq)

text \<open>The table as a map: claiming is update, blanking is deletion.\<close>

lemma slot_map_claim:
  assumes "keys_unique used key xs" and "first_index (\<lambda>e. \<not> used e) xs = Some i" and "used e"
    and "slot_map used key xs (key e) = None"
  shows "slot_map used key (xs[i := e]) = (slot_map used key xs)(key e \<mapsto> e)"
proof (rule ext)
  fix k
  have u: "keys_unique used key (xs[i := e])" by (rule keys_unique_claim [OF assms(1,4)])
  have "slot_map used key (xs[i := e]) k = Some x \<longleftrightarrow> ((slot_map used key xs)(key e \<mapsto> e)) k = Some x" for x
  proof -
    have "slot_map used key (xs[i := e]) k = Some x \<longleftrightarrow> (x = e \<or> x \<in> set xs \<and> used x) \<and> key x = k"
      using claim_members [OF assms(2,3), of x] slot_map_Some_iff [OF u] by blast
    also have "\<dots> \<longleftrightarrow> ((slot_map used key xs)(key e \<mapsto> e)) k = Some x"
      using assms(4) by (auto simp: slot_map_Some_iff [OF assms(1)] slot_map_None_iff)
    finally show ?thesis .
  qed
  then show "slot_map used key (xs[i := e]) k = ((slot_map used key xs)(key e \<mapsto> e)) k"
    by (metis not_Some_eq)
qed

lemma release_members_iff:
  assumes "keys_unique used key xs" and "i < length xs" and "used (xs ! i)"
  shows "x \<in> set (xs[i := blank]) \<and> used x \<longleftrightarrow> x \<in> set xs \<and> used x \<and> key x \<noteq> key (xs ! i)"
proof
  assume x: "x \<in> set (xs[i := blank]) \<and> used x"
  then obtain j where j: "j < length xs" "xs[i := blank] ! j = x" by (auto simp: in_set_conv_nth)
  with x have "j \<noteq> i" using blank_unused assms(2) by auto
  with j have xj: "x = xs ! j" by simp
  moreover have "key x \<noteq> key (xs ! i)"
    using assms j(1) x xj \<open>j \<noteq> i\<close> by (auto simp: keys_unique_def)
  ultimately show "x \<in> set xs \<and> used x \<and> key x \<noteq> key (xs ! i)" using x j by auto
next
  assume x: "x \<in> set xs \<and> used x \<and> key x \<noteq> key (xs ! i)"
  then obtain j where j: "j < length xs" "xs ! j = x" by (auto simp: in_set_conv_nth)
  with x have "j \<noteq> i" by auto
  with j have "xs[i := blank] ! j = x" by simp
  then have "x \<in> set (xs[i := blank])" using j(1) by (metis length_list_update nth_mem)
  with x show "x \<in> set (xs[i := blank]) \<and> used x" by simp
qed

lemma slot_map_release:
  assumes "keys_unique used key xs" and "i < length xs" and "used (xs ! i)"
  shows "slot_map used key (xs[i := blank]) = (slot_map used key xs)(key (xs ! i) := None)"
proof (rule ext)
  fix k
  have u: "keys_unique used key (xs[i := blank])" by (rule keys_unique_release [OF assms(1)])
  have "slot_map used key (xs[i := blank]) k = Some x
    \<longleftrightarrow> ((slot_map used key xs)(key (xs ! i) := None)) k = Some x" for x
  proof -
    have "slot_map used key (xs[i := blank]) k = Some x
      \<longleftrightarrow> (x \<in> set xs \<and> used x \<and> key x \<noteq> key (xs ! i)) \<and> key x = k"
      using release_members_iff [OF assms, of x] slot_map_Some_iff [OF u, of k x] by auto
    also have "\<dots> \<longleftrightarrow> ((slot_map used key xs)(key (xs ! i) := None)) k = Some x"
      by (auto simp: slot_map_Some_iff [OF assms(1)])
    finally show ?thesis .
  qed
  then show "slot_map used key (xs[i := blank]) k = ((slot_map used key xs)(key (xs ! i) := None)) k"
    by (metis not_Some_eq)
qed

end

end
