(* ===== verification/Route.thy ===== *)
theory Route
  imports Slots
begin

text \<open>
  The IPv4 routing table (\<^verbatim>\<open>src/src/core/route.c\<close>) with the two address predicates it
  takes from \<^verbatim>\<open>src/src/core/ipv4.c\<close>. The file's static variables are the fields of
  \<open>route_state\<close>; a routine returns its status and the new state. A prefix length is at
  most 32 and is a \<open>nat\<close>; an interface name is the text before its terminator.
\<close>

section \<open>Addresses and masks\<close>

definition IPV4_LOOPBACK_PREFIX :: u8 where "IPV4_LOOPBACK_PREFIX = 127"
definition IPV4_MULTICAST_MIN :: u8 where "IPV4_MULTICAST_MIN = 224"
definition IPV4_MULTICAST_MAX :: u8 where "IPV4_MULTICAST_MAX = 239"
definition IPV4_BROADCAST :: u32 where "IPV4_BROADCAST = 0xFFFFFFFF"
definition IPV4_INTERFACE_ID_SIZE :: nat where "IPV4_INTERFACE_ID_SIZE = 20"
definition ROUTE_TABLE_CAPACITY :: nat where "ROUTE_TABLE_CAPACITY = 16"

lemmas route_consts = IPV4_LOOPBACK_PREFIX_def IPV4_MULTICAST_MIN_def IPV4_MULTICAST_MAX_def
  IPV4_BROADCAST_def IPV4_INTERFACE_ID_SIZE_def ROUTE_TABLE_CAPACITY_def

definition ipv4_address_is_unicast :: "u32 \<Rightarrow> bool" where
  "ipv4_address_is_unicast ip_address =
     (let first_octet = (ucast (drop_bit 24 ip_address) :: u8) in
      if ip_address = 0 \<or> ip_address = IPV4_BROADCAST then False
      else if first_octet = IPV4_LOOPBACK_PREFIX then False
      else first_octet < IPV4_MULTICAST_MIN \<or> first_octet > IPV4_MULTICAST_MAX)"

text \<open>
  The loop over the 32 bits, from the top one down, that both mask tests run: \<open>None\<close> is
  the early exit at a one below a zero, \<open>Some\<close> the number of leading ones.
\<close>

function mask_loop :: "u32 \<Rightarrow> nat \<Rightarrow> bool \<Rightarrow> nat \<Rightarrow> nat option" where
  "mask_loop subnet_mask i saw_zero prefix =
     (if i < 32 then
        if subnet_mask AND drop_bit i 0x80000000 \<noteq> 0 then
          if saw_zero then None else mask_loop subnet_mask (Suc i) saw_zero (Suc prefix)
        else mask_loop subnet_mask (Suc i) True prefix
      else Some prefix)"
  by pat_completeness auto
termination
  by (relation "measure (\<lambda>(m, i, z, p). 32 - i)") auto

declare mask_loop.simps [simp del]

definition ipv4_mask_is_valid :: "u32 \<Rightarrow> bool" where
  "ipv4_mask_is_valid subnet_mask =
     (case mask_loop subnet_mask 0 False 0 of
        None \<Rightarrow> False
      | Some prefix \<Rightarrow> prefix \<ge> 1 \<and> prefix \<le> 30)"

definition route_mask_prefix :: "u32 \<Rightarrow> bool \<Rightarrow> status \<times> nat option" where
  "route_mask_prefix subnet_mask has_out =
     (if \<not> has_out then (ERR_NULL, None)
      else case mask_loop subnet_mask 0 False 0 of
             None \<Rightarrow> (ERR_INVALID, None)
           | Some prefix_length \<Rightarrow> (OK, Some prefix_length))"

section \<open>Entries, status and table\<close>

record route_entry =
  re_used :: bool
  re_prefix_length :: nat
  re_network :: u32
  re_subnet_mask :: u32
  re_gateway :: u32
  re_interface_id :: string

definition route_entry_zero :: route_entry where
  "route_entry_zero = \<lparr>re_used = False, re_prefix_length = 0, re_network = 0, re_subnet_mask = 0,
     re_gateway = 0, re_interface_id = ''''\<rparr>"

record route_status =
  rs_initialized :: bool
  rs_entry_count :: u8
  rs_lookups :: u32
  rs_matches :: u32
  rs_misses :: u32
  rs_adds :: u32
  rs_deletes :: u32
  rs_replacements :: u32
  rs_last_error :: status

definition route_status_zero :: route_status where
  "route_status_zero = \<lparr>rs_initialized = False, rs_entry_count = 0, rs_lookups = 0, rs_matches = 0,
     rs_misses = 0, rs_adds = 0, rs_deletes = 0, rs_replacements = 0, rs_last_error = OK\<rparr>"

record route_match =
  rm_matched :: bool
  rm_via_gateway :: bool
  rm_entry :: route_entry
  rm_next_hop :: u32

definition route_match_zero :: route_match where
  "route_match_zero = \<lparr>rm_matched = False, rm_via_gateway = False, rm_entry = route_entry_zero,
     rm_next_hop = 0\<rparr>"

record route_state =
  rt_entries :: "route_entry list"
  rt_base_direct :: route_entry
  rt_base_default :: route_entry
  rt_status :: route_status
  rt_base_valid :: bool

definition route_static :: route_state where
  "route_static = \<lparr>rt_entries = replicate ROUTE_TABLE_CAPACITY route_entry_zero,
     rt_base_direct = route_entry_zero, rt_base_default = route_entry_zero,
     rt_status = route_status_zero, rt_base_valid = False\<rparr>"

abbreviation set_route_error :: "status \<Rightarrow> route_state \<Rightarrow> route_state" where
  "set_route_error e \<equiv> rt_status_update (rs_last_error_update (\<lambda>_. e))"

section \<open>Building an entry\<close>

text \<open>
  The character loop of \<^verbatim>\<open>route_copy_text\<close>: \<open>destination\<close> is what has been copied, so its
  length is the loop counter.
\<close>

fun route_copy_loop :: "string \<Rightarrow> nat \<Rightarrow> string \<Rightarrow> status \<times> string" where
  "route_copy_loop destination capacity [] =
     ((if length destination = 0 then ERR_INVALID else OK), destination)"
| "route_copy_loop destination capacity (c # source) =
     (if length destination + 1 \<ge> capacity then (ERR_OVERFLOW, destination)
      else route_copy_loop (destination @ [c]) capacity source)"

definition route_copy_text :: "nat \<Rightarrow> string option \<Rightarrow> status \<times> string" where
  "route_copy_text capacity source =
     (case source of
        None \<Rightarrow> (ERR_NULL, '''')
      | Some text \<Rightarrow> if capacity = 0 then (ERR_NULL, '''') else route_copy_loop '''' capacity text)"

text \<open>
  \<^verbatim>\<open>route_prepare_entry\<close> builds into the caller's object \<open>entry\<close>; what it leaves there on
  each failing path is part of the result.
\<close>

definition route_prepare_entry ::
  "route_entry \<Rightarrow> u32 \<Rightarrow> u32 \<Rightarrow> u32 \<Rightarrow> string option \<Rightarrow> status \<times> route_entry" where
  "route_prepare_entry entry network subnet_mask gateway interface_id =
     (if interface_id = None then (ERR_NULL, entry)
      else
        let entry = route_entry_zero;
            (result, prefix) = route_mask_prefix subnet_mask True
        in if result \<noteq> OK then (result, entry)
        else
          let entry = entry\<lparr>re_prefix_length := the prefix\<rparr> in
          if network \<noteq> network AND subnet_mask then (ERR_INVALID, entry)
          else if gateway \<noteq> 0 \<and> \<not> ipv4_address_is_unicast gateway then (ERR_INVALID, entry)
          else
            let (result, text) = route_copy_text IPV4_INTERFACE_ID_SIZE interface_id;
                entry = entry\<lparr>re_interface_id := text\<rparr>
            in if result \<noteq> OK then (result, entry)
            else (OK, entry\<lparr>re_network := network, re_subnet_mask := subnet_mask,
                        re_gateway := gateway, re_used := True\<rparr>))"

section \<open>Table operations\<close>

abbreviation route_key :: "route_entry \<Rightarrow> u32 \<times> u32" where
  "route_key e \<equiv> (re_network e, re_subnet_mask e)"

definition route_find :: "route_state \<Rightarrow> u32 \<Rightarrow> u32 \<Rightarrow> nat option" where
  "route_find st network subnet_mask =
     first_index (\<lambda>e. re_used e \<and> re_network e = network \<and> re_subnet_mask e = subnet_mask)
       (rt_entries st)"

definition route_find_free :: "route_state \<Rightarrow> nat option" where
  "route_find_free st = first_index (\<lambda>e. \<not> re_used e) (rt_entries st)"

definition route_insert :: "route_state \<Rightarrow> route_entry \<Rightarrow> status \<times> route_state" where
  "route_insert st entry =
     (case route_find_free st of
        None \<Rightarrow> (ERR_OVERFLOW, st)
      | Some index \<Rightarrow>
          (OK, st\<lparr>rt_entries := (rt_entries st)[index := entry],
                  rt_status := rs_entry_count_update (\<lambda>n. n + 1) (rt_status st)\<rparr>))"

definition route_clear_entries :: "route_state \<Rightarrow> route_state" where
  "route_clear_entries st =
     st\<lparr>rt_entries := replicate ROUTE_TABLE_CAPACITY route_entry_zero,
        rt_status := rs_entry_count_update (\<lambda>_. 0) (rt_status st)\<rparr>"

definition route_init :: "route_state \<Rightarrow> status \<times> route_state" where
  "route_init st =
     (if rs_initialized (rt_status st) then (OK, st)
      else (OK, st\<lparr>rt_status := route_status_zero\<lparr>rs_initialized := True, rs_last_error := OK\<rparr>,
                   rt_entries := replicate ROUTE_TABLE_CAPACITY route_entry_zero,
                   rt_base_direct := route_entry_zero,
                   rt_base_default := route_entry_zero\<rparr>))"

definition route_reset :: "route_state \<Rightarrow> status \<times> route_state" where
  "route_reset st =
     (if \<not> rs_initialized (rt_status st) then (ERR_STATE, st)
      else
        let st = route_clear_entries st in
        if \<not> rt_base_valid st then (ERR_STATE, set_route_error ERR_STATE st)
        else
          let (result, st) = route_insert st (rt_base_direct st);
              (result, st) = (if result = OK \<and> re_used (rt_base_default st)
                              then route_insert st (rt_base_default st) else (result, st))
          in (result, set_route_error result st))"

definition route_clear :: "route_state \<Rightarrow> status \<times> route_state" where
  "route_clear st =
     (if \<not> rs_initialized (rt_status st) then (ERR_STATE, st)
      else
        let st = route_clear_entries st
        in (OK, set_route_error OK (st\<lparr>rt_base_direct := route_entry_zero,
                  rt_base_default := route_entry_zero, rt_base_valid := False\<rparr>)))"

definition route_set_base ::
  "route_state \<Rightarrow> u32 \<Rightarrow> u32 \<Rightarrow> u32 \<Rightarrow> string option \<Rightarrow> status \<times> route_state" where
  "route_set_base st local_ip subnet_mask gateway interface_id =
     (if \<not> rs_initialized (rt_status st) then (ERR_STATE, st)
      else if interface_id = None then (ERR_NULL, st)
      else if \<not> ipv4_address_is_unicast local_ip \<or> \<not> ipv4_mask_is_valid subnet_mask
      then (ERR_INVALID, st)
      else
        let network = local_ip AND subnet_mask;
            broadcast = network OR NOT subnet_mask
        in if local_ip = network \<or> local_ip = broadcast \<or>
              (gateway \<noteq> 0 \<and> (\<not> ipv4_address_is_unicast gateway \<or> gateway AND subnet_mask \<noteq> network \<or>
                              gateway = local_ip \<or> gateway = network \<or> gateway = broadcast))
        then (ERR_INVALID, st)
        else
          let (result, direct) =
                route_prepare_entry route_entry_zero network subnet_mask 0 interface_id;
              st = st\<lparr>rt_base_direct := direct\<rparr>
          in if result \<noteq> OK then (result, st)
          else
            let st = st\<lparr>rt_base_default := route_entry_zero\<rparr>;
                (result, default) =
                  (if gateway \<noteq> 0
                   then route_prepare_entry (rt_base_default st) 0 0 gateway interface_id
                   else (OK, rt_base_default st));
                st = st\<lparr>rt_base_default := default\<rparr>
            in if result \<noteq> OK then (result, st)
            else route_reset (st\<lparr>rt_base_valid := True\<rparr>))"

definition route_add ::
  "route_state \<Rightarrow> u32 \<Rightarrow> u32 \<Rightarrow> u32 \<Rightarrow> string option \<Rightarrow> status \<times> route_state" where
  "route_add st network subnet_mask gateway interface_id =
     (if \<not> rs_initialized (rt_status st) then (ERR_STATE, st)
      else
        let (result, entry) =
              route_prepare_entry route_entry_zero network subnet_mask gateway interface_id
        in if result \<noteq> OK then (result, set_route_error result st)
        else if route_find st network subnet_mask \<noteq> None
        then (ERR_STATE, set_route_error ERR_STATE st)
        else
          let (result, st) = route_insert st entry
          in if result \<noteq> OK then (result, set_route_error result st)
          else (OK, set_route_error OK
                      (rt_status_update (rs_adds_update (\<lambda>n. n + 1)) st)))"

definition route_delete :: "route_state \<Rightarrow> u32 \<Rightarrow> u32 \<Rightarrow> status \<times> route_state" where
  "route_delete st network subnet_mask =
     (if \<not> rs_initialized (rt_status st) then (ERR_STATE, st)
      else if fst (route_mask_prefix subnet_mask True) \<noteq> OK \<or> network \<noteq> network AND subnet_mask
      then (ERR_INVALID, st)
      else
        case route_find st network subnet_mask of
          None \<Rightarrow> (ERR_NOT_FOUND, set_route_error ERR_NOT_FOUND st)
        | Some index \<Rightarrow>
            let st = st\<lparr>rt_entries := (rt_entries st)[index := route_entry_zero]\<rparr>;
                st = rt_status_update
                       (rs_entry_count_update (\<lambda>n. if n \<noteq> 0 then n - 1 else n)) st;
                st = rt_status_update (rs_deletes_update (\<lambda>n. n + 1)) st
            in (OK, set_route_error OK st))"

definition route_set_default :: "route_state \<Rightarrow> u32 \<Rightarrow> string option \<Rightarrow> status \<times> route_state" where
  "route_set_default st gateway interface_id =
     (if gateway = 0 then (ERR_INVALID, st)
      else
        let (result, entry) = route_prepare_entry route_entry_zero 0 0 gateway interface_id
        in if result \<noteq> OK then (result, st)
        else if \<not> rs_initialized (rt_status st) then (ERR_STATE, st)
        else
          case route_find st 0 0 of
            Some index \<Rightarrow>
              let st = st\<lparr>rt_entries := (rt_entries st)[index := entry]\<rparr>;
                  st = rt_status_update (rs_replacements_update (\<lambda>n. n + 1)) st
              in (OK, set_route_error OK st)
          | None \<Rightarrow>
              let (result, st) = route_insert st entry
              in if result \<noteq> OK then (result, set_route_error result st)
              else (OK, set_route_error OK
                          (rt_status_update (rs_adds_update (\<lambda>n. n + 1)) st)))"

section \<open>Lookup and queries\<close>

definition route_entry_matches :: "u32 \<Rightarrow> route_entry \<Rightarrow> bool" where
  "route_entry_matches destination_ip entry \<longleftrightarrow>
     \<not> (\<not> re_used entry \<or> destination_ip AND re_subnet_mask entry \<noteq> re_network entry)"

text \<open>The scan keeps the first entry among those with the longest prefix seen so far.\<close>

fun route_lookup_loop :: "u32 \<Rightarrow> nat \<Rightarrow> nat option \<Rightarrow> nat \<Rightarrow> route_entry list \<Rightarrow> nat option" where
  "route_lookup_loop destination_ip index best_index best_prefix [] = best_index"
| "route_lookup_loop destination_ip index best_index best_prefix (entry # rest) =
     (if \<not> route_entry_matches destination_ip entry
      then route_lookup_loop destination_ip (Suc index) best_index best_prefix rest
      else if best_index = None \<or> re_prefix_length entry > best_prefix
      then route_lookup_loop destination_ip (Suc index) (Some index) (re_prefix_length entry) rest
      else route_lookup_loop destination_ip (Suc index) best_index best_prefix rest)"

definition route_lookup ::
  "route_state \<Rightarrow> u32 \<Rightarrow> bool \<Rightarrow> status \<times> route_match option \<times> route_state" where
  "route_lookup st destination_ip has_out =
     (if \<not> has_out then (ERR_NULL, None, st)
      else if \<not> rs_initialized (rt_status st) then (ERR_STATE, Some route_match_zero, st)
      else
        let st = rt_status_update (rs_lookups_update (\<lambda>n. n + 1)) st in
        case route_lookup_loop destination_ip 0 None 0 (rt_entries st) of
          None \<Rightarrow>
            (ERR_NOT_FOUND, Some route_match_zero,
             set_route_error ERR_NOT_FOUND (rt_status_update (rs_misses_update (\<lambda>n. n + 1)) st))
        | Some best_index \<Rightarrow>
            let entry = rt_entries st ! best_index;
                via_gateway = (re_gateway entry \<noteq> 0);
                match = \<lparr>rm_matched = True, rm_via_gateway = via_gateway, rm_entry = entry,
                  rm_next_hop = (if via_gateway then re_gateway entry else destination_ip)\<rparr>
            in (OK, Some match,
                set_route_error OK (rt_status_update (rs_matches_update (\<lambda>n. n + 1)) st)))"

definition route_get_status :: "route_state \<Rightarrow> bool \<Rightarrow> status \<times> route_status option" where
  "route_get_status st has_out =
     (if \<not> has_out then (ERR_NULL, None)
      else if \<not> rs_initialized (rt_status st) then (ERR_STATE, None)
      else (OK, Some (rt_status st)))"

definition route_get_entry :: "route_state \<Rightarrow> u32 \<Rightarrow> bool \<Rightarrow> status \<times> route_entry option" where
  "route_get_entry st index has_out =
     (if \<not> has_out then (ERR_NULL, None)
      else if unat index \<ge> ROUTE_TABLE_CAPACITY then (ERR_INVALID, None)
      else if \<not> rs_initialized (rt_status st) then (ERR_STATE, None)
      else (OK, Some (rt_entries st ! unat index)))"

section \<open>The run-time consistency check\<close>

definition route_entry_consistent :: "route_entry \<Rightarrow> bool" where
  "route_entry_consistent entry \<longleftrightarrow>
     (let (result, prefix_length) = route_mask_prefix (re_subnet_mask entry) True in
      \<not> (result \<noteq> OK \<or> prefix_length \<noteq> Some (re_prefix_length entry) \<or>
         re_network entry \<noteq> re_network entry AND re_subnet_mask entry \<or>
         re_interface_id entry = '''' \<or>
         (re_gateway entry \<noteq> 0 \<and> \<not> ipv4_address_is_unicast (re_gateway entry))))"

definition route_duplicates :: "route_entry \<Rightarrow> route_entry \<Rightarrow> bool" where
  "route_duplicates entry other \<longleftrightarrow>
     re_used other \<and> re_network other = re_network entry \<and>
     re_subnet_mask other = re_subnet_mask entry"

text \<open>The outer loop from one index on: \<open>None\<close> is an early error exit.\<close>

fun route_validate_loop :: "u32 \<Rightarrow> route_entry list \<Rightarrow> u32 option" where
  "route_validate_loop count [] = Some count"
| "route_validate_loop count (entry # rest) =
     (if \<not> re_used entry then route_validate_loop count rest
      else if \<not> route_entry_consistent entry then None
      else if list_ex (route_duplicates entry) rest then None
      else route_validate_loop (count + 1) rest)"

definition route_validate_state :: "route_state \<Rightarrow> status" where
  "route_validate_state st =
     (if \<not> rs_initialized (rt_status st) then ERR_STATE
      else case route_validate_loop 0 (rt_entries st) of
             None \<Rightarrow> ERR_STATE
           | Some count \<Rightarrow>
               if count \<noteq> ucast (rs_entry_count (rt_status st)) \<or>
                  count > word_of_nat ROUTE_TABLE_CAPACITY
               then ERR_STATE else OK)"

section \<open>The built-in self test\<close>

record route_self_test_result =
  st_lifecycle :: bool
  st_direct_route :: bool
  st_default_route :: bool
  st_longest_prefix :: bool
  st_delete_route :: bool
  st_duplicate_route :: bool
  st_overflow :: bool
  st_invalid_input :: bool
  st_reset :: bool
  st_invariants :: bool
  st_passed :: u32
  st_failed :: u32

definition route_self_test_zero :: route_self_test_result where
  "route_self_test_zero = \<lparr>st_lifecycle = False, st_direct_route = False, st_default_route = False,
     st_longest_prefix = False, st_delete_route = False, st_duplicate_route = False,
     st_overflow = False, st_invalid_input = False, st_reset = False, st_invariants = False,
     st_passed = 0, st_failed = 0\<rparr>"

definition route_test_count :: "route_self_test_result \<Rightarrow> bool \<Rightarrow> route_self_test_result" where
  "route_test_count result passed =
     (if passed then st_passed_update (\<lambda>n. n + 1) result
      else st_failed_update (\<lambda>n. n + 1) result)"

definition test_interface :: "string option" where
  "test_interface = Some ''net-pci-00:03.0''"

text \<open>The loop that fills the table, one class A network per index, stopping at an error.\<close>

fun route_fill_loop :: "route_state \<Rightarrow> nat list \<Rightarrow> status \<Rightarrow> status \<times> route_state" where
  "route_fill_loop st [] result = (result, st)"
| "route_fill_loop st (index # rest) result =
     (let (result, st) = route_add st (push_bit 24 (word_of_nat index)) 0xFF000000 0 test_interface
      in if result \<noteq> OK then (result, st) else route_fill_loop st rest result)"

text \<open>The probes that share one table: default and direct route, lookups, duplicates.\<close>

definition route_test_lookups ::
  "route_state \<Rightarrow> route_self_test_result \<Rightarrow> route_self_test_result \<times> route_state" where
  "route_test_lookups st out =
     (let (result, st) = route_set_default st 0x0A000001 test_interface;
          out = out\<lparr>st_default_route := result = OK\<rparr>;
          (result, st) = route_add st 0x0A010000 0xFFFF0000 0 test_interface;
          out = out\<lparr>st_direct_route := result = OK\<rparr>;
          out = route_test_count out (st_direct_route out);
          (result, match, st) = route_lookup st 0x0A010203 True;
          out = out\<lparr>st_longest_prefix := result = OK \<and> rm_matched (the match) \<and>
                      \<not> rm_via_gateway (the match) \<and>
                      re_prefix_length (rm_entry (the match)) = 16\<rparr>;
          out = route_test_count out (st_longest_prefix out);
          (result, match, st) = route_lookup st 0xC0000201 True;
          out = out\<lparr>st_default_route := st_default_route out \<and> result = OK \<and>
                      rm_via_gateway (the match) \<and> rm_next_hop (the match) = 0x0A000001\<rparr>;
          out = route_test_count out (st_default_route out);
          (result, st) = route_add st 0 0 0x0A000001 test_interface;
          out = out\<lparr>st_duplicate_route := result = ERR_STATE\<rparr>
      in (route_test_count out (st_duplicate_route out), st))"

text \<open>The rejected inputs and the deletion; the second operand of \<^verbatim>\<open>&&\<close> runs on success.\<close>

definition route_test_rejects ::
  "route_state \<Rightarrow> route_self_test_result \<Rightarrow> route_self_test_result \<times> route_state" where
  "route_test_rejects st out =
     (let (result, st) = route_add st 0x0A000000 0xFF00FF00 0 test_interface;
          invalid_mask = (result = ERR_INVALID);
          (result, st) = route_add st 0x0A020000 0xFFFF0000 0xE0000001 test_interface;
          invalid_gateway = (result = ERR_INVALID);
          (result, st) = route_add st 0x0A030000 0xFFFF0000 0 (Some '''');
          invalid_interface = (result = ERR_INVALID);
          out = out\<lparr>st_invalid_input := invalid_mask \<and> invalid_gateway \<and> invalid_interface\<rparr>;
          out = route_test_count out (st_invalid_input out);
          (result, st) = route_delete st 0x0A010000 0xFFFF0000;
          (deleted, st) =
            (if result = OK
             then let (result, match, st) = route_lookup st 0x0A010203 True
                  in (result = OK \<and> rm_via_gateway (the match), st)
             else (False, st));
          out = out\<lparr>st_delete_route := deleted\<rparr>
      in (route_test_count out (st_delete_route out), st))"

definition route_test_capacity ::
  "route_state \<Rightarrow> route_self_test_result \<Rightarrow> route_self_test_result \<times> route_state" where
  "route_test_capacity st out =
     (let st = route_clear_entries st;
          (result, st) = route_fill_loop st [0..<ROUTE_TABLE_CAPACITY] OK;
          (overflow, st) =
            (if result = OK
             then let (result, st) = route_add st 0xF0000000 0xFF000000 0 test_interface
                  in (result = ERR_OVERFLOW, st)
             else (False, st));
          out = out\<lparr>st_overflow := overflow\<rparr>
      in (route_test_count out (st_overflow out), st))"

definition route_test_reset ::
  "route_state \<Rightarrow> route_self_test_result \<Rightarrow> route_self_test_result \<times> route_state" where
  "route_test_reset st out =
     (let (result, st) = route_set_base st 0x0A00020F 0xFFFFFF00 0x0A000202 test_interface;
          (reset, st) =
            (if result = OK
             then let (result, st) = route_reset st
                  in (result = OK \<and> rs_entry_count (rt_status st) = 2, st)
             else (False, st));
          out = out\<lparr>st_reset := reset\<rparr>;
          out = route_test_count out (st_reset out);
          out = out\<lparr>st_invariants := route_validate_state st = OK\<rparr>
      in (route_test_count out (st_invariants out), st))"

definition route_self_test ::
  "route_state \<Rightarrow> bool \<Rightarrow> status \<times> route_self_test_result option \<times> route_state" where
  "route_self_test st has_out =
     (if \<not> has_out then (ERR_NULL, None, st)
      else if \<not> rs_initialized (rt_status st) then (ERR_STATE, Some route_self_test_zero, st)
      else
        let saved = st;
            st = (route_clear_entries st)\<lparr>rt_base_valid := False\<rparr>;
            out = route_self_test_zero\<lparr>st_lifecycle := route_validate_state st = OK\<rparr>;
            out = route_test_count out (st_lifecycle out);
            (out, st) = route_test_lookups st out;
            (out, st) = route_test_rejects st out;
            (out, st) = route_test_capacity st out;
            (out, st) = route_test_reset st out;
            st = st\<lparr>rt_entries := rt_entries saved, rt_base_direct := rt_base_direct saved,
                    rt_base_default := rt_base_default saved, rt_status := rt_status saved,
                    rt_base_valid := rt_base_valid saved\<rparr>
        in ((if st_failed out \<noteq> 0 then ERR_STATE else OK), Some out, st))"

end
