(* ===== verification/Route_Correct.thy ===== *)
theory Route_Correct
  imports Route
begin

text \<open>
  Correctness of the routing table: the mask loop recognises exactly the contiguous
  masks, lookup is longest-prefix match, the run-time consistency check accepts every
  state the operations reach, insertion and deletion refine update and deletion of a
  finite map, and the self test passes and restores the table.
\<close>

section \<open>Masks\<close>

definition prefix_mask :: "nat \<Rightarrow> u32" where
  "prefix_mask n = NOT (mask (32 - n))"

lemma bit_prefix_mask: "bit (prefix_mask n) k \<longleftrightarrow> 32 - n \<le> k \<and> k < 32"
  by (auto simp: prefix_mask_def bit_simps)

lemma mask_test_bit:
  assumes "i < 32"
  shows "(m :: u32) AND drop_bit i 0x80000000 \<noteq> 0 \<longleftrightarrow> bit m (31 - i)"
proof -
  have p: "(0x80000000 :: u32) = push_bit 31 1" by simp
  have "drop_bit i (0x80000000 :: u32) = push_bit (31 - i) 1"
    unfolding p by (rule bit_eqI)
      (use assms in \<open>auto simp: bit_drop_bit_eq bit_push_bit_iff bit_1_iff simp del: push_bit_of_1\<close>)
  then show ?thesis by (simp add: bit_iff_and_push_bit_not_eq_0)
qed

lemma mask_loop_zeros:
  "mask_loop m i True p = (if \<forall>j. i \<le> j \<and> j < 32 \<longrightarrow> \<not> bit m (31 - j) then Some p else None)"
proof (induction "32 - i" arbitrary: i)
  case 0
  then show ?case by (simp add: mask_loop.simps [of m i])
next
  case (Suc k)
  then have i: "i < 32" "k = 32 - Suc i" by auto
  show ?case
    unfolding all_range_Suc [OF i(1), of "\<lambda>j. \<not> bit m (31 - j)"]
    using Suc.hyps(1) [OF i(2)] i(1) by (simp add: mask_loop.simps [of m i] mask_test_bit)
qed

lemma mask_loop_ones:
  "i \<le> 32 \<Longrightarrow> mask_loop m i False i = Some n \<longleftrightarrow>
     i \<le> n \<and> n \<le> 32 \<and> (\<forall>j. i \<le> j \<and> j < 32 \<longrightarrow> bit m (31 - j) = (j < n))"
proof (induction "32 - i" arbitrary: i)
  case 0
  then have "i = 32" by simp
  then show ?case by (auto simp: mask_loop.simps [of m 32])
next
  case (Suc k)
  then have i: "i < 32" "k = 32 - Suc i" by auto
  note split = all_range_Suc [OF i(1)]
  show ?case
  proof (cases "bit m (31 - i)")
    case True
    then have "mask_loop m i False i = mask_loop m (Suc i) False (Suc i)"
      using i(1) by (simp add: mask_loop.simps [of m i] mask_test_bit)
    then show ?thesis
      using Suc.hyps(1) [OF i(2)] i(1) True by (auto simp: split [of "\<lambda>j. bit m (31 - j) = (j < n)"])
  next
    case False
    then have "mask_loop m i False i = mask_loop m (Suc i) True i"
      using i(1) by (simp add: mask_loop.simps [of m i] mask_test_bit)
    then show ?thesis
      using i(1) False by (auto simp: mask_loop_zeros split [of "\<lambda>j. bit m (31 - j) = (j < n)"])
  qed
qed

lemma mask_loop_iff: "mask_loop m 0 False 0 = Some n \<longleftrightarrow> n \<le> 32 \<and> m = prefix_mask n"
proof -
  have "(\<forall>j. j < 32 \<longrightarrow> bit m (31 - j) = (j < n)) \<longleftrightarrow> m = prefix_mask n" if n: "n \<le> 32"
  proof
    assume *: "\<forall>j. j < 32 \<longrightarrow> bit m (31 - j) = (j < n)"
    show "m = prefix_mask n"
    proof (rule bit_word_eqI)
      fix k assume "k < LENGTH(32)"
      then show "bit m k = bit (prefix_mask n) k"
        using *[rule_format, of "31 - k"] n by (auto simp: bit_prefix_mask)
    qed
  qed (use n in \<open>auto simp: bit_prefix_mask\<close>)
  then show ?thesis using mask_loop_ones [of 0 m n] by auto
qed

lemma route_mask_prefix_iff:
  "route_mask_prefix m True = (OK, Some n) \<longleftrightarrow> n \<le> 32 \<and> m = prefix_mask n"
  unfolding mask_loop_iff [symmetric] by (auto simp: route_mask_prefix_def split: option.splits)

lemma mask_hit_iff:
  assumes "n \<le> 32" and "net = net AND prefix_mask n"
  shows "ip AND prefix_mask n = net \<longleftrightarrow> drop_bit (32 - n) ip = drop_bit (32 - n) net"
proof -
  have "ip AND prefix_mask n = net \<longleftrightarrow> (\<forall>k. bit (ip AND prefix_mask n) k = bit (net AND prefix_mask n) k)"
    using assms(2) by (metis bit_eqI)
  also have "\<dots> \<longleftrightarrow> (\<forall>k<32. 32 - n \<le> k \<longrightarrow> bit ip k = bit net k)"
    by (auto simp: bit_and_iff bit_prefix_mask)
  also have "\<dots> \<longleftrightarrow> drop_bit (32 - n) ip = drop_bit (32 - n) net"
  proof
    assume *: "drop_bit (32 - n) ip = drop_bit (32 - n) net"
    have "bit ip k = bit net k" if "32 - n \<le> k" for k
      using that arg_cong [OF *, of "\<lambda>w. bit w (k - (32 - n))"] by (simp add: bit_drop_bit_eq)
    then show "\<forall>k<32. 32 - n \<le> k \<longrightarrow> bit ip k = bit net k" by blast
  next
    assume *: "\<forall>k<32. 32 - n \<le> k \<longrightarrow> bit ip k = bit net k"
    show "drop_bit (32 - n) ip = drop_bit (32 - n) net"
    proof (rule bit_eqI)
      fix k show "bit (drop_bit (32 - n) ip) k = bit (drop_bit (32 - n) net) k"
        using * bit_imp_le_length [of ip "32 - n + k"] bit_imp_le_length [of net "32 - n + k"]
        by (auto simp: bit_drop_bit_eq)
    qed
  qed
  finally show ?thesis .
qed
section \<open>The table as a keyed slot table\<close>

interpretation rt: keyed_table re_used route_entry_zero route_key
  by unfold_locales (simp add: route_entry_zero_def)

abbreviation route_map :: "route_state \<Rightarrow> u32 \<times> u32 \<Rightarrow> route_entry option" where
  "route_map st \<equiv> slot_map re_used route_key (rt_entries st)"

definition table_ok :: "route_entry list \<Rightarrow> u8 \<Rightarrow> bool" where
  "table_ok es n \<longleftrightarrow>
     length es = ROUTE_TABLE_CAPACITY \<and> (\<forall>e \<in> set es. re_used e \<longrightarrow> route_entry_consistent e) \<and>
     keys_unique re_used route_key es \<and> unat n = length (filter re_used es)"

lemma route_validate_loop_eq:
  "route_validate_loop c es =
     (if (\<forall>e \<in> set es. re_used e \<longrightarrow> route_entry_consistent e) \<and> keys_unique re_used route_key es
      then Some (c + of_nat (length (filter re_used es))) else None)"
  by (induction es arbitrary: c)
    (auto simp: keys_unique_Cons list_ex_iff route_duplicates_def)

lemma route_validate_iff:
  assumes "length (rt_entries st) = ROUTE_TABLE_CAPACITY"
  shows "route_validate_state st = OK \<longleftrightarrow>
    rs_initialized (rt_status st) \<and> table_ok (rt_entries st) (rs_entry_count (rt_status st))"
proof -
  let ?k = "length (filter re_used (rt_entries st))"
  have k: "?k \<le> 16" using assms by (metis ROUTE_TABLE_CAPACITY_def length_filter_le)
  then have u: "unat (of_nat ?k :: u32) = ?k" by (simp add: unat_of_nat)
  then have le: "(of_nat ?k :: u32) \<le> 16" using k by (simp add: word_le_nat_alt)
  have eq: "(of_nat ?k :: u32) = ucast c \<longleftrightarrow> unat c = ?k" for c :: u8
    using u by (metis unat_ucast_u8 word_unat_eq_iff)
  show ?thesis
    using assms le
    by (auto simp: route_validate_state_def table_ok_def route_validate_loop_eq eq not_less
        ROUTE_TABLE_CAPACITY_def)
qed

section \<open>Prepared entries\<close>

lemma route_copy_loop_OK:
  "route_copy_loop d cap s = (OK, t) \<Longrightarrow> t = d @ s \<and> t \<noteq> ''''"
  by (induction d cap s rule: route_copy_loop.induct) (auto split: if_splits)

lemma route_copy_loop_fits:
  "length d + length s < cap \<Longrightarrow> d @ s \<noteq> '''' \<Longrightarrow> route_copy_loop d cap s = (OK, d @ s)"
  by (induction d cap s rule: route_copy_loop.induct) auto

lemma route_mask_prefix_OK: "route_mask_prefix m True = (OK, x) \<Longrightarrow> x = Some (the x)"
  by (cases "mask_loop m 0 False 0") (auto simp: route_mask_prefix_def)

lemma route_prepare_entry_OK:
  assumes "route_prepare_entry e0 net m gw iface = (OK, e)"
  shows "re_used e \<and> route_entry_consistent e \<and> route_key e = (net, m) \<and> re_gateway e = gw \<and>
    Some (re_interface_id e) = iface"
  using assms
  by (auto simp: route_prepare_entry_def route_entry_consistent_def route_copy_text_def Let_def
      dest: route_copy_loop_OK route_mask_prefix_OK split: if_splits prod.splits option.splits)

section \<open>The invariant\<close>

definition base_ok :: "route_state \<Rightarrow> bool" where
  "base_ok st \<longleftrightarrow>
     re_used (rt_base_direct st) \<and> route_entry_consistent (rt_base_direct st) \<and>
     (re_used (rt_base_default st) \<longrightarrow>
        route_entry_consistent (rt_base_default st) \<and>
        route_key (rt_base_default st) \<noteq> route_key (rt_base_direct st))"

definition route_inv :: "route_state \<Rightarrow> bool" where
  "route_inv st \<longleftrightarrow>
     table_ok (rt_entries st) (rs_entry_count (rt_status st)) \<and> (rt_base_valid st \<longrightarrow> base_ok st)"

lemma table_ok_clear: "table_ok (replicate ROUTE_TABLE_CAPACITY route_entry_zero) 0"
  by (auto simp: table_ok_def rt.keys_unique_clear rt.clear_count rt.blank_unused)

lemma table_ok_room: "table_ok es n \<Longrightarrow> unat n \<le> 16"
  unfolding table_ok_def by (metis ROUTE_TABLE_CAPACITY_def length_filter_le)

lemma table_ok_claim:
  assumes "table_ok es n" and "first_index (\<lambda>e. \<not> re_used e) es = Some i"
    and "re_used e" "route_entry_consistent e" "slot_map re_used route_key es (route_key e) = None"
  shows "table_ok (es[i := e]) (n + 1)"
proof -
  have "unat (n + 1) = Suc (unat n)"
    using table_ok_room [OF assms(1)] by (simp add: unat_word_ariths)
  then show ?thesis
    using assms rt.claim_count [OF assms(2,3)] subsetD [OF set_update_subset_insert, of _ es i e]
    by (auto simp: table_ok_def rt.keys_unique_claim)
qed

lemma table_ok_release:
  assumes "table_ok es n" and "i < length es" and "re_used (es ! i)"
  shows "n \<noteq> 0 \<and> table_ok (es[i := route_entry_zero]) (n - 1)"
proof -
  have c: "Suc (length (filter re_used (es[i := route_entry_zero]))) = unat n"
    using assms rt.release_count [OF assms(2,3)] by (simp add: table_ok_def)
  then have "n \<noteq> 0" by (intro notI) simp
  then have "unat (n - 1) = unat n - 1" by (simp add: unat_minus_one)
  then show ?thesis
    using assms c \<open>n \<noteq> 0\<close> rt.release_members [of _ es i]
    by (auto simp: table_ok_def rt.keys_unique_release)
qed

lemma table_ok_replace:
  assumes "table_ok es n" and "i < length es" and "re_used (es ! i)"
    and "re_used e" "route_entry_consistent e" "route_key e = route_key (es ! i)"
  shows "table_ok (es[i := e]) n"
  using assms subsetD [OF set_update_subset_insert, of _ es i e]
  by (auto simp: table_ok_def rt.keys_unique_replace length_filter_update_same)

lemma route_find_eq:
  "route_find st net m = first_index (\<lambda>e. re_used e \<and> route_key e = (net, m)) (rt_entries st)"
  by (simp add: route_find_def)

lemma route_find_None_iff: "route_find st net m = None \<longleftrightarrow> route_map st (net, m) = None"
  by (simp add: route_find_eq slot_map_def)

lemma route_find_SomeD:
  "route_find st net m = Some i \<Longrightarrow>
     i < length (rt_entries st) \<and> re_used (rt_entries st ! i) \<and> route_key (rt_entries st ! i) = (net, m)"
  by (auto simp: route_find_eq dest: first_index_SomeD)

lemma route_insert_inv:
  assumes "route_inv st" and "re_used e" "route_entry_consistent e" "route_map st (route_key e) = None"
    and "route_insert st e = (r, st')"
  shows "route_inv st'"
  using assms by (auto simp: route_insert_def route_find_free_def route_inv_def base_ok_def
      intro: table_ok_claim split: option.splits)

lemma route_inv_update [inv_intros]:
  "route_inv st \<Longrightarrow> rs_entry_count (f (rt_status st)) = rs_entry_count (rt_status st) \<Longrightarrow>
   route_inv (rt_status_update f st)"
  by (simp add: route_inv_def base_ok_def)

lemma route_clear_entries_inv: "base_ok st \<or> \<not> rt_base_valid st \<Longrightarrow> route_inv (route_clear_entries st)"
  by (auto simp: route_clear_entries_def route_inv_def base_ok_def table_ok_clear)

lemma route_map_cleared: "route_map (route_clear_entries st) k = None"
  by (simp add: route_clear_entries_def slot_map_None_iff rt.blank_unused)

lemma route_init_inv [inv_intros]: "route_inv st \<Longrightarrow> \<not> rt_base_valid st \<or> rs_initialized (rt_status st) \<Longrightarrow>
   route_inv (snd (route_init st))"
  by (auto simp: route_init_def route_inv_def table_ok_clear route_status_zero_def)

lemma route_insert_frame [frame_simps]:
  "rt_base_direct (snd (route_insert st e)) = rt_base_direct st"
  "rt_base_default (snd (route_insert st e)) = rt_base_default st"
  "rt_base_valid (snd (route_insert st e)) = rt_base_valid st"
  "rs_initialized (rt_status (snd (route_insert st e))) = rs_initialized (rt_status st)"
  by (simp_all add: route_insert_def split: option.splits)

lemma route_insert_map:
  assumes "route_inv st" and "re_used e" and "route_map st (route_key e) = None"
    and "route_insert st e = (OK, st')"
  shows "route_map st' = (route_map st)(route_key e \<mapsto> e)"
  using assms
  by (auto simp: route_insert_def route_find_free_def route_inv_def table_ok_def
      rt.slot_map_claim split: option.splits)

lemma route_reset_inv [inv_intros]:
  assumes "route_inv st"
  shows "route_inv (snd (route_reset st))"
proof -
  let ?c = "route_clear_entries st"
  obtain r1 s1 where i1: "route_insert ?c (rt_base_direct st) = (r1, s1)" by force
  obtain r2 s2 where i2: "route_insert s1 (rt_base_default st) = (r2, s2)" by force
  have c: "route_inv ?c" using assms by (intro route_clear_entries_inv) (auto simp: route_inv_def)
  have fc: "rt_base_direct ?c = rt_base_direct st" "rt_base_default ?c = rt_base_default st"
    "rt_base_valid ?c = rt_base_valid st" by (simp_all add: route_clear_entries_def)
  have f1: "rt_base_default s1 = rt_base_default st"
    using route_insert_frame(2) [of ?c "rt_base_direct st"] i1 fc by simp
  have "route_inv s1" if "rt_base_valid st"
    using assms that c i1 route_map_cleared
    by (intro route_insert_inv [OF c _ _ _ i1]) (auto simp: route_inv_def base_ok_def)
  moreover have "route_inv s2" if v: "rt_base_valid st" "r1 = OK" "re_used (rt_base_default st)"
  proof -
    have b: "base_ok st" using assms v by (simp add: route_inv_def)
    then have "route_map s1 = (route_map ?c)(route_key (rt_base_direct st) \<mapsto> rt_base_direct st)"
      using i1 v by (intro route_insert_map [OF c]) (auto simp: base_ok_def route_map_cleared)
    then have "route_map s1 (route_key (rt_base_default st)) = None"
      using b v by (auto simp: base_ok_def route_map_cleared)
    then show ?thesis
      using b v \<open>rt_base_valid st \<Longrightarrow> route_inv s1\<close>
      by (intro route_insert_inv [OF _ _ _ _ i2]) (auto simp: base_ok_def)
  qed
  ultimately show ?thesis
    using assms c i1 i2 fc f1
    by (auto simp: route_reset_def Let_def intro!: route_inv_update)
qed

lemma route_clear_inv [inv_intros]: "route_inv st \<Longrightarrow> route_inv (snd (route_clear st))"
  by (auto simp: route_clear_def route_clear_entries_def Let_def route_inv_def table_ok_clear)

lemma route_add_inv [inv_intros]: "route_inv st \<Longrightarrow> route_inv (snd (route_add st net m gw iface))"
proof -
  assume inv: "route_inv st"
  obtain r e where p: "route_prepare_entry route_entry_zero net m gw iface = (r, e)" by force
  obtain r2 s2 where i: "route_insert st e = (r2, s2)" by force
  have "route_inv s2" if "r = OK" "route_find st net m = None"
    using route_prepare_entry_OK [of _ net m gw iface e] p that i route_insert_inv [OF inv _ _ _ i]
    by (auto simp: route_find_None_iff)
  then show ?thesis
    using inv p i by (auto simp: route_add_def Let_def intro!: route_inv_update)
qed

lemma route_delete_inv [inv_intros]:
  assumes "route_inv st"
  shows "route_inv (snd (route_delete st net m))"
proof (cases "route_find st net m")
  case None
  then show ?thesis using assms by (auto simp: route_delete_def intro!: route_inv_update)
next
  case (Some i)
  then have "rs_entry_count (rt_status st) \<noteq> 0 \<and>
    table_ok ((rt_entries st)[i := route_entry_zero]) (rs_entry_count (rt_status st) - 1)"
    using assms route_find_SomeD [OF Some] by (intro table_ok_release) (auto simp: route_inv_def)
  then show ?thesis
    using assms Some by (auto simp: route_delete_def Let_def route_inv_def base_ok_def)
qed

lemma route_set_default_inv [inv_intros]:
  assumes inv: "route_inv st"
  shows "route_inv (snd (route_set_default st gw iface))"
proof -
  obtain r e where p: "route_prepare_entry route_entry_zero 0 0 gw iface = (r, e)" by force
  obtain r2 s2 where i: "route_insert st e = (r2, s2)" by force
  have e: "re_used e \<and> route_entry_consistent e \<and> route_key e = (0, 0)" if "r = OK"
    using route_prepare_entry_OK [of _ 0 0 gw iface e] p that by auto
  have "route_inv s2" if "r = OK" "route_find st 0 0 = None"
    using e that route_insert_inv [OF inv _ _ _ i] by (auto simp: route_find_None_iff)
  moreover have "table_ok ((rt_entries st)[k := e]) (rs_entry_count (rt_status st))"
    if "r = OK" "route_find st 0 0 = Some k" for k
    using inv e [OF that(1)] route_find_SomeD [OF that(2)]
    by (intro table_ok_replace) (auto simp: route_inv_def)
  ultimately show ?thesis
    using inv p i
    by (auto simp: route_set_default_def Let_def route_inv_def base_ok_def split: option.splits)
qed

lemma route_lookup_inv [inv_intros]: "route_inv st \<Longrightarrow> route_inv (snd (snd (route_lookup st ip out)))"
  by (auto simp: route_lookup_def Let_def intro!: route_inv_update split: option.splits)

lemma ipv4_mask_is_valid_iff: "ipv4_mask_is_valid m \<longleftrightarrow> (\<exists>n. 1 \<le> n \<and> n \<le> 30 \<and> m = prefix_mask n)"
proof
  assume "ipv4_mask_is_valid m"
  then obtain n where "mask_loop m 0 False 0 = Some n" "1 \<le> n" "n \<le> 30"
    by (auto simp: ipv4_mask_is_valid_def split: option.splits)
  then show "\<exists>n. 1 \<le> n \<and> n \<le> 30 \<and> m = prefix_mask n" by (auto simp: mask_loop_iff)
next
  assume "\<exists>n. 1 \<le> n \<and> n \<le> 30 \<and> m = prefix_mask n"
  then obtain n where "1 \<le> n" "n \<le> 30" "mask_loop m 0 False 0 = Some n" by (auto simp: mask_loop_iff)
  then show "ipv4_mask_is_valid m" by (simp add: ipv4_mask_is_valid_def)
qed

lemma prefix_mask_nonzero: "1 \<le> n \<Longrightarrow> prefix_mask n \<noteq> 0"
  using bit_prefix_mask [of n 31] by (intro notI) simp

lemma prefix_mask_0: "prefix_mask 0 = 0"
  by (rule bit_word_eqI) (simp add: bit_prefix_mask)

definition interface_fits :: "string option \<Rightarrow> bool" where
  "interface_fits iface \<longleftrightarrow> (\<forall>s. iface = Some s \<longrightarrow> s \<noteq> '''' \<and> length s < IPV4_INTERFACE_ID_SIZE)"

lemma route_prepare_entry_fits:
  assumes "n \<le> 32" "m = prefix_mask n" "net = net AND m" "gw = 0 \<or> ipv4_address_is_unicast gw"
    "interface_fits (Some s)"
  shows "\<exists>e. route_prepare_entry e0 net m gw (Some s) = (OK, e)"
proof -
  have "route_mask_prefix m True = (OK, Some n)" using assms by (simp add: route_mask_prefix_iff)
  moreover have "route_copy_loop '''' IPV4_INTERFACE_ID_SIZE s = (OK, s)"
    using route_copy_loop_fits [of "''''" s IPV4_INTERFACE_ID_SIZE] assms(5)
    by (simp add: interface_fits_def)
  moreover have "IPV4_INTERFACE_ID_SIZE \<noteq> 0" by (simp add: route_consts)
  ultimately show ?thesis
    using assms(3,4) by (auto simp: route_prepare_entry_def route_copy_text_def)
qed

lemma route_set_base_cases:
  assumes "interface_fits iface"
  obtains (rejected) r where "route_set_base st ip m gw iface = (r, st)" "r \<noteq> OK"
  | (accepted) d f where
      "route_set_base st ip m gw iface =
         route_reset (st\<lparr>rt_base_direct := d, rt_base_default := f, rt_base_valid := True\<rparr>)"
      "rs_initialized (rt_status st)" "re_used d" "route_entry_consistent d"
      "route_key d = (ip AND m, m)" "re_gateway d = 0"
      "re_used f = (gw \<noteq> 0)" "re_used f \<longrightarrow> route_entry_consistent f \<and> route_key f = (0, 0) \<and> re_gateway f = gw"
      "m \<noteq> 0"
proof (cases "fst (route_set_base st ip m gw iface) \<noteq> OK \<and> snd (route_set_base st ip m gw iface) = st")
  case True
  then show ?thesis by (metis rejected surjective_pairing)
next
  case False
  then obtain s where i: "rs_initialized (rt_status st)" "iface = Some s" "ipv4_mask_is_valid m"
    "\<not> (ip = ip AND m \<or> ip = (ip AND m) OR NOT m \<or>
              (gw \<noteq> 0 \<and> (\<not> ipv4_address_is_unicast gw \<or> gw AND m \<noteq> ip AND m \<or>
                              gw = ip \<or> gw = ip AND m \<or> gw = (ip AND m) OR NOT m)))"
    "ipv4_address_is_unicast ip"
    by (auto simp: route_set_base_def Let_def split: if_splits)
  from i(3) obtain n where n: "1 \<le> n" "n \<le> 30" "m = prefix_mask n"
    by (auto simp: ipv4_mask_is_valid_iff)
  then obtain d where d: "route_prepare_entry route_entry_zero (ip AND m) m 0 iface = (OK, d)"
    using route_prepare_entry_fits [of n m "ip AND m" 0 s] assms i(2) by (auto simp: and.assoc)
  have "\<exists>f. route_prepare_entry route_entry_zero 0 0 gw iface = (OK, f)" if "gw \<noteq> 0"
    using route_prepare_entry_fits [of 0 0 0 gw s] assms i(2,4) that
    by (auto simp: prefix_mask_0)
  then obtain f where f: "(if gw \<noteq> 0 then route_prepare_entry route_entry_zero 0 0 gw iface
      else (OK, route_entry_zero)) = (OK, f)" by (cases "gw = 0") auto
  have "route_set_base st ip m gw iface =
      route_reset (st\<lparr>rt_base_direct := d, rt_base_default := f, rt_base_valid := True\<rparr>)"
    using i d f by (auto simp: route_set_base_def Let_def split: if_splits)
  moreover have "re_used f = (gw \<noteq> 0)"
    "re_used f \<longrightarrow> route_entry_consistent f \<and> route_key f = (0, 0) \<and> re_gateway f = gw"
    using f route_prepare_entry_OK [of route_entry_zero 0 0 gw iface f]
    by (auto split: if_splits simp: rt.blank_unused)
  moreover have "m \<noteq> 0" using n prefix_mask_nonzero by simp
  ultimately show ?thesis using route_prepare_entry_OK [OF d] i(1) by (intro accepted [of f d]) auto
qed

lemma route_set_base_inv [inv_intros]:
  assumes "route_inv st" and "interface_fits iface"
  shows "route_inv (snd (route_set_base st ip m gw iface))"
  using assms(2)
proof (cases rule: route_set_base_cases [where st = st and ip = ip and m = m and gw = gw])
  case (accepted d f)
  have "route_inv (st\<lparr>rt_base_direct := d, rt_base_default := f, rt_base_valid := True\<rparr>)"
    using assms(1) accepted by (auto simp: route_inv_def base_ok_def)
  then show ?thesis unfolding accepted(1) by (rule route_reset_inv)
qed (use assms(1) in simp)

section \<open>Reachable tables\<close>

text \<open>
  Any sequence of calls of the public routines, from the zeroed statics, with one condition:
  \<^verbatim>\<open>route_set_base\<close> is called with no interface name or a non-empty one of fewer than 20
  characters, as \<^verbatim>\<open>ipv4_configure\<close>, which copies the name into a 20-byte buffer first, and the
  self test call it. What a longer name does is shown at the end.
\<close>

inductive route_step :: "route_state \<Rightarrow> route_state \<Rightarrow> bool" where
  init: "route_step st (snd (route_init st))"
| reset: "route_step st (snd (route_reset st))"
| clear: "route_step st (snd (route_clear st))"
| set_base: "interface_fits iface \<Longrightarrow> route_step st (snd (route_set_base st ip m gw iface))"
| add: "route_step st (snd (route_add st net m gw iface))"
| delete: "route_step st (snd (route_delete st net m))"
| set_default: "route_step st (snd (route_set_default st gw iface))"
| lookup: "route_step st (snd (snd (route_lookup st ip has_out)))"

inductive route_reachable :: "route_state \<Rightarrow> bool" where
  start: "route_reachable route_static"
| step: "route_reachable st \<Longrightarrow> route_step st st' \<Longrightarrow> route_reachable st'"

lemma route_reset_frame [frame_simps]:
  "rt_base_valid (snd (route_reset st)) = rt_base_valid st"
  "rs_initialized (rt_status (snd (route_reset st))) = rs_initialized (rt_status st)"
  by (auto simp: route_reset_def Let_def route_clear_entries_def route_insert_def
      split: prod.splits option.splits if_splits)

lemma route_ops_frame [frame_simps]:
  "rt_base_valid (snd (route_add st net m gw iface)) = rt_base_valid st"
  "rs_initialized (rt_status (snd (route_add st net m gw iface))) = rs_initialized (rt_status st)"
  "rt_base_valid (snd (route_delete st net m)) = rt_base_valid st"
  "rs_initialized (rt_status (snd (route_delete st net m))) = rs_initialized (rt_status st)"
  "rt_base_valid (snd (route_set_default st gw iface)) = rt_base_valid st"
  "rs_initialized (rt_status (snd (route_set_default st gw iface))) = rs_initialized (rt_status st)"
  "rt_base_valid (snd (snd (route_lookup st ip out))) = rt_base_valid st"
  "rs_initialized (rt_status (snd (snd (route_lookup st ip out)))) = rs_initialized (rt_status st)"
  by (simp_all add: route_add_def route_delete_def route_set_default_def route_lookup_def
      route_insert_def Let_def split: prod.splits option.splits)

lemma route_set_base_frame:
  assumes "interface_fits iface"
  shows "rt_base_valid (snd (route_set_base st ip m gw iface)) \<longrightarrow>
    rt_base_valid st \<or> rs_initialized (rt_status (snd (route_set_base st ip m gw iface)))"
    and "rs_initialized (rt_status (snd (route_set_base st ip m gw iface))) = rs_initialized (rt_status st)"
  using assms
  by (cases rule: route_set_base_cases [where st = st and ip = ip and m = m and gw = gw];
      simp add: route_reset_frame)+

lemma route_step_inv:
  assumes "route_step st st'" and "route_inv st" and "rt_base_valid st \<longrightarrow> rs_initialized (rt_status st)"
  shows "route_inv st' \<and> (rt_base_valid st' \<longrightarrow> rs_initialized (rt_status st'))"
  using assms
proof (cases rule: route_step.cases)
  case init
  then show ?thesis
    using assms route_init_inv [of st] by (auto simp: route_init_def)
next
  case clear
  then show ?thesis
    using assms route_clear_inv [of st]
    by (auto simp: route_clear_def route_clear_entries_def Let_def)
next
  case (set_base iface ip m gw)
  then show ?thesis
    using assms route_set_base_inv [of st iface] route_set_base_frame [of iface st ip m gw] by auto
qed (use assms in \<open>auto intro: inv_intros simp: frame_simps\<close>)

lemma route_reachable_inv:
  "route_reachable st \<Longrightarrow> route_inv st \<and> (rt_base_valid st \<longrightarrow> rs_initialized (rt_status st))"
proof (induction rule: route_reachable.induct)
  case start
  show ?case by (simp add: route_static_def route_inv_def table_ok_clear route_status_zero_def)
next
  case (step st st')
  then show ?case using route_step_inv by blast
qed

section \<open>Longest prefix\<close>

definition best_of :: "u32 \<Rightarrow> route_entry list \<Rightarrow> nat option \<Rightarrow> nat \<Rightarrow> bool" where
  "best_of ip es b p \<longleftrightarrow>
     (case b of
        None \<Rightarrow> \<forall>e \<in> set es. \<not> route_entry_matches ip e
      | Some k \<Rightarrow> k < length es \<and> route_entry_matches ip (es ! k) \<and> re_prefix_length (es ! k) = p \<and>
          (\<forall>e \<in> set es. route_entry_matches ip e \<longrightarrow> re_prefix_length e \<le> p))"

lemma best_of_snoc:
  "best_of ip es b p \<Longrightarrow> \<not> route_entry_matches ip e \<or> b \<noteq> None \<and> re_prefix_length e \<le> p \<Longrightarrow>
     best_of ip (es @ [e]) b p"
  "best_of ip es b p \<Longrightarrow> route_entry_matches ip e \<Longrightarrow> b = None \<or> re_prefix_length e > p \<Longrightarrow>
     best_of ip (es @ [e]) (Some (length es)) (re_prefix_length e)"
  by (auto simp: best_of_def nth_append split: option.splits)

lemma route_lookup_loop_best:
  "best_of ip seen b p \<Longrightarrow> \<exists>p'. best_of ip (seen @ es) (route_lookup_loop ip (length seen) b p es) p'"
proof (induction es arbitrary: seen b p)
  case (Cons e es)
  consider "\<not> route_entry_matches ip e \<or> b \<noteq> None \<and> re_prefix_length e \<le> p"
    | "route_entry_matches ip e" "b = None \<or> re_prefix_length e > p"
    by (meson not_le_imp_less)
  then show ?case
  proof cases
    case 1
    then show ?thesis
      using Cons.IH [OF best_of_snoc(1) [OF Cons.prems 1]] by (auto simp: not_less [symmetric])
  next
    case 2
    then show ?thesis
      using Cons.IH [OF best_of_snoc(2) [OF Cons.prems 2]] by auto
  qed
qed auto

lemma route_lookup_best:
  "\<exists>p. best_of ip es (route_lookup_loop ip 0 None 0 es) p"
  using route_lookup_loop_best [of ip "[]" None 0 es] by (simp add: best_of_def)

lemma route_entry_matches_iff:
  assumes "route_entry_consistent e"
  shows "re_prefix_length e \<le> 32 \<and> re_subnet_mask e = prefix_mask (re_prefix_length e) \<and>
    (route_entry_matches ip e \<longleftrightarrow>
       re_used e \<and> drop_bit (32 - re_prefix_length e) ip = drop_bit (32 - re_prefix_length e) (re_network e))"
proof -
  have m: "re_prefix_length e \<le> 32" "re_subnet_mask e = prefix_mask (re_prefix_length e)"
    and n: "re_network e = re_network e AND prefix_mask (re_prefix_length e)"
    using assms route_mask_prefix_iff [of "re_subnet_mask e" "re_prefix_length e"]
    by (auto simp: route_entry_consistent_def Let_def split: prod.splits)
  show ?thesis
    using m mask_hit_iff [OF m(1) n, of ip] by (auto simp: route_entry_matches_def)
qed

section \<open>Properties\<close>

text \<open>
  C20. The mask loop accepts exactly the 33 contiguous masks, and the length it reports is
  the number of leading ones.
\<close>

theorem route_mask_prefix_contiguous:
  "route_mask_prefix m True = (OK, Some n) \<longleftrightarrow> n \<le> 32 \<and> m = NOT (mask (32 - n))"
  using route_mask_prefix_iff [of m n] by (simp add: prefix_mask_def)

definition covering :: "route_state \<Rightarrow> u32 \<Rightarrow> route_entry set" where
  "covering st ip = {e \<in> set (rt_entries st). re_used e \<and>
     drop_bit (32 - re_prefix_length e) ip = drop_bit (32 - re_prefix_length e) (re_network e)}"

lemma covering_eq:
  assumes "route_inv st"
  shows "covering st ip = {e \<in> set (rt_entries st). route_entry_matches ip e}"
proof -
  have "re_used e \<and> drop_bit (32 - re_prefix_length e) ip = drop_bit (32 - re_prefix_length e) (re_network e)
      \<longleftrightarrow> route_entry_matches ip e" if "e \<in> set (rt_entries st)" for e
    using assms that route_entry_matches_iff [of e ip]
    by (cases "re_used e") (auto simp: route_inv_def table_ok_def route_entry_matches_def)
  then show ?thesis by (auto simp: covering_def)
qed

lemma covering_prefix_inj:
  assumes "route_inv st" and "e \<in> covering st ip" "e' \<in> covering st ip"
    and "re_prefix_length e = re_prefix_length e'"
  shows "e = e'"
proof -
  have u: "keys_unique re_used route_key (rt_entries st)"
    and c: "route_entry_consistent e" "route_entry_consistent e'"
    using assms by (auto simp: route_inv_def table_ok_def covering_def)
  have "re_subnet_mask e = re_subnet_mask e'"
    using c assms(4) route_entry_matches_iff by metis
  moreover have "re_network e = re_network e'"
    using assms(2,3) calculation
    by (simp add: covering_eq [OF assms(1)] route_entry_matches_def)
  ultimately have "route_map st (route_key e) = Some e" "route_map st (route_key e) = Some e'"
    using assms(2,3) by (auto simp: slot_map_Some_iff [OF u] covering_def)
  then show ?thesis by simp
qed

text \<open>
  C2. Lookup is longest-prefix match. In every reachable table it fails with
  \<^verbatim>\<open>ERR_NOT_FOUND\<close> exactly when no entry covers the destination, and otherwise returns the
  covering entry whose prefix is strictly longer than that of every other covering entry,
  with the gateway as next hop, or the destination itself on a direct route; the table is
  unchanged.
\<close>

theorem route_lookup_longest_prefix:
  assumes "route_reachable st" and "rs_initialized (rt_status st)"
    and "route_lookup st ip True = (r, Some m, st')"
  shows "rt_entries st' = rt_entries st \<and>
    (if covering st ip = {} then r = ERR_NOT_FOUND \<and> \<not> rm_matched m
     else r = OK \<and> rm_matched m \<and> rm_entry m \<in> covering st ip \<and>
       (\<forall>e \<in> covering st ip. e \<noteq> rm_entry m \<longrightarrow> re_prefix_length e < re_prefix_length (rm_entry m)) \<and>
       rm_next_hop m = (if re_gateway (rm_entry m) = 0 then ip else re_gateway (rm_entry m)))"
proof -
  have inv: "route_inv st" using assms(1) by (simp add: route_reachable_inv)
  obtain p where best: "best_of ip (rt_entries st) (route_lookup_loop ip 0 None 0 (rt_entries st)) p"
    using route_lookup_best by blast
  show ?thesis
  proof (cases "route_lookup_loop ip 0 None 0 (rt_entries st)")
    case None
    then show ?thesis
      using assms best by (auto simp: best_of_def covering_eq [OF inv] route_lookup_def Let_def route_match_zero_def)
  next
    case (Some k)
    let ?e = "rt_entries st ! k"
    have k: "?e \<in> covering st ip" and max: "\<forall>e \<in> covering st ip. re_prefix_length e \<le> re_prefix_length ?e"
      using best Some by (auto simp: best_of_def covering_eq [OF inv])
    have "\<forall>e \<in> covering st ip. e \<noteq> ?e \<longrightarrow> re_prefix_length e < re_prefix_length ?e"
      using max covering_prefix_inj [OF inv _ k] by (metis le_neq_implies_less)
    then show ?thesis
      using assms(2,3) k Some by (auto simp: route_lookup_def Let_def)
  qed
qed

definition route_ready :: route_state where
  "route_ready = snd (route_init route_static)"

definition route_one :: route_state where
  "route_one = snd (route_add route_ready 0x0A010000 0xFFFF0000 0 (Some ''eth0''))"

lemma route_ready_reachable: "route_reachable route_ready"
  unfolding route_ready_def by (rule route_reachable.intros route_step.intros)+

lemma route_one_reachable: "route_reachable route_one"
  unfolding route_one_def using route_ready_reachable route_reachable.step route_step.add by blast

lemma route_ready_init: "rs_initialized (rt_status route_ready)"
  by (simp add: route_ready_def route_init_def route_static_def route_status_zero_def)

lemma route_one_init: "rs_initialized (rt_status route_one)"
  by (simp add: route_one_def frame_simps route_ready_init)

lemma route_lookup_total: "\<exists>r m st'. route_lookup st ip True = (r, Some m, st')"
  by (auto simp: route_lookup_def Let_def split: option.splits)

lemma route_one_entry:
  "rt_entries route_one ! 0 = \<lparr>re_used = True, re_prefix_length = 16, re_network = 0x0A010000,
     re_subnet_mask = 0xFFFF0000, re_gateway = 0, re_interface_id = ''eth0''\<rparr>"
  by code_simp

theorem route_lookup_longest_prefix_witness:
  "\<exists>m st'. route_lookup route_one 0x0A010203 True = (OK, Some m, st') \<and> rm_next_hop m = 0x0A010203"
proof -
  obtain r m st' where l: "route_lookup route_one 0x0A010203 True = (r, Some m, st')"
    using route_lookup_total by blast
  have "covering route_one 0x0A010203 = {rt_entries route_one ! 0}"
    unfolding covering_def by code_simp
  with route_lookup_longest_prefix [OF route_one_reachable route_one_init l] l show ?thesis
    by (auto simp: route_one_entry)
qed

text \<open>
  C10. Whatever sequence of public calls has run in which \<^verbatim>\<open>route_set_base\<close> is only given
  interface names that fit their 20-byte field (as its callers ensure), once the table is
  initialised the run-time consistency check \<^verbatim>\<open>route_validate_state\<close> succeeds: no duplicate
  key, every used entry canonical, and the entry counter exact.
\<close>

theorem route_reachable_validates:
  assumes "route_reachable st" and "rs_initialized (rt_status st)"
  shows "route_validate_state st = OK"
  using assms route_reachable_inv [of st] route_validate_iff [of st]
  by (auto simp: route_inv_def table_ok_def)

theorem route_reachable_validates_witness:
  "re_used (rt_entries route_one ! 0) \<and> route_validate_state route_one = OK"
  using route_reachable_validates [OF route_one_reachable route_one_init] by (simp add: route_one_entry)


section \<open>Refinement of a finite map\<close>

lemma route_table_full_iff:
  assumes "route_inv st"
  shows "route_find_free st = None \<longleftrightarrow> unat (rs_entry_count (rt_status st)) = ROUTE_TABLE_CAPACITY"
  using assms rt.full_iff [of "rt_entries st"] by (simp add: route_find_free_def route_inv_def table_ok_def)

lemma route_map_status [simp]: "route_map (rt_status_update f st) = route_map st"
  by simp

text \<open>
  C18. Read as a map from (network, mask) to entries, a reachable table is updated by
  \<^verbatim>\<open>route_add\<close> exactly as a bounded map is: the call succeeds iff the arguments describe a
  valid entry, the key is new and fewer than 16 routes exist; on success the map gains that
  one entry, carrying the given gateway and interface, and on any failure it is unchanged.
\<close>

theorem route_add_refines_update:
  assumes "route_reachable st" and "rs_initialized (rt_status st)"
    and "route_add st net m gw iface = (r, st')"
  shows "(r = OK \<longleftrightarrow> fst (route_prepare_entry route_entry_zero net m gw iface) = OK \<and>
      route_map st (net, m) = None \<and> unat (rs_entry_count (rt_status st)) < ROUTE_TABLE_CAPACITY) \<and>
    (r = OK \<longrightarrow> (\<exists>e. route_map st' = (route_map st)((net, m) \<mapsto> e) \<and>
      re_gateway e = gw \<and> Some (re_interface_id e) = iface)) \<and>
    (r \<noteq> OK \<longrightarrow> route_map st' = route_map st)"
proof -
  have inv: "route_inv st" using assms(1) by (simp add: route_reachable_inv)
  have count: "route_find_free st \<noteq> None \<longleftrightarrow> unat (rs_entry_count (rt_status st)) < ROUTE_TABLE_CAPACITY"
    using route_table_full_iff [OF inv] table_ok_room [of "rt_entries st"] inv
    by (auto simp: route_inv_def ROUTE_TABLE_CAPACITY_def order.strict_iff_order)
  obtain r1 e where p: "route_prepare_entry route_entry_zero net m gw iface = (r1, e)" by force
  obtain r2 s2 where i: "route_insert st e = (r2, s2)" by force
  have r2: "r2 = OK \<longleftrightarrow> route_find_free st \<noteq> None" "r2 \<noteq> OK \<longrightarrow> s2 = st"
    using i by (auto simp: route_insert_def split: option.splits)
  have "route_map s2 = (route_map st)((net, m) \<mapsto> e) \<and> re_gateway e = gw \<and> Some (re_interface_id e) = iface"
    if "r1 = OK" "route_map st (net, m) = None" "r2 = OK"
    using route_prepare_entry_OK [of route_entry_zero net m gw iface e] p that i route_insert_map [OF inv]
    by auto
  then show ?thesis
    using assms(2,3) p i r2 count
    by (cases "r1 = OK"; cases "r2 = OK")
      (auto simp: route_add_def Let_def route_find_None_iff split: if_splits)
qed

theorem route_add_refines_update_witness:
  "\<exists>st' e. route_add route_one 0 0 0x0A010001 (Some ''eth0'') = (OK, st') \<and>
     route_map st' = (route_map route_one)((0, 0) \<mapsto> e) \<and> re_gateway e = 0x0A010001"
proof -
  obtain r st' where a: "route_add route_one 0 0 0x0A010001 (Some ''eth0'') = (r, st')" by force
  have "fst (route_prepare_entry route_entry_zero 0 0 0x0A010001 (Some ''eth0'')) = OK" by code_simp
  moreover have "first_index (\<lambda>e. re_used e \<and> route_key e = (0, 0)) (rt_entries route_one) = None"
    "unat (rs_entry_count (rt_status route_one)) < ROUTE_TABLE_CAPACITY"
    by code_simp+
  ultimately show ?thesis
    using route_add_refines_update [OF route_one_reachable route_one_init a] a by (auto simp: slot_map_def)
qed

lemma route_map_valid:
  assumes "route_inv st" and "route_map st (net, m) = Some e"
  shows "fst (route_mask_prefix m True) = OK \<and> net = net AND m"
proof -
  have "e \<in> set (rt_entries st)" "re_used e" "re_network e = net" "re_subnet_mask e = m"
    using slot_map_SomeD [OF assms(2)] by auto
  moreover from this have "route_entry_consistent e"
    using assms(1) by (auto simp: route_inv_def table_ok_def)
  ultimately show ?thesis by (auto simp: route_entry_consistent_def Let_def case_prod_beta)
qed

text \<open>
  C19. \<^verbatim>\<open>route_delete\<close> removes exactly the given key: it succeeds iff the key is present, the
  map then loses that key and nothing else, and a failing call changes nothing.
\<close>

theorem route_delete_refines_removal:
  assumes "route_reachable st" and "rs_initialized (rt_status st)"
    and "route_delete st net m = (r, st')"
  shows "(r = OK \<longleftrightarrow> route_map st (net, m) \<noteq> None) \<and>
    route_map st' = (route_map st)((net, m) := None)"
proof -
  have inv: "route_inv st" using assms(1) by (simp add: route_reachable_inv)
  then have u: "keys_unique re_used route_key (rt_entries st)" by (simp add: route_inv_def table_ok_def)
  show ?thesis
  proof (cases "route_find st net m")
    case None
    then have n: "route_map st (net, m) = None" by (simp add: route_find_None_iff)
    then have "(route_map st)((net, m) := None) = route_map st" by (rule fun_upd_idem)
    then show ?thesis
      using assms(2,3) None n by (auto simp: route_delete_def split: if_splits)
  next
    case (Some i)
    have i: "i < length (rt_entries st)" "re_used (rt_entries st ! i)"
      "route_key (rt_entries st ! i) = (net, m)" using route_find_SomeD [OF Some] by auto
    have "route_map st (net, m) = Some (rt_entries st ! i)"
      using slot_map_unique [OF u i(1,2)] i(3) by simp
    moreover have "slot_map re_used route_key ((rt_entries st)[i := route_entry_zero]) =
      (route_map st)((net, m) := None)"
      using rt.slot_map_release [OF u i(1,2)] i(3) by simp
    ultimately show ?thesis
      using assms(2,3) Some route_map_valid [OF inv]
      by (auto simp: route_delete_def Let_def split: if_splits)
  qed
qed

theorem route_delete_refines_removal_witness:
  "\<exists>st'. route_delete route_one 0x0A010000 0xFFFF0000 = (OK, st') \<and>
     route_map st' = (route_map route_one)((0x0A010000, 0xFFFF0000) := None)"
proof -
  obtain r st' where d: "route_delete route_one 0x0A010000 0xFFFF0000 = (r, st')" by force
  have "first_index (\<lambda>e. re_used e \<and> route_key e = (0x0A010000, 0xFFFF0000)) (rt_entries route_one) = Some 0"
    by code_simp
  then show ?thesis
    using route_delete_refines_removal [OF route_one_reachable route_one_init d] d
    by (auto simp: slot_map_def)
qed

section \<open>Self test and base configuration\<close>

lemma route_self_test_counts:
  "map_prod id (map_option (\<lambda>q. (st_passed q, st_failed q))) (map_prod id fst (route_self_test
     \<lparr>rt_entries = es, rt_base_direct = d, rt_base_default = f,
       rt_status = \<lparr>rs_initialized = True, rs_entry_count = n, rs_lookups = l, rs_matches = m, rs_misses = i,
         rs_adds = a, rs_deletes = de, rs_replacements = re, rs_last_error = e\<rparr>,
       rt_base_valid = v\<rparr> True)) = (OK, Some (10, 0))"
  by code_simp

text \<open>
  C21. The built-in self test passes on every initialised table, whatever it holds: all ten
  checks succeed, none fails, and the table, the base routes and the counters are put back.
\<close>

theorem route_self_test_passes:
  assumes "rs_initialized (rt_status st)"
  shows "\<exists>out. route_self_test st True = (OK, Some out, st) \<and> st_passed out = 10 \<and> st_failed out = 0"
proof -
  obtain r out st' where t: "route_self_test st True = (r, out, st')" by (metis surj_pair)
  have "st' = st"
    using t assms by (auto simp: route_self_test_def Let_def split: prod.splits)
  moreover have "map_prod id (map_option (\<lambda>q. (st_passed q, st_failed q))) (map_prod id fst (r, out, st')) =
      (OK, Some (10, 0))"
    using assms unfolding t [symmetric]
    by (cases st; cases "rt_status st") (simp only: route_self_test_counts route_state.simps route_status.simps)
  ultimately show ?thesis using t by auto
qed

lemma route_copy_loop_overflow:
  "length d < cap \<Longrightarrow> cap \<le> length d + length s \<Longrightarrow> fst (route_copy_loop d cap s) = ERR_OVERFLOW"
  by (induction d cap s rule: route_copy_loop.induct) auto

lemma route_prepare_entry_overflow:
  assumes "fst (route_mask_prefix m True) = OK" "net = net AND m" "gw = 0 \<or> ipv4_address_is_unicast gw"
    "IPV4_INTERFACE_ID_SIZE \<le> length s"
  shows "\<exists>e. route_prepare_entry e0 net m gw (Some s) = (ERR_OVERFLOW, e) \<and> \<not> re_used e"
  using assms route_copy_loop_overflow [of "[]" IPV4_INTERFACE_ID_SIZE s]
  by (cases "route_mask_prefix m True"; cases "route_copy_loop [] IPV4_INTERFACE_ID_SIZE s")
    (auto simp: route_prepare_entry_def route_copy_text_def route_consts route_entry_zero_def)

lemma first_free_cleared:
  "\<not> re_used e \<Longrightarrow> first_index (\<lambda>e. \<not> re_used e) ((replicate ROUTE_TABLE_CAPACITY route_entry_zero)[0 := e]) = Some 0"
  "first_index (\<lambda>e. \<not> re_used e) (replicate ROUTE_TABLE_CAPACITY route_entry_zero) = Some 0"
  by (simp_all add: ROUTE_TABLE_CAPACITY_def rt.blank_unused numeral_eq_Suc)

lemma route_reset_unused_base:
  assumes "rs_initialized (rt_status st)" "rt_base_valid st" "\<not> re_used (rt_base_direct st)"
  shows "\<exists>st'. route_reset st = (OK, st') \<and> route_validate_state st' = ERR_STATE"
proof -
  let ?z = "replicate ROUTE_TABLE_CAPACITY route_entry_zero"
  let ?c = "if re_used (rt_base_default st) then 2 else 1 :: u8"
  obtain es st' where r: "route_reset st = (OK, st')"
    and e: "rt_entries st' = ?z[0 := es]" and u: "re_used es = re_used (rt_base_default st)"
    and n: "rs_entry_count (rt_status st') = ?c"
    using assms
    by (cases "re_used (rt_base_default st)")
      (auto simp: route_reset_def route_clear_entries_def route_insert_def route_find_free_def Let_def
        first_free_cleared)
  have "length (filter re_used (?z[0 := es])) = of_bool (re_used es)"
    by (simp add: ROUTE_TABLE_CAPACITY_def rt.blank_unused numeral_eq_Suc)
  then have "\<not> table_ok (rt_entries st') (rs_entry_count (rt_status st'))"
    using e u n by (auto simp: table_ok_def split: if_splits)
  moreover have "length (rt_entries st') = ROUTE_TABLE_CAPACITY" using e by simp
  ultimately have "route_validate_state st' \<noteq> OK" using route_validate_iff [of st'] by simp
  then have "route_validate_state st' = ERR_STATE"
    by (auto simp: route_validate_state_def split: option.splits if_splits)
  with r show ?thesis by blast
qed

text \<open>
  C22. A configuration that fails after an earlier one succeeded leaves the base marked valid
  with an unused direct route. \<^verbatim>\<open>route_set_base\<close> reports \<^verbatim>\<open>ERR_OVERFLOW\<close> for an interface
  name of 20 or more characters, and a later \<^verbatim>\<open>route_reset\<close> then returns \<^verbatim>\<open>OK\<close> but builds a
  table that \<^verbatim>\<open>route_validate_state\<close> rejects.
\<close>

theorem route_set_base_failure_breaks_reset:
  assumes "rs_initialized (rt_status st)" "rt_base_valid st"
    and "ipv4_address_is_unicast ip" "ipv4_mask_is_valid m" "ip \<noteq> ip AND m" "ip \<noteq> (ip AND m) OR NOT m"
    and "IPV4_INTERFACE_ID_SIZE \<le> length s"
  shows "\<exists>st1 st2. route_set_base st ip m 0 (Some s) = (ERR_OVERFLOW, st1) \<and>
    route_reset st1 = (OK, st2) \<and> route_validate_state st2 = ERR_STATE"
proof -
  obtain n where n: "n \<le> 30" "m = prefix_mask n" using assms(4) by (auto simp: ipv4_mask_is_valid_iff)
  then have "route_mask_prefix m True = (OK, Some n)" by (simp add: route_mask_prefix_iff)
  then obtain e where "route_prepare_entry route_entry_zero (ip AND m) m 0 (Some s) = (ERR_OVERFLOW, e)"
    and u: "\<not> re_used e"
    using route_prepare_entry_overflow [of m "ip AND m" 0 s route_entry_zero] assms(7) by (auto simp: and.assoc)
  then have s: "route_set_base st ip m 0 (Some s) = (ERR_OVERFLOW, st\<lparr>rt_base_direct := e\<rparr>)"
    using assms by (auto simp: route_set_base_def Let_def)
  then show ?thesis
    using route_reset_unused_base [of "st\<lparr>rt_base_direct := e\<rparr>"] assms(1,2) u by auto
qed

theorem route_self_test_passes_witness:
  "\<exists>out. route_self_test route_one True = (OK, Some out, route_one) \<and> st_passed out = 10"
  using route_self_test_passes [OF route_one_init] by blast

definition route_based :: route_state where
  "route_based = snd (route_set_base route_ready 0x0A00020F 0xFFFFFF00 0 (Some ''eth0''))"

theorem route_set_base_failure_breaks_reset_witness:
  "\<exists>st1 st2. route_set_base route_based 0x0A00020F 0xFFFFFF00 0 (Some (replicate 20 CHR ''x'')) = (ERR_OVERFLOW, st1)
     \<and> route_reset st1 = (OK, st2) \<and> route_validate_state st2 = ERR_STATE"
proof (rule route_set_base_failure_breaks_reset)
  show "rs_initialized (rt_status route_based)" "rt_base_valid route_based" by code_simp+
  show "ipv4_address_is_unicast 0x0A00020F" "ipv4_mask_is_valid 0xFFFFFF00" by code_simp+
qed (simp_all add: IPV4_INTERFACE_ID_SIZE_def)

end
