(* ===== verification/Pmm.thy ===== *)
theory Pmm
  imports Prelude
begin

text \<open>
  The physical page allocator, the first half of \<^verbatim>\<open>src/src/memory/memory.c\<close> (the kernel
  build; the \<^verbatim>\<open>ZEPHYROS_HOST_TEST\<close> branches are left out). The allocation bitmap and the
  packed 3-bit ownership tags are byte lists; \<open>None\<close> is the null pointer they hold before
  \<^verbatim>\<open>memory_init\<close>. Page numbers are \<open>nat\<close>; counters and addresses are 32-bit words, a zero
  address being the null pointer that reports failure.
\<close>

section \<open>Layout\<close>

definition PAGE_SIZE :: nat where "PAGE_SIZE = 4096"
definition KERNEL_START :: nat where "KERNEL_START = 0x00100000"
definition KERNEL_END :: nat where "KERNEL_END = 0x00800000"
definition HEAP_START :: nat where "HEAP_START = 0x01000000"
definition HEAP_SIZE :: nat where "HEAP_SIZE = 0x00400000"
definition PHYSICAL_IDENTITY_START :: nat where "PHYSICAL_IDENTITY_START = HEAP_START + HEAP_SIZE"
definition MIN_USABLE_MEMORY_END :: nat where "MIN_USABLE_MEMORY_END = 0x02000000 - 0x00020000"
definition PMM_BITMAP_STORAGE_START :: nat where "PMM_BITMAP_STORAGE_START = 0x00088000"
definition PMM_BITMAP_STORAGE_END :: nat where "PMM_BITMAP_STORAGE_END = 0x00098000"
definition KERNEL_STACK_TOP :: nat where "KERNEL_STACK_TOP = 0x0009F000"
definition MAX_PHYSICAL_ADDRESS :: "64 word" where "MAX_PHYSICAL_ADDRESS = 0xFFFFFFFF"
definition PMM_ZONE_STORAGE_CAPACITY :: nat where
  "PMM_ZONE_STORAGE_CAPACITY = PMM_BITMAP_STORAGE_END - PMM_BITMAP_STORAGE_START"
definition PMM_ZONE_TAG_BITS :: nat where "PMM_ZONE_TAG_BITS = 3"
definition PMM_ZONE_STORAGE_BYTES :: "nat \<Rightarrow> nat" where
  "PMM_ZONE_STORAGE_BYTES total_pages = (total_pages * PMM_ZONE_TAG_BITS + 7) div 8"

definition PMM_ZONE_TAG_FREE :: u8 where "PMM_ZONE_TAG_FREE = 0"
definition PMM_ZONE_TAG_RESERVED_KERNEL :: u8 where "PMM_ZONE_TAG_RESERVED_KERNEL = 1"
definition PMM_ZONE_TAG_RESERVED_HEAP :: u8 where "PMM_ZONE_TAG_RESERVED_HEAP = 2"
definition PMM_ZONE_TAG_KERNEL :: u8 where "PMM_ZONE_TAG_KERNEL = 3"
definition PMM_ZONE_TAG_SLAB :: u8 where "PMM_ZONE_TAG_SLAB = 4"
definition PMM_ZONE_TAG_PROCESS :: u8 where "PMM_ZONE_TAG_PROCESS = 5"
definition PMM_ZONE_TAG_BUFFER :: u8 where "PMM_ZONE_TAG_BUFFER = 6"

lemmas pmm_layout = PAGE_SIZE_def KERNEL_START_def KERNEL_END_def HEAP_START_def HEAP_SIZE_def
  PHYSICAL_IDENTITY_START_def MIN_USABLE_MEMORY_END_def PMM_BITMAP_STORAGE_START_def
  PMM_BITMAP_STORAGE_END_def KERNEL_STACK_TOP_def MAX_PHYSICAL_ADDRESS_def
  PMM_ZONE_STORAGE_CAPACITY_def PMM_ZONE_TAG_BITS_def PMM_ZONE_STORAGE_BYTES_def

lemmas pmm_tags = PMM_ZONE_TAG_FREE_def PMM_ZONE_TAG_RESERVED_KERNEL_def
  PMM_ZONE_TAG_RESERVED_HEAP_def PMM_ZONE_TAG_KERNEL_def PMM_ZONE_TAG_SLAB_def
  PMM_ZONE_TAG_PROCESS_def PMM_ZONE_TAG_BUFFER_def

datatype memory_zone =
    MEMORY_ZONE_KERNEL | MEMORY_ZONE_HEAP | MEMORY_ZONE_SLAB | MEMORY_ZONE_PROCESS
  | MEMORY_ZONE_BUFFER | MEMORY_ZONE_FREE | MEMORY_ZONE_COUNT

record mmap_entry =
  mm_base_low :: u32
  mm_base_high :: u32
  mm_length_low :: u32
  mm_length_high :: u32
  mm_type :: u32

record pmm_state =
  pm_total_memory :: u32
  pm_free_memory :: u32
  pm_used_memory :: u32
  pm_total_pages :: nat
  pm_free_pages :: u32
  pm_bitmap_size :: nat
  pm_bitmap :: "u8 list option"
  pm_mmap :: "mmap_entry list"
  pm_owner_bitmap :: "u8 list option"
  pm_owner_bitmap_size :: nat
  pm_owned_pages :: u32
  pm_allocation_failures :: u32
  pm_invalid_frees :: u32

section \<open>Bitmap and tags\<close>

text \<open>
  \<^verbatim>\<open>align_up\<close>: zero reports overflow of the 32-bit sum.
\<close>

definition align_up :: "nat \<Rightarrow> nat \<Rightarrow> nat" where
  "align_up value alignment =
     (if alignment = 0 \<or> value > 0xFFFFFFFF - (alignment - 1) then 0
      else unat ((word_of_nat (value + alignment - 1) :: u32) AND NOT (word_of_nat (alignment - 1))))"

definition bitmap_test :: "u8 list \<Rightarrow> nat \<Rightarrow> bool" where
  "bitmap_test bitmap page = (bitmap ! (page div 8) AND push_bit (page mod 8) 1 \<noteq> 0)"

definition bitmap_mark :: "u8 list \<Rightarrow> nat \<Rightarrow> u8 list" where
  "bitmap_mark bitmap page =
     bitmap[page div 8 := bitmap ! (page div 8) OR push_bit (page mod 8) 1]"

definition bitmap_unmark :: "u8 list \<Rightarrow> nat \<Rightarrow> u8 list" where
  "bitmap_unmark bitmap page =
     bitmap[page div 8 := bitmap ! (page div 8) AND NOT (push_bit (page mod 8) 1)]"

definition pmm_get_page_tag :: "u8 list \<Rightarrow> nat \<Rightarrow> u8" where
  "pmm_get_page_tag owner page =
     (let bit_offset = page * PMM_ZONE_TAG_BITS;
          byte_offset = bit_offset div 8;
          shift = bit_offset mod 8;
          value = (ucast (owner ! byte_offset) :: u16);
          value = (if shift > 5 then value OR push_bit 8 (ucast (owner ! (byte_offset + 1)))
                   else value)
      in ucast (drop_bit shift value AND 7))"

definition pmm_set_page_tag :: "u8 list \<Rightarrow> nat \<Rightarrow> u8 \<Rightarrow> u8 list" where
  "pmm_set_page_tag owner page tag =
     (let bit_offset = page * PMM_ZONE_TAG_BITS;
          byte_offset = bit_offset div 8;
          shift = bit_offset mod 8;
          value = (ucast (owner ! byte_offset) :: u16);
          msk = push_bit shift (7 :: u16);
          value = (if shift > 5 then value OR push_bit 8 (ucast (owner ! (byte_offset + 1)))
                   else value);
          value = (value AND NOT msk) OR push_bit shift (ucast (tag AND 7));
          owner = owner[byte_offset := ucast value]
      in if shift > 5 then owner[byte_offset + 1 := ucast (drop_bit 8 value)] else owner)"

definition pmm_tag_to_zone :: "u8 \<Rightarrow> memory_zone" where
  "pmm_tag_to_zone tag =
     (if tag = PMM_ZONE_TAG_RESERVED_KERNEL \<or> tag = PMM_ZONE_TAG_KERNEL then MEMORY_ZONE_KERNEL
      else if tag = PMM_ZONE_TAG_RESERVED_HEAP then MEMORY_ZONE_HEAP
      else if tag = PMM_ZONE_TAG_SLAB then MEMORY_ZONE_SLAB
      else if tag = PMM_ZONE_TAG_PROCESS then MEMORY_ZONE_PROCESS
      else if tag = PMM_ZONE_TAG_BUFFER then MEMORY_ZONE_BUFFER
      else if tag = PMM_ZONE_TAG_FREE then MEMORY_ZONE_FREE
      else MEMORY_ZONE_COUNT)"

definition pmm_zone_to_tag :: "memory_zone \<Rightarrow> u8" where
  "pmm_zone_to_tag zone =
     (case zone of
        MEMORY_ZONE_KERNEL \<Rightarrow> PMM_ZONE_TAG_KERNEL
      | MEMORY_ZONE_SLAB \<Rightarrow> PMM_ZONE_TAG_SLAB
      | MEMORY_ZONE_PROCESS \<Rightarrow> PMM_ZONE_TAG_PROCESS
      | MEMORY_ZONE_BUFFER \<Rightarrow> PMM_ZONE_TAG_BUFFER
      | _ \<Rightarrow> PMM_ZONE_TAG_FREE)"

definition pmm_zone_is_allocatable :: "memory_zone \<Rightarrow> bool" where
  "pmm_zone_is_allocatable zone \<longleftrightarrow>
     zone = MEMORY_ZONE_KERNEL \<or> zone = MEMORY_ZONE_SLAB \<or>
     zone = MEMORY_ZONE_PROCESS \<or> zone = MEMORY_ZONE_BUFFER"

definition pmm_page_is_owned :: "pmm_state \<Rightarrow> nat \<Rightarrow> bool" where
  "pmm_page_is_owned st page =
     (let tag = pmm_get_page_tag (the (pm_owner_bitmap st)) page
      in tag \<ge> PMM_ZONE_TAG_KERNEL \<and> tag \<le> PMM_ZONE_TAG_BUFFER)"

definition pmm_page_is_free :: "pmm_state \<Rightarrow> nat \<Rightarrow> bool" where
  "pmm_page_is_free st page \<longleftrightarrow> \<not> bitmap_test (the (pm_bitmap st)) page"

definition pmm_is_ready :: "pmm_state \<Rightarrow> bool" where
  "pmm_is_ready st \<longleftrightarrow>
     pm_bitmap st \<noteq> None \<and> pm_owner_bitmap st \<noteq> None \<and> pm_owner_bitmap_size st \<noteq> 0"

section \<open>Initialisation\<close>

definition mmap_base :: "mmap_entry \<Rightarrow> 64 word" where
  "mmap_base entry = push_bit 32 (ucast (mm_base_high entry)) OR ucast (mm_base_low entry)"

definition mmap_length :: "mmap_entry \<Rightarrow> 64 word" where
  "mmap_length entry = push_bit 32 (ucast (mm_length_high entry)) OR ucast (mm_length_low entry)"

definition memory_range_is_usable :: "mmap_entry list \<Rightarrow> nat \<Rightarrow> nat \<Rightarrow> bool" where
  "memory_range_is_usable mmap start limit =
     list_ex (\<lambda>entry.
       let base = mmap_base entry;
           range_end = base + mmap_length entry
       in range_end \<ge> base \<and> mm_type entry = 1 \<and>
          base \<le> word_of_nat start \<and> range_end \<ge> word_of_nat limit) mmap"

definition page_floor :: "64 word \<Rightarrow> 64 word" where
  "page_floor limit = limit AND NOT (word_of_nat PAGE_SIZE - 1)"

definition find_total_step :: "mmap_entry \<Rightarrow> u32 \<Rightarrow> u32" where
  "find_total_step entry total_memory =
     (let base = mmap_base entry;
          limit = base + mmap_length entry
      in if mm_type entry \<noteq> 1 \<or> base > MAX_PHYSICAL_ADDRESS \<or> limit \<le> base then total_memory
         else
           let limit = (if limit > MAX_PHYSICAL_ADDRESS then MAX_PHYSICAL_ADDRESS else limit);
               limit = page_floor limit
           in if limit > ucast total_memory then ucast limit else total_memory)"

definition memory_find_total :: "mmap_entry list \<Rightarrow> u32" where
  "memory_find_total mmap = fold find_total_step mmap 0"

definition mark_usable_step :: "nat \<Rightarrow> mmap_entry \<Rightarrow> u8 list \<Rightarrow> u8 list" where
  "mark_usable_step total_pages entry bitmap =
     (if mm_type entry \<noteq> 1 then bitmap
      else
        let base = mmap_base entry;
            limit = base + mmap_length entry
        in if base > MAX_PHYSICAL_ADDRESS \<or> limit \<le> base then bitmap
        else
          let limit = (if limit > MAX_PHYSICAL_ADDRESS then MAX_PHYSICAL_ADDRESS else limit);
              base = page_floor (base + word_of_nat PAGE_SIZE - 1);
              limit = page_floor limit
          in if limit \<le> base then bitmap
          else
            let start_page = unat base div PAGE_SIZE;
                end_page = min (unat limit div PAGE_SIZE) total_pages
            in fold (\<lambda>p b. bitmap_unmark b p) [start_page..<end_page] bitmap)"

definition memory_mark_usable :: "nat \<Rightarrow> mmap_entry list \<Rightarrow> u8 list \<Rightarrow> u8 list" where
  "memory_mark_usable total_pages mmap bitmap = fold (mark_usable_step total_pages) mmap bitmap"

definition memory_reserve_range :: "nat \<Rightarrow> nat \<Rightarrow> nat \<Rightarrow> u8 list \<Rightarrow> u8 list" where
  "memory_reserve_range total_pages start limit bitmap =
     (let start_page = start div PAGE_SIZE;
          aligned_end = align_up limit PAGE_SIZE
      in if aligned_end = 0 \<or> limit \<le> start then bitmap
         else
           let end_page = min (aligned_end div PAGE_SIZE) total_pages
           in fold (\<lambda>p b. bitmap_mark b p) [start_page..<end_page] bitmap)"

definition memory_initialize_page_zones :: "nat \<Rightarrow> u8 list \<Rightarrow> u8 list \<Rightarrow> u8 list" where
  "memory_initialize_page_zones total_pages bitmap owner =
     (let heap_start_page = HEAP_START div PAGE_SIZE;
          heap_end_page = min ((HEAP_START + HEAP_SIZE) div PAGE_SIZE) total_pages;
          owner = fold (\<lambda>page ow. pmm_set_page_tag ow page
                          (if bitmap_test bitmap page then PMM_ZONE_TAG_RESERVED_KERNEL
                           else PMM_ZONE_TAG_FREE)) [0..<total_pages] owner
      in fold (\<lambda>page ow. pmm_set_page_tag ow page PMM_ZONE_TAG_RESERVED_HEAP)
           [heap_start_page..<heap_end_page] owner)"

definition memory_recount :: "pmm_state \<Rightarrow> pmm_state" where
  "memory_recount st =
     (let n = fold (\<lambda>p n. if \<not> bitmap_test (the (pm_bitmap st)) p then n + 1 else n)
                [0..<pm_total_pages st] (0 :: u32)
      in st\<lparr>pm_free_pages := n, pm_free_memory := n * word_of_nat PAGE_SIZE,
            pm_used_memory := pm_total_memory st - n * word_of_nat PAGE_SIZE\<rparr>)"

text \<open>
  \<^verbatim>\<open>memory_init\<close>: each call of \<^verbatim>\<open>panic_memory\<close>, which does not return, is an error value.
  The map read at \<^verbatim>\<open>mmap_addr\<close>, whose count is stored before it, is the argument \<open>mmap\<close>.
\<close>

datatype memory_panic =
    PANIC_NO_MAP | PANIC_EMPTY_MAP | PANIC_TOO_SMALL | PANIC_LAYOUT | PANIC_BITMAPS | PANIC_NO_FREE

definition memory_init :: "u32 \<Rightarrow> mmap_entry list \<Rightarrow> u8 list \<Rightarrow> memory_panic + pmm_state" where
  "memory_init mmap_addr mmap storage =
     (if mmap_addr = 0 then Inl PANIC_NO_MAP
      else if length mmap = 0 then Inl PANIC_EMPTY_MAP
      else
        let total_memory = memory_find_total mmap;
            total_pages = unat total_memory div PAGE_SIZE
        in if unat total_memory < MIN_USABLE_MEMORY_END then Inl PANIC_TOO_SMALL
        else if \<not> memory_range_is_usable mmap PMM_BITMAP_STORAGE_START KERNEL_STACK_TOP \<or>
                \<not> memory_range_is_usable mmap KERNEL_START KERNEL_END \<or>
                \<not> memory_range_is_usable mmap HEAP_START (HEAP_START + HEAP_SIZE)
        then Inl PANIC_LAYOUT
        else
          let bitmap_size = align_up ((total_pages + 7) div 8) PAGE_SIZE;
              zone_storage_size = align_up (PMM_ZONE_STORAGE_BYTES total_pages) PAGE_SIZE
          in if bitmap_size = 0 \<or> zone_storage_size = 0 \<or>
                bitmap_size > PMM_ZONE_STORAGE_CAPACITY \<or>
                zone_storage_size > PMM_ZONE_STORAGE_CAPACITY - bitmap_size
          then Inl PANIC_BITMAPS
          else
            let bitmap = kmemset (take bitmap_size storage) 0xFF bitmap_size;
                owner = kmemset (take zone_storage_size (drop bitmap_size storage)) 0
                          zone_storage_size;
                bitmap = memory_mark_usable total_pages mmap bitmap;
                bitmap = memory_reserve_range total_pages 0 PHYSICAL_IDENTITY_START bitmap;
                owner = memory_initialize_page_zones total_pages bitmap owner;
                st = memory_recount
                  \<lparr>pm_total_memory = total_memory, pm_free_memory = 0, pm_used_memory = 0,
                   pm_total_pages = total_pages, pm_free_pages = 0, pm_bitmap_size = bitmap_size,
                   pm_bitmap = Some bitmap, pm_mmap = mmap, pm_owner_bitmap = Some owner,
                   pm_owner_bitmap_size = zone_storage_size, pm_owned_pages = 0,
                   pm_allocation_failures = 0, pm_invalid_frees = 0\<rparr>
            in if pm_free_pages st = 0 then Inl PANIC_NO_FREE else Inr st)"

section \<open>Allocation and release\<close>

text \<open>One iteration of the claiming and of the releasing loop updates both arrays.\<close>

definition claim_page :: "u8 \<Rightarrow> nat \<Rightarrow> u8 list \<times> u8 list \<Rightarrow> u8 list \<times> u8 list" where
  "claim_page tag page = (\<lambda>(bitmap, owner). (bitmap_mark bitmap page, pmm_set_page_tag owner page tag))"

definition release_page :: "nat \<Rightarrow> u8 list \<times> u8 list \<Rightarrow> u8 list \<times> u8 list" where
  "release_page page =
     (\<lambda>(bitmap, owner). (bitmap_unmark bitmap page, pmm_set_page_tag owner page PMM_ZONE_TAG_FREE))"

definition pmm_claim_pages :: "pmm_state \<Rightarrow> nat \<Rightarrow> nat \<Rightarrow> u8 \<Rightarrow> pmm_state" where
  "pmm_claim_pages st first_page count tag =
     (let (bitmap, owner) = fold (claim_page tag) [first_page..<first_page + count]
                              (the (pm_bitmap st), the (pm_owner_bitmap st));
          n = word_of_nat count
      in st\<lparr>pm_bitmap := Some bitmap, pm_owner_bitmap := Some owner,
            pm_owned_pages := pm_owned_pages st + n,
            pm_free_pages := pm_free_pages st - n,
            pm_used_memory := pm_used_memory st + n * word_of_nat PAGE_SIZE,
            pm_free_memory := pm_free_memory st - n * word_of_nat PAGE_SIZE\<rparr>)"

definition pmm_release_pages :: "pmm_state \<Rightarrow> nat \<Rightarrow> nat \<Rightarrow> pmm_state" where
  "pmm_release_pages st first_page count =
     (let (bitmap, owner) = fold release_page [first_page..<first_page + count]
                              (the (pm_bitmap st), the (pm_owner_bitmap st));
          n = word_of_nat count
      in st\<lparr>pm_bitmap := Some bitmap, pm_owner_bitmap := Some owner,
            pm_owned_pages := pm_owned_pages st - n,
            pm_free_pages := pm_free_pages st + n,
            pm_used_memory := pm_used_memory st - n * word_of_nat PAGE_SIZE,
            pm_free_memory := pm_free_memory st + n * word_of_nat PAGE_SIZE\<rparr>)"

abbreviation pmm_count_invalid :: "pmm_state \<Rightarrow> pmm_state" where
  "pmm_count_invalid \<equiv> pm_invalid_frees_update (\<lambda>n. n + 1)"

abbreviation pmm_count_failure :: "pmm_state \<Rightarrow> pmm_state" where
  "pmm_count_failure \<equiv> pm_allocation_failures_update (\<lambda>n. n + 1)"

definition pmm_validate_release :: "pmm_state \<Rightarrow> u32 \<Rightarrow> nat \<Rightarrow> bool \<times> pmm_state" where
  "pmm_validate_release st addr count =
     (if \<not> pmm_is_ready st then (False, pmm_count_invalid st)
      else if addr = 0 \<or> count = 0 then (False, pmm_count_invalid st)
      else if addr AND (word_of_nat PAGE_SIZE - 1) \<noteq> 0 then (False, pmm_count_invalid st)
      else
        let first_page = unat addr div PAGE_SIZE in
        if first_page \<ge> pm_total_pages st \<or> count > pm_total_pages st - first_page
        then (False, pmm_count_invalid st)
        else if list_ex (\<lambda>page. \<not> pmm_page_is_owned st page \<or> pmm_page_is_free st page)
                  [first_page..<first_page + count]
        then (False, pmm_count_invalid st)
        else (True, st))"

text \<open>The search: the first index from which \<open>count\<close> pages are free.\<close>

definition run_is_free :: "pmm_state \<Rightarrow> nat \<Rightarrow> nat \<Rightarrow> bool" where
  "run_is_free st i count \<longleftrightarrow> list_all (\<lambda>j. pmm_page_is_free st (i + j)) [0..<count]"

definition pmm_alloc_pages_in_zone :: "pmm_state \<Rightarrow> nat \<Rightarrow> memory_zone \<Rightarrow> u32 \<times> pmm_state" where
  "pmm_alloc_pages_in_zone st count zone =
     (if \<not> pmm_is_ready st then (0, pmm_count_failure st)
      else if \<not> pmm_zone_is_allocatable zone then (0, pmm_count_failure st)
      else if count = 0 \<or> count > pm_total_pages st then (0, pmm_count_failure st)
      else
        case first_index (\<lambda>i. run_is_free st i count) [0..<Suc (pm_total_pages st - count)] of
          Some i \<Rightarrow> (word_of_nat (i * PAGE_SIZE), pmm_claim_pages st i count (pmm_zone_to_tag zone))
        | None \<Rightarrow> (0, pmm_count_failure st))"

definition pmm_alloc_page_in_zone :: "pmm_state \<Rightarrow> memory_zone \<Rightarrow> u32 \<times> pmm_state" where
  "pmm_alloc_page_in_zone st zone = pmm_alloc_pages_in_zone st 1 zone"

definition pmm_alloc_page :: "pmm_state \<Rightarrow> u32 \<times> pmm_state" where
  "pmm_alloc_page st = pmm_alloc_page_in_zone st MEMORY_ZONE_KERNEL"

definition pmm_alloc_pages :: "pmm_state \<Rightarrow> nat \<Rightarrow> u32 \<times> pmm_state" where
  "pmm_alloc_pages st count = pmm_alloc_pages_in_zone st count MEMORY_ZONE_KERNEL"

definition pmm_free_pages :: "pmm_state \<Rightarrow> u32 \<Rightarrow> nat \<Rightarrow> pmm_state" where
  "pmm_free_pages st addr count =
     (let (valid, st) = pmm_validate_release st addr count
      in if \<not> valid then st else pmm_release_pages st (unat addr div PAGE_SIZE) count)"

definition pmm_free_page :: "pmm_state \<Rightarrow> u32 \<Rightarrow> pmm_state" where
  "pmm_free_page st addr =
     (let (valid, st) = pmm_validate_release st addr 1
      in if \<not> valid then st else pmm_release_pages st (unat addr div PAGE_SIZE) 1)"

section \<open>Statistics\<close>

record memory_pmm_stats =
  ps_owned_pages :: u32
  ps_allocation_failures :: u32
  ps_invalid_frees :: u32
  ps_initialized :: bool

definition memory_get_pmm_stats :: "pmm_state \<Rightarrow> memory_pmm_stats" where
  "memory_get_pmm_stats st = \<lparr>ps_owned_pages = pm_owned_pages st,
     ps_allocation_failures = pm_allocation_failures st, ps_invalid_frees = pm_invalid_frees st,
     ps_initialized = pmm_is_ready st\<rparr>"

text \<open>\<^verbatim>\<open>zone_pages\<close> is indexed by the zones in the order of the enumeration.\<close>

definition zone_index :: "memory_zone \<Rightarrow> nat" where
  "zone_index zone =
     (case zone of MEMORY_ZONE_KERNEL \<Rightarrow> 0 | MEMORY_ZONE_HEAP \<Rightarrow> 1 | MEMORY_ZONE_SLAB \<Rightarrow> 2
      | MEMORY_ZONE_PROCESS \<Rightarrow> 3 | MEMORY_ZONE_BUFFER \<Rightarrow> 4 | MEMORY_ZONE_FREE \<Rightarrow> 5
      | MEMORY_ZONE_COUNT \<Rightarrow> 6)"

record memory_detailed_stats =
  ds_total_pages :: nat
  ds_zone_pages :: "u32 list"
  ds_free_runs :: u32
  ds_largest_free_run :: u32
  ds_isolated_free_pages :: u32
  ds_fragmentation_percent :: u32
  ds_initialized :: bool
  ds_valid :: bool

definition memory_detailed_stats_zero :: memory_detailed_stats where
  "memory_detailed_stats_zero = \<lparr>ds_total_pages = 0, ds_zone_pages = replicate 6 0, ds_free_runs = 0,
     ds_largest_free_run = 0, ds_isolated_free_pages = 0, ds_fragmentation_percent = 0,
     ds_initialized = False, ds_valid = False\<rparr>"

definition memory_record_free_run :: "memory_detailed_stats \<Rightarrow> u32 \<Rightarrow> memory_detailed_stats" where
  "memory_record_free_run stats run_length =
     (if run_length = 0 then stats
      else
        let stats = ds_free_runs_update (\<lambda>n. n + 1) stats;
            stats = (if run_length = 1 then ds_isolated_free_pages_update (\<lambda>n. n + 1) stats else stats)
        in if run_length > ds_largest_free_run stats
           then stats\<lparr>ds_largest_free_run := run_length\<rparr> else stats)"

text \<open>
  The page loop carries the statistics, the length of the current free run and the count of
  dynamically owned pages; \<open>Inl\<close> holds the statistics at an inconsistent page.
\<close>

fun stats_loop ::
  "pmm_state \<Rightarrow> nat list \<Rightarrow> memory_detailed_stats \<times> u32 \<times> u32 \<Rightarrow>
   memory_detailed_stats + memory_detailed_stats \<times> u32 \<times> u32" where
  "stats_loop st [] acc = Inr acc"
| "stats_loop st (page # rest) (stats, free_run, dynamic_pages) =
     (let tag = pmm_get_page_tag (the (pm_owner_bitmap st)) page;
          zone = pmm_tag_to_zone tag;
          free_page = pmm_page_is_free st page
      in if zone = MEMORY_ZONE_COUNT \<or> free_page \<and> zone \<noteq> MEMORY_ZONE_FREE \<or>
            \<not> free_page \<and> zone = MEMORY_ZONE_FREE
      then Inl stats
      else
        let stats = ds_zone_pages_update (\<lambda>z. z[zone_index zone := z ! zone_index zone + 1]) stats;
            dynamic_pages = (if tag \<ge> PMM_ZONE_TAG_KERNEL \<and> tag \<le> PMM_ZONE_TAG_BUFFER
                             then dynamic_pages + 1 else dynamic_pages)
        in if free_page then stats_loop st rest (stats, free_run + 1, dynamic_pages)
           else stats_loop st rest (memory_record_free_run stats free_run, 0, dynamic_pages))"

definition memory_get_detailed_stats ::
  "pmm_state \<Rightarrow> bool \<Rightarrow> status \<times> memory_detailed_stats option" where
  "memory_get_detailed_stats st has_out =
     (if \<not> has_out then (ERR_NULL, None)
      else
        let stats = memory_detailed_stats_zero\<lparr>ds_initialized := pmm_is_ready st\<rparr> in
        if \<not> ds_initialized stats then (ERR_STATE, Some stats)
        else
          case stats_loop st [0..<pm_total_pages st]
                 (stats\<lparr>ds_total_pages := pm_total_pages st\<rparr>, 0, 0) of
            Inl stats \<Rightarrow> (ERR_STATE, Some stats)
          | Inr (stats, free_run, dynamic_pages) \<Rightarrow>
              let stats = memory_record_free_run stats free_run;
                  zone_sum = sum_list (ds_zone_pages stats);
                  free_zone = ds_zone_pages stats ! zone_index MEMORY_ZONE_FREE
              in if free_zone \<noteq> pm_free_pages st \<or> dynamic_pages \<noteq> pm_owned_pages st \<or>
                    zone_sum \<noteq> word_of_nat (ds_total_pages stats)
              then (ERR_STATE, Some stats)
              else
                let stats = (if free_zone \<noteq> 0
                             then stats\<lparr>ds_fragmentation_percent :=
                               ((free_zone - ds_largest_free_run stats) * 100) div free_zone\<rparr>
                             else stats)
                in (OK, Some (stats\<lparr>ds_valid := True\<rparr>)))"

end
