(* ===== verification/Packed.thy ===== *)
theory Packed
  imports Prelude
begin

text \<open>
  Arrays of small values packed into bytes. The locale \<open>packed_array\<close> states what a reader
  and a writer of one cell promise each other; its lemmas give the effect of the loops that
  write a range of cells. The page allocator provides two instances: one bit per page and
  three bits per page.
\<close>

locale packed_array =
  fixes get :: "'m \<Rightarrow> nat \<Rightarrow> 'v" and put :: "nat \<Rightarrow> 'v \<Rightarrow> 'm \<Rightarrow> 'm"
    and cells :: "'m \<Rightarrow> nat" and fits :: "'v \<Rightarrow> bool"
  assumes cells_put: "cells (put i v m) = cells m"
    and get_put: "i < cells m \<Longrightarrow> j < cells m \<Longrightarrow> fits v \<Longrightarrow>
      get (put i v m) j = (if j = i then v else get m j)"
begin

lemma cells_fold: "cells (fold (\<lambda>i. put i (f i)) is m) = cells m"
  by (induction "is" arbitrary: m) (simp_all add: cells_put)

lemma get_fold:
  "(\<forall>i \<in> set is. i < cells m \<and> fits (f i)) \<Longrightarrow> j < cells m \<Longrightarrow>
   get (fold (\<lambda>i. put i (f i)) is m) j = (if j \<in> set is then f j else get m j)"
proof (induction "is" arbitrary: m)
  case (Cons i "is")
  then show ?case by (auto simp: cells_put get_put)
qed simp

lemma get_fold_range:
  "b \<le> cells m \<Longrightarrow> (\<And>i. fits (f i)) \<Longrightarrow> j < cells m \<Longrightarrow>
   get (fold (\<lambda>i. put i (f i)) [a..<b] m) j = (if a \<le> j \<and> j < b then f j else get m j)"
  by (subst get_fold) auto

end

section \<open>Bits of a byte list\<close>

definition byte_bit :: "u8 list \<Rightarrow> nat \<Rightarrow> bool" where
  "byte_bit bs k = bit (bs ! (k div 8)) (k mod 8)"

lemma byte_bit_update:
  "i < length bs \<Longrightarrow>
   byte_bit (bs[i := w]) k = (if k div 8 = i then bit w (k mod 8) else byte_bit bs k)"
  by (simp add: byte_bit_def nth_list_update)

lemma byte_index_less: "k < 8 * length bs \<Longrightarrow> k div 8 < length bs"
  by (simp add: less_mult_imp_div_less mult.commute)

end
