(* ===== verification/Page_Source.thy ===== *)
theory Page_Source
  imports Pmm
begin

text \<open>
  What a client of the physical page allocator relies on. \<open>page_source\<close> fixes the two
  operations with the allocator's invariant and the set of pages it has handed out; the
  lemmas inside show that a client that keeps a table of runs, takes them from the source
  and gives them back, always holds pairwise disjoint runs of pages it owns.
\<close>

definition page_run :: "u32 \<Rightarrow> nat \<Rightarrow> nat set" where
  "page_run a n = {unat a div PAGE_SIZE..<unat a div PAGE_SIZE + n}"

definition run_fits :: "nat set \<Rightarrow> u32 \<Rightarrow> nat \<Rightarrow> bool" where
  "run_fits owned a n \<longleftrightarrow>
     a \<noteq> 0 \<and> PAGE_SIZE dvd unat a \<and> 0 < n \<and> unat a + n * PAGE_SIZE < 2 ^ 32 \<and> page_run a n \<subseteq> owned"

definition holds_runs :: "nat set \<Rightarrow> ('i \<Rightarrow> (u32 \<times> nat) option) \<Rightarrow> bool" where
  "holds_runs owned H \<longleftrightarrow>
     (\<forall>i a n. H i = Some (a, n) \<longrightarrow> run_fits owned a n) \<and>
     (\<forall>i j a n b m. i \<noteq> j \<and> H i = Some (a, n) \<and> H j = Some (b, m) \<longrightarrow> disjnt (page_run a n) (page_run b m))"

lemma holds_runsD:
  "holds_runs owned H \<Longrightarrow> H i = Some (a, n) \<Longrightarrow> run_fits owned a n"
  "holds_runs owned H \<Longrightarrow> i \<noteq> j \<Longrightarrow> H i = Some (a, n) \<Longrightarrow> H j = Some (b, m) \<Longrightarrow> disjnt (page_run a n) (page_run b m)"
  by (auto simp: holds_runs_def)

locale page_source =
  fixes alloc :: "'s \<Rightarrow> nat \<Rightarrow> u32 \<times> 's" and free :: "'s \<Rightarrow> u32 \<Rightarrow> nat \<Rightarrow> 's"
    and inv :: "'s \<Rightarrow> bool" and owned :: "'s \<Rightarrow> nat set"
  assumes alloc_inv: "inv s \<Longrightarrow> inv (snd (alloc s n))"
    and free_inv: "inv s \<Longrightarrow> inv (free s a n)"
    and alloc_some: "inv s \<Longrightarrow> alloc s n = (a, t) \<Longrightarrow> a \<noteq> 0 \<Longrightarrow>
      run_fits (owned t) a n \<and> owned t = owned s \<union> page_run a n \<and> owned s \<inter> page_run a n = {}"
    and alloc_none: "inv s \<Longrightarrow> alloc s n = (0, t) \<Longrightarrow> owned t = owned s"
    and free_run: "inv s \<Longrightarrow> run_fits (owned s) a n \<Longrightarrow> owned (free s a n) = owned s - page_run a n"
begin

lemma hold_take:
  assumes "inv s" and "holds_runs (owned s) H" and "alloc s n = (a, t)" and "a \<noteq> 0" and "H i = None"
  shows "holds_runs (owned t) (H(i \<mapsto> (a, n)))"
proof -
  note al = alloc_some [OF assms(1,3,4)]
  have fresh: "disjnt (page_run b m) (page_run a n)" if "H j = Some (b, m)" for j b m
    using holds_runsD(1) [OF assms(2) that] al by (auto simp: run_fits_def disjnt_def)
  have old: "run_fits (owned t) b m" if "H j = Some (b, m)" for j b m
    using holds_runsD(1) [OF assms(2) that] al by (auto simp: run_fits_def)
  show ?thesis
    unfolding holds_runs_def
    using al old fresh holds_runsD(2) [OF assms(2)] by (auto simp: disjnt_sym)
qed

lemma hold_keep:
  assumes "inv s" and "holds_runs (owned s) H" and "alloc s n = (0, t)"
  shows "holds_runs (owned t) H"
  using assms alloc_none by simp

lemma hold_drop:
  assumes "inv s" and "holds_runs (owned s) H" and "H i = Some (a, n)"
  shows "holds_runs (owned (free s a n)) (H(i := None))"
proof -
  have "owned (free s a n) = owned s - page_run a n"
    by (rule free_run [OF assms(1) holds_runsD(1) [OF assms(2,3)]])
  then have "run_fits (owned (free s a n)) b m" if "H j = Some (b, m)" "j \<noteq> i" for j b m
    using holds_runsD(1) [OF assms(2) that(1)] holds_runsD(2) [OF assms(2) that(2,1) assms(3)]
    by (auto simp: run_fits_def disjnt_def)
  then show ?thesis
    unfolding holds_runs_def using holds_runsD(2) [OF assms(2)] by (auto split: if_splits)
qed

end

end
