(* ===== verification/Pmm_Correct.thy ===== *)
theory Pmm_Correct
  imports Pmm Packed Page_Source
begin

text \<open>
  Correctness of the physical page allocator: the bitmap and the packed tags are two
  instances of a packed array, every operation keeps bitmap, tags and counters consistent,
  allocation is first fit over the free pages, a release undoes an allocation and rejects
  everything else, and the statistics report the true state.
\<close>

section \<open>One bit per page\<close>

lemma bitmap_test_eq: "bitmap_test b p = byte_bit b p"
  by (simp add: bitmap_test_def byte_bit_def bit_iff_and_push_bit_not_eq_0)

lemma bit_push_1: "n < 8 \<Longrightarrow> bit (push_bit n (1 :: u8)) k \<longleftrightarrow> k = n"
  by (auto simp: bit_push_bit_iff bit_1_iff simp del: push_bit_of_1)

lemma div_mod_8_eq: "k div 8 = p div 8 \<Longrightarrow> k mod 8 = p mod 8 \<longleftrightarrow> k = p" for k p :: nat
  by (metis div_mult_mod_eq)

definition bitmap_put :: "nat \<Rightarrow> bool \<Rightarrow> u8 list \<Rightarrow> u8 list" where
  "bitmap_put p v b = (if v then bitmap_mark b p else bitmap_unmark b p)"

lemma byte_bit_mark:
  assumes "p < 8 * length b"
  shows "byte_bit (bitmap_mark b p) k = (k = p \<or> byte_bit b k)"
proof (cases "k div 8 = p div 8")
  case True
  then show ?thesis
    using div_mod_8_eq [OF True] byte_index_less [OF assms]
    by (simp add: bitmap_mark_def byte_bit_update bit_or_iff bit_push_1 del: push_bit_of_1)
      (auto simp: byte_bit_def)
next
  case False
  then show ?thesis
    using byte_index_less [OF assms] by (auto simp: bitmap_mark_def byte_bit_update)
qed

lemma byte_bit_unmark:
  assumes "p < 8 * length b"
  shows "byte_bit (bitmap_unmark b p) k = (k \<noteq> p \<and> byte_bit b k)"
proof (cases "k div 8 = p div 8")
  case True
  then show ?thesis
    using div_mod_8_eq [OF True] byte_index_less [OF assms]
    by (simp add: bitmap_unmark_def byte_bit_update bit_and_iff bit_not_iff bit_push_1
        del: push_bit_of_1) (auto simp: byte_bit_def)
next
  case False
  then show ?thesis
    using byte_index_less [OF assms] by (auto simp: bitmap_unmark_def byte_bit_update)
qed

interpretation pages: packed_array bitmap_test bitmap_put "\<lambda>b. 8 * length b" "\<lambda>_. True"
proof
  fix i v and m :: "u8 list"
  show "8 * length (bitmap_put i v m) = 8 * length m"
    by (simp add: bitmap_put_def bitmap_mark_def bitmap_unmark_def)
next
  fix i j v and m :: "u8 list"
  assume "i < 8 * length m"
  then show "bitmap_test (bitmap_put i v m) j = (if j = i then v else bitmap_test m j)"
    by (simp add: bitmap_put_def bitmap_test_eq byte_bit_mark byte_bit_unmark)
qed

section \<open>Three bits per page\<close>

text \<open>The 16-bit window that the tag routines read and write back.\<close>

definition tag_window :: "u8 list \<Rightarrow> nat \<Rightarrow> u16" where
  "tag_window bs p =
     (if p * 3 mod 8 > 5 then ucast (bs ! (p * 3 div 8)) OR push_bit 8 (ucast (bs ! (p * 3 div 8 + 1)))
      else ucast (bs ! (p * 3 div 8)))"

lemma bit_tag_window:
  assumes "j < (if p * 3 mod 8 > 5 then 16 else 8)"
  shows "bit (tag_window bs p) j = byte_bit bs (8 * (p * 3 div 8) + j)"
proof (cases "j < 8")
  case True
  then show ?thesis
    by (simp add: tag_window_def byte_bit_def bit_or_iff bit_push_bit_iff bit_ucast_iff)
next
  case False
  define i where "i = j - 8"
  then have i: "j = 8 + i" "i < 8" using False assms by (auto split: if_splits)
  moreover have "p * 3 mod 8 > 5" using False assms by (auto split: if_splits)
  moreover have "\<not> bit (bs ! (p * 3 div 8)) (8 + i)" using bit_imp_le_length [of "bs ! (p * 3 div 8)" "8 + i"] by auto
  moreover have "(8 + i) div 8 = 1" using i(2) by simp
  ultimately show ?thesis
    by (simp add: tag_window_def byte_bit_def bit_or_iff bit_push_bit_iff bit_ucast_iff)
qed

lemma pmm_get_page_tag_eq: "pmm_get_page_tag bs p = ucast (drop_bit (p * 3 mod 8) (tag_window bs p) AND 7)"
  by (simp add: pmm_get_page_tag_def tag_window_def Let_def PMM_ZONE_TAG_BITS_def)

lemma bit_7: "bit (7 :: u16) i \<longleftrightarrow> i < 3" "bit (7 :: u8) i \<longleftrightarrow> i < 3"
proof -
  have "(7 :: u16) = mask 3" "(7 :: u8) = mask 3" by (simp_all add: mask_eq_exp_minus_1)
  then show "bit (7 :: u16) i \<longleftrightarrow> i < 3" "bit (7 :: u8) i \<longleftrightarrow> i < 3" by (auto simp only: bit_mask_iff) simp_all
qed

lemma bit_7_int: "bit (7 :: int) i \<longleftrightarrow> i < 3"
proof -
  have "(7 :: int) = mask 3" by (simp add: mask_eq_exp_minus_1)
  then show ?thesis by (simp only: bit_mask_iff) simp
qed

lemma bit_page_tag: "bit (pmm_get_page_tag bs p) i \<longleftrightarrow> i < 3 \<and> byte_bit bs (3 * p + i)"
proof (cases "i < 3")
  case True
  have "p * 3 mod 8 + i < (if p * 3 mod 8 > 5 then 16 else 8)" using True by auto
  from bit_tag_window [OF this, of bs]
  have "bit (tag_window bs p) (p * 3 mod 8 + i) = byte_bit bs (3 * p + i)"
    by (simp add: add.assoc [symmetric] mult.commute)
  then show ?thesis
    unfolding pmm_get_page_tag_eq bit_ucast_iff bit_and_iff bit_7(1) bit_drop_bit_eq comp_def
    using True by simp
next
  case False
  then show ?thesis by (simp add: pmm_get_page_tag_eq bit_ucast_iff bit_and_iff bit_7_int)
qed


definition tag_written :: "u8 list \<Rightarrow> nat \<Rightarrow> u8 \<Rightarrow> u16" where
  "tag_written bs p tag =
     (tag_window bs p AND NOT (push_bit (p * 3 mod 8) 7)) OR push_bit (p * 3 mod 8) (ucast (tag AND 7))"

lemma pmm_set_page_tag_eq:
  "pmm_set_page_tag bs p tag =
     (let bs' = bs[p * 3 div 8 := ucast (tag_written bs p tag)]
      in if p * 3 mod 8 > 5 then bs'[p * 3 div 8 + 1 := ucast (drop_bit 8 (tag_written bs p tag))] else bs')"
  unfolding pmm_set_page_tag_def tag_written_def tag_window_def Let_def PMM_ZONE_TAG_BITS_def
  by (simp only: split: if_split)

lemma bit_tag_written:
  assumes "j < (if p * 3 mod 8 > 5 then 16 else 8)"
  shows "bit (tag_written bs p tag) j =
    (if 3 * p \<le> 8 * (p * 3 div 8) + j \<and> 8 * (p * 3 div 8) + j < 3 * p + 3
     then bit tag (8 * (p * 3 div 8) + j - 3 * p) else byte_bit bs (8 * (p * 3 div 8) + j))"
proof -
  define s q where "s = p * 3 mod 8" and "q = 8 * (p * 3 div 8)"
  then have p: "3 * p = q + s" by simp
  have j: "j < 16" using assms by (auto split: if_splits)
  have w: "bit (tag_window bs p) j = byte_bit bs (q + j)"
    using bit_tag_window [OF assms, of bs] by (simp only: q_def)
  have "bit (tag_written bs p tag) j =
    (bit (tag_window bs p) j \<and> \<not> (s \<le> j \<and> j - s < 3) \<or> s \<le> j \<and> bit tag (j - s) \<and> j - s < 3)"
    unfolding tag_written_def bit_or_iff bit_and_iff bit_not_iff bit_push_bit_iff bit_ucast_iff bit_7
      s_def [symmetric]
    using j by auto
  then show ?thesis
    unfolding w p q_def [symmetric] by auto
qed

lemma byte_bit_set_tag:
  assumes "3 * p + 2 < 8 * length bs"
  shows "byte_bit (pmm_set_page_tag bs p tag) k =
    (if 3 * p \<le> k \<and> k < 3 * p + 3 then bit tag (k - 3 * p) else byte_bit bs k)"
proof -
  define b s where "b = p * 3 div 8" and "s = p * 3 mod 8"
  have p: "3 * p = 8 * b + s" "s < 8" by (simp_all add: b_def s_def)
  have lb: "b < length bs" and lb1: "s > 5 \<Longrightarrow> b + 1 < length bs" using assms p by auto
  have k: "k = 8 * (k div 8) + k mod 8" "k mod 8 < 8" by simp_all
  have wr: "bit (tag_written bs p tag) j =
      (if 3 * p \<le> 8 * b + j \<and> 8 * b + j < 3 * p + 3 then bit tag (8 * b + j - 3 * p)
       else byte_bit bs (8 * b + j))" if "j < (if s > 5 then 16 else 8)" for j
    using bit_tag_written [of j p bs tag] that by (simp only: b_def s_def)
  let ?w = "tag_written bs p tag"
  have eq: "pmm_set_page_tag bs p tag =
      (if s > 5 then bs[b := ucast ?w, b + 1 := ucast (drop_bit 8 ?w)] else bs[b := ucast ?w])"
    by (simp add: pmm_set_page_tag_eq b_def s_def Let_def)
  consider "k div 8 = b" | "k div 8 = b + 1" "s > 5" | "k div 8 \<noteq> b" "\<not> (k div 8 = b + 1 \<and> s > 5)" by blast
  then show ?thesis
  proof cases
    case 1
    then have "byte_bit (pmm_set_page_tag bs p tag) k = bit ?w (k mod 8)"
      using lb lb1 by (simp add: eq byte_bit_update bit_ucast_iff)
    moreover have e: "8 * b + k mod 8 = k" using 1 k by simp
    have lt: "k mod 8 < (if s > 5 then 16 else 8)" using k(2) by auto
    ultimately show ?thesis using wr [OF lt] unfolding e by (simp only:)
  next
    case 2
    then have "byte_bit (pmm_set_page_tag bs p tag) k = bit ?w (8 + k mod 8)"
      using lb lb1 by (simp add: eq byte_bit_update bit_ucast_iff bit_drop_bit_eq)
    moreover have "8 * b + (8 + k mod 8) = k" using 2 k by simp
    moreover have "8 + k mod 8 < 16" by simp
    ultimately show ?thesis using wr [of "8 + k mod 8"] 2(2) by simp
  next
    case 3
    then have "byte_bit (pmm_set_page_tag bs p tag) k = byte_bit bs k"
      using lb lb1 by (auto simp: eq byte_bit_update)
    moreover have "k div 8 = b" if "8 * b \<le> k" "k < 8 * b + 8" using that by (intro div_nat_eqI) auto
    moreover have "k div 8 = b + 1" if "8 * b + 8 \<le> k" "k < 8 * b + 16" using that by (intro div_nat_eqI) auto
    ultimately have "\<not> (3 * p \<le> k \<and> k < 3 * p + 3)" unfolding p(1) using 3 p(2) by linarith
    moreover note \<open>byte_bit (pmm_set_page_tag bs p tag) k = byte_bit bs k\<close>
    ultimately show ?thesis by auto
  qed
qed

lemma length_set_tag [simp]: "length (pmm_set_page_tag bs p tag) = length bs"
  by (simp add: pmm_set_page_tag_eq Let_def)

lemma page_tag_less: "pmm_get_page_tag bs p < 8"
proof -
  have "pmm_get_page_tag bs p = pmm_get_page_tag bs p AND mask 3"
    by (rule bit_word_eqI) (auto simp: bit_and_iff bit_mask_iff bit_page_tag)
  then have "pmm_get_page_tag bs p = take_bit 3 (pmm_get_page_tag bs p)" by (simp add: take_bit_eq_mask)
  then have "unat (pmm_get_page_tag bs p) < 2 ^ 3"
    by (metis take_bit_nat_less_exp unsigned_take_bit_eq)
  then show ?thesis by (simp add: word_less_nat_alt)
qed

interpretation tags: packed_array pmm_get_page_tag "\<lambda>i v m. pmm_set_page_tag m i v" "\<lambda>m. 8 * length m div 3" "\<lambda>v. v < 8"
proof
  fix i j and v :: u8 and m :: "u8 list"
  assume i: "i < 8 * length m div 3" and v: "v < 8"
  then have b: "3 * i + 2 < 8 * length m" by simp
  have v3: "\<not> bit v k" if "3 \<le> k" for k
  proof -
    have "unat v < 2 ^ 3" using v by (simp add: word_less_nat_alt)
    then have "unat v < 2 ^ k" using that by (metis le_less_trans less_imp_le_nat nat_power_less_imp_less not_le one_less_numeral_iff order_less_le_trans power_increasing_iff semiring_norm(76))
    then have "\<not> bit (unat v) k" by (simp add: bit_iff_odd)
    then show ?thesis by (simp add: bit_unsigned_iff)
  qed
  show "pmm_get_page_tag (pmm_set_page_tag m i v) j = (if j = i then v else pmm_get_page_tag m j)"
  proof (rule bit_word_eqI)
    fix k assume "k < LENGTH(8)"
    show "bit (pmm_get_page_tag (pmm_set_page_tag m i v) j) k = bit (if j = i then v else pmm_get_page_tag m j) k"
      using v3 [of k] by (auto simp: bit_page_tag byte_bit_set_tag [OF b])
  qed
qed simp

section \<open>The invariant\<close>

abbreviation page_tag :: "pmm_state \<Rightarrow> nat \<Rightarrow> u8" where
  "page_tag st \<equiv> pmm_get_page_tag (the (pm_owner_bitmap st))"

definition free_set :: "pmm_state \<Rightarrow> nat set" where
  "free_set st = {p. p < pm_total_pages st \<and> pmm_page_is_free st p}"

definition owned_set :: "pmm_state \<Rightarrow> nat set" where
  "owned_set st = {p. p < pm_total_pages st \<and> pmm_page_is_owned st p}"

definition pmm_shape :: "pmm_state \<Rightarrow> bool" where
  "pmm_shape st \<longleftrightarrow>
     pmm_is_ready st \<and> pm_total_pages st \<le> 8 * length (the (pm_bitmap st)) \<and>
     pm_total_pages st \<le> 8 * length (the (pm_owner_bitmap st)) div 3 \<and> pm_total_pages st < 2 ^ 20"

definition pmm_inv :: "pmm_state \<Rightarrow> bool" where
  "pmm_inv st \<longleftrightarrow> pmm_shape st \<and>
     (\<forall>p < pm_total_pages st. page_tag st p \<noteq> 7 \<and> (pmm_page_is_free st p \<longleftrightarrow> page_tag st p = PMM_ZONE_TAG_FREE)) \<and>
     (\<forall>p < pm_total_pages st. p * PAGE_SIZE < PHYSICAL_IDENTITY_START \<longrightarrow>
        \<not> pmm_page_is_free st p \<and> \<not> pmm_page_is_owned st p) \<and>
     unat (pm_free_pages st) = card (free_set st) \<and> unat (pm_owned_pages st) = card (owned_set st) \<and>
     pm_free_memory st = pm_free_pages st * word_of_nat PAGE_SIZE \<and>
     pm_used_memory st = pm_total_memory st - pm_free_memory st"

lemma finite_page_sets [simp]: "finite (free_set st)" "finite (owned_set st)"
  by (simp_all add: free_set_def owned_set_def)

lemma claim_fold:
  "fold (claim_page tag) ps (b, ow) =
     (fold (\<lambda>p. bitmap_put p True) ps b, fold (\<lambda>p m. pmm_set_page_tag m p tag) ps ow)"
  by (induction ps arbitrary: b ow) (simp_all add: claim_page_def bitmap_put_def)

lemma release_fold:
  "fold release_page ps (b, ow) =
     (fold (\<lambda>p. bitmap_put p False) ps b, fold (\<lambda>p m. pmm_set_page_tag m p PMM_ZONE_TAG_FREE) ps ow)"
  by (induction ps arbitrary: b ow) (simp_all add: release_page_def bitmap_put_def)

lemma fold_put_lengths [simp]:
  "length (fold (\<lambda>p. bitmap_put p (f p)) ps b) = length b"
  "length (fold (\<lambda>p m. pmm_set_page_tag m p (g p)) ps ow) = length ow"
  by (induction ps arbitrary: b ow) (simp_all add: bitmap_put_def bitmap_mark_def bitmap_unmark_def)

lemma claim_frame [frame_simps]:
  "pm_total_pages (pmm_claim_pages st i n tag) = pm_total_pages st"
  "pm_total_memory (pmm_claim_pages st i n tag) = pm_total_memory st"
  "pmm_shape st \<Longrightarrow> pmm_shape (pmm_claim_pages st i n tag)"
  "pm_total_pages (pmm_release_pages st i n) = pm_total_pages st"
  "pm_total_memory (pmm_release_pages st i n) = pm_total_memory st"
  "pmm_shape st \<Longrightarrow> pmm_shape (pmm_release_pages st i n)"
  by (auto simp: pmm_claim_pages_def pmm_release_pages_def claim_fold release_fold Let_def
      pmm_shape_def pmm_is_ready_def)

lemma claim_pages_view:
  assumes "pmm_shape st" and "i + n \<le> pm_total_pages st" and "p < pm_total_pages st" and "tag < 8"
  shows "pmm_page_is_free (pmm_claim_pages st i n tag) p \<longleftrightarrow> pmm_page_is_free st p \<and> \<not> (i \<le> p \<and> p < i + n)"
    and "page_tag (pmm_claim_pages st i n tag) p = (if i \<le> p \<and> p < i + n then tag else page_tag st p)"
  using assms
  by (auto simp: pmm_claim_pages_def claim_fold Let_def pmm_page_is_free_def pmm_shape_def
      pages.get_fold_range tags.get_fold_range)

lemma release_pages_view:
  assumes "pmm_shape st" and "i + n \<le> pm_total_pages st" and "p < pm_total_pages st"
  shows "pmm_page_is_free (pmm_release_pages st i n) p \<longleftrightarrow> pmm_page_is_free st p \<or> (i \<le> p \<and> p < i + n)"
    and "page_tag (pmm_release_pages st i n) p = (if i \<le> p \<and> p < i + n then PMM_ZONE_TAG_FREE else page_tag st p)"
  using assms
  by (auto simp: pmm_release_pages_def release_fold Let_def pmm_page_is_free_def pmm_shape_def
      pages.get_fold_range tags.get_fold_range PMM_ZONE_TAG_FREE_def)

definition owned_tag :: "u8 \<Rightarrow> bool" where
  "owned_tag t \<longleftrightarrow> t \<ge> PMM_ZONE_TAG_KERNEL \<and> t \<le> PMM_ZONE_TAG_BUFFER"

lemma owned_tag_facts: "owned_tag t \<Longrightarrow> t < 8 \<and> t \<noteq> 7 \<and> t \<noteq> PMM_ZONE_TAG_FREE"
  by (auto simp: owned_tag_def pmm_tags word_le_nat_alt word_less_nat_alt)

lemma pmm_page_is_owned_iff: "pmm_page_is_owned st p \<longleftrightarrow> owned_tag (page_tag st p)"
  by (simp add: pmm_page_is_owned_def owned_tag_def Let_def)

lemma claim_sets:
  assumes "pmm_shape st" and "i + n \<le> pm_total_pages st" and "owned_tag tag"
  shows "free_set (pmm_claim_pages st i n tag) = free_set st - {i..<i + n}"
    and "owned_set (pmm_claim_pages st i n tag) = owned_set st \<union> {i..<i + n}"
  using assms owned_tag_facts [OF assms(3)]
  by (auto simp: free_set_def owned_set_def frame_simps claim_pages_view pmm_page_is_owned_iff split: if_splits)

lemma release_sets:
  assumes "pmm_shape st" and "i + n \<le> pm_total_pages st"
  shows "free_set (pmm_release_pages st i n) = free_set st \<union> {i..<i + n}"
    and "owned_set (pmm_release_pages st i n) = owned_set st - {i..<i + n}"
  using assms owned_tag_facts [of PMM_ZONE_TAG_FREE]
  by (auto simp: free_set_def owned_set_def frame_simps release_pages_view pmm_page_is_owned_iff split: if_splits)

lemma free_owned_disjoint: "pmm_inv st \<Longrightarrow> free_set st \<inter> owned_set st = {}"
  using owned_tag_facts by (fastforce simp: pmm_inv_def free_set_def owned_set_def pmm_page_is_owned_iff)

lemma card_page_sets:
  assumes "pmm_shape st"
  shows "card (free_set st) < 2 ^ 20" "card (owned_set st) < 2 ^ 20"
proof -
  have "card A < 2 ^ 20" if "A \<subseteq> {..<pm_total_pages st}" for A
    using assms card_mono [OF _ that] by (simp add: pmm_shape_def)
  moreover have "free_set st \<subseteq> {..<pm_total_pages st}" "owned_set st \<subseteq> {..<pm_total_pages st}"
    by (auto simp: free_set_def owned_set_def)
  ultimately show "card (free_set st) < 2 ^ 20" "card (owned_set st) < 2 ^ 20" by blast+
qed

lemma pmm_inv_memory:
  "pmm_inv st \<Longrightarrow> pm_free_memory st = pm_free_pages st * word_of_nat PAGE_SIZE"
  "pmm_inv st \<Longrightarrow> pm_used_memory st = pm_total_memory st - pm_free_pages st * word_of_nat PAGE_SIZE"
  by (simp_all add: pmm_inv_def)

lemma pmm_claim_inv:
  assumes inv: "pmm_inv st" and run: "{i..<i + n} \<subseteq> free_set st" and "i + n \<le> pm_total_pages st"
    and tag: "owned_tag tag"
  shows "pmm_inv (pmm_claim_pages st i n tag)"
proof -
  let ?st = "pmm_claim_pages st i n tag" and ?R = "{i..<i + n}"
  have sh: "pmm_shape st" using inv by (simp add: pmm_inv_def)
  note sets = claim_sets [OF sh assms(3) tag]
  note view = claim_pages_view [OF sh assms(3) _ conjunct1 [OF owned_tag_facts [OF tag]]]
  have n: "n \<le> card (free_set st)" using card_mono [OF finite_page_sets(1) run] by simp
  have lt: "card (free_set st) < 2 ^ 20" "card (owned_set ?st) < 2 ^ 20"
    using card_page_sets [OF sh] card_page_sets [OF claim_frame(3) [OF sh]] by auto
  then have un: "unat (word_of_nat n :: u32) = n" using n by (intro unat_of_nat_small) simp
  have free: "unat (pm_free_pages st - word_of_nat n) = card (free_set ?st)"
    unfolding sets card_Diff_subset [OF finite_atLeastLessThan run]
    using inv n un by (subst unat_sub) (auto simp: pmm_inv_def word_le_nat_alt)
  have "card (owned_set ?st) = card (owned_set st) + n"
    unfolding sets using run free_owned_disjoint [OF inv] by (subst card_Un_disjoint) auto
  then have owned: "unat (pm_owned_pages st + word_of_nat n) = card (owned_set ?st)"
    using inv un lt(2) by (subst unat_add_lem [THEN iffD1]) (auto simp: pmm_inv_def)
  have low: "\<not> pmm_page_is_free ?st p \<and> \<not> pmm_page_is_owned ?st p"
    if "p < pm_total_pages st" "p * PAGE_SIZE < PHYSICAL_IDENTITY_START" for p
    using that run inv by (auto simp: view pmm_page_is_owned_iff pmm_inv_def free_set_def)
  have cons: "page_tag ?st p \<noteq> 7 \<and> (pmm_page_is_free ?st p \<longleftrightarrow> page_tag ?st p = PMM_ZONE_TAG_FREE)"
    if "p < pm_total_pages st" for p
    using that inv owned_tag_facts [OF tag] by (auto simp: view pmm_inv_def)
  have mem: "pm_free_memory ?st = pm_free_pages ?st * word_of_nat PAGE_SIZE"
    "pm_used_memory ?st = pm_total_memory ?st - pm_free_memory ?st"
    by (simp_all add: pmm_claim_pages_def Let_def pmm_inv_memory [OF inv] algebra_simps split: prod.splits)
  have "pm_free_pages ?st = pm_free_pages st - word_of_nat n"
    "pm_owned_pages ?st = pm_owned_pages st + word_of_nat n"
    by (simp_all add: pmm_claim_pages_def Let_def split: prod.splits)
  then show ?thesis
    unfolding pmm_inv_def using free owned low cons mem sh by (simp add: frame_simps)
qed

lemma pmm_release_inv:
  assumes inv: "pmm_inv st" and run: "{i..<i + n} \<subseteq> owned_set st" and "i + n \<le> pm_total_pages st"
  shows "pmm_inv (pmm_release_pages st i n)"
proof -
  let ?st = "pmm_release_pages st i n" and ?R = "{i..<i + n}"
  have sh: "pmm_shape st" using inv by (simp add: pmm_inv_def)
  note sets = release_sets [OF sh assms(3)]
  note view = release_pages_view [OF sh assms(3)]
  have n: "n \<le> card (owned_set st)" using card_mono [OF finite_page_sets(2) run] by simp
  have lt: "card (owned_set st) < 2 ^ 20" "card (free_set ?st) < 2 ^ 20"
    using card_page_sets [OF sh] card_page_sets [OF claim_frame(6) [OF sh]] by auto
  then have un: "unat (word_of_nat n :: u32) = n" using n by (intro unat_of_nat_small) simp
  have owned: "unat (pm_owned_pages st - word_of_nat n) = card (owned_set ?st)"
    unfolding sets card_Diff_subset [OF finite_atLeastLessThan run]
    using inv n un by (subst unat_sub) (auto simp: pmm_inv_def word_le_nat_alt)
  have "card (free_set ?st) = card (free_set st) + n"
    unfolding sets using run free_owned_disjoint [OF inv] by (subst card_Un_disjoint) auto
  then have free: "unat (pm_free_pages st + word_of_nat n) = card (free_set ?st)"
    using inv un lt(2) by (subst unat_add_lem [THEN iffD1]) (auto simp: pmm_inv_def)
  have low: "\<not> pmm_page_is_free ?st p \<and> \<not> pmm_page_is_owned ?st p"
    if "p < pm_total_pages st" "p * PAGE_SIZE < PHYSICAL_IDENTITY_START" for p
    using that run inv by (auto simp: view pmm_page_is_owned_iff pmm_inv_def owned_set_def)
  have cons: "page_tag ?st p \<noteq> 7 \<and> (pmm_page_is_free ?st p \<longleftrightarrow> page_tag ?st p = PMM_ZONE_TAG_FREE)"
    if "p < pm_total_pages st" for p
    using that inv by (auto simp: view pmm_inv_def PMM_ZONE_TAG_FREE_def)
  have mem: "pm_free_memory ?st = pm_free_pages ?st * word_of_nat PAGE_SIZE"
    "pm_used_memory ?st = pm_total_memory ?st - pm_free_memory ?st"
    by (simp_all add: pmm_release_pages_def Let_def pmm_inv_memory [OF inv] algebra_simps split: prod.splits)
  have "pm_free_pages ?st = pm_free_pages st + word_of_nat n"
    "pm_owned_pages ?st = pm_owned_pages st - word_of_nat n"
    by (simp_all add: pmm_release_pages_def Let_def split: prod.splits)
  then show ?thesis
    unfolding pmm_inv_def using free owned low cons mem sh by (simp add: frame_simps)
qed

section \<open>Allocation is first fit\<close>

lemma run_is_free_iff:
  "i + n \<le> pm_total_pages st \<Longrightarrow> run_is_free st i n \<longleftrightarrow> {i..<i + n} \<subseteq> free_set st"
proof -
  assume le: "i + n \<le> pm_total_pages st"
  have "run_is_free st i n \<longleftrightarrow> (\<forall>j < n. pmm_page_is_free st (i + j))"
    by (auto simp: run_is_free_def list_all_iff)
  also have "\<dots> \<longleftrightarrow> (\<forall>p \<in> {i..<i + n}. pmm_page_is_free st p)"
    by (metis atLeastLessThan_iff le_add1 le_add_diff_inverse nat_add_left_cancel_less)
  also have "\<dots> \<longleftrightarrow> {i..<i + n} \<subseteq> free_set st"
    using le by (auto simp: free_set_def)
  finally show ?thesis .
qed

lemma zone_tag_owned: "pmm_zone_is_allocatable z \<Longrightarrow> owned_tag (pmm_zone_to_tag z)"
  by (auto simp: pmm_zone_is_allocatable_def owned_tag_def pmm_zone_to_tag_def pmm_tags)

lemma pmm_count_inv [inv_intros]:
  "pmm_inv st \<Longrightarrow> pmm_inv (pmm_count_failure st)" "pmm_inv st \<Longrightarrow> pmm_inv (pmm_count_invalid st)"
  by (simp_all add: pmm_inv_def pmm_shape_def pmm_is_ready_def pmm_page_is_free_def pmm_page_is_owned_def
      free_set_def owned_set_def)

lemma pmm_alloc_cases:
  assumes inv: "pmm_inv st"
  obtains (fail) "pmm_alloc_pages_in_zone st n z = (0, pmm_count_failure st)"
      "\<not> pmm_zone_is_allocatable z \<or> n = 0 \<or> (\<forall>i. i + n \<le> pm_total_pages st \<longrightarrow> \<not> {i..<i + n} \<subseteq> free_set st)"
  | (success) i where "pmm_alloc_pages_in_zone st n z = (word_of_nat (i * PAGE_SIZE), pmm_claim_pages st i n (pmm_zone_to_tag z))"
      "pmm_zone_is_allocatable z" "0 < n" "i + n \<le> pm_total_pages st" "{i..<i + n} \<subseteq> free_set st"
      "\<forall>j<i. \<not> {j..<j + n} \<subseteq> free_set st"
proof (cases "pmm_zone_is_allocatable z \<and> 0 < n \<and> n \<le> pm_total_pages st")
  case False
  have "pmm_is_ready st" using inv by (simp add: pmm_inv_def pmm_shape_def)
  then show ?thesis using False
    by (intro fail) (auto simp: pmm_alloc_pages_in_zone_def)
next
  case True
  have r: "pmm_is_ready st" using inv by (simp add: pmm_inv_def pmm_shape_def)
  show ?thesis
  proof (cases "first_index (\<lambda>i. run_is_free st i n) [0..<Suc (pm_total_pages st - n)]")
    case None
    have "\<not> {i..<i + n} \<subseteq> free_set st" if "i + n \<le> pm_total_pages st" for i
    proof -
      have "\<not> run_is_free st i n" using None that by (simp add: first_index_None_iff del: upt_Suc)
      then show ?thesis using run_is_free_iff [OF that] by simp
    qed
    then show ?thesis using r True None by (intro fail) (auto simp: pmm_alloc_pages_in_zone_def simp del: upt_Suc)
  next
    case (Some i)
    then have i: "i + n \<le> pm_total_pages st" "run_is_free st i n" "\<forall>j<i. \<not> run_is_free st j n"
      using True unfolding first_index_upt by auto
    then have "\<forall>j<i. \<not> {j..<j + n} \<subseteq> free_set st"
      using run_is_free_iff [of _ n st] by auto
    then show ?thesis
      using r True Some i run_is_free_iff [OF i(1)]
      by (intro success [of i]) (auto simp: pmm_alloc_pages_in_zone_def simp del: upt_Suc)
  qed
qed

lemma pmm_alloc_inv [inv_intros]:
  assumes "pmm_inv st"
  shows "pmm_inv (snd (pmm_alloc_pages_in_zone st n z))"
  using assms
proof (cases rule: pmm_alloc_cases [where n = n and z = z])
  case fail
  then show ?thesis using assms by (simp add: pmm_count_inv)
next
  case (success i)
  then show ?thesis using assms by (simp add: pmm_claim_inv zone_tag_owned)
qed

lemma free_page_high:
  assumes "pmm_inv st" and "p \<in> free_set st"
  shows "PHYSICAL_IDENTITY_START \<le> p * PAGE_SIZE"
  using assms by (auto simp: pmm_inv_def free_set_def not_less [symmetric])

lemma page_address:
  assumes "i < 2 ^ 20"
  shows "unat (word_of_nat (i * PAGE_SIZE) :: u32) = i * PAGE_SIZE"
  using assms by (intro unat_of_nat_small) (simp add: PAGE_SIZE_def)

lemma page_offset_zero_iff: "(addr :: u32) AND (word_of_nat PAGE_SIZE - 1) = 0 \<longleftrightarrow> PAGE_SIZE dvd unat addr"
proof -
  have m: "(word_of_nat PAGE_SIZE - 1 :: u32) = mask 12" by (simp add: PAGE_SIZE_def mask_eq_exp_minus_1)
  have "unat (addr AND mask 12) = unat addr mod 4096"
    unfolding take_bit_eq_mask [symmetric] unsigned_take_bit_eq by (simp add: take_bit_eq_mod)
  then show ?thesis
    unfolding m by (metis PAGE_SIZE_def dvd_eq_mod_eq_0 unat_eq_zero)
qed

lemma run_in_bounds:
  assumes "0 < n" and "{i..<i + n} \<subseteq> owned_set st"
  shows "i + n \<le> pm_total_pages st"
proof -
  have "i + n - 1 \<in> owned_set st" using assms by auto
  then show ?thesis using assms(1) by (auto simp: owned_set_def)
qed

lemma pmm_validate_release_iff:
  assumes inv: "pmm_inv st"
  shows "pmm_validate_release st addr n =
    (if addr \<noteq> 0 \<and> 0 < n \<and> PAGE_SIZE dvd unat addr \<and>
        {unat addr div PAGE_SIZE..<unat addr div PAGE_SIZE + n} \<subseteq> owned_set st
     then (True, st) else (False, pmm_count_invalid st))"
proof -
  let ?i = "unat addr div PAGE_SIZE"
  have r: "pmm_is_ready st" using inv by (simp add: pmm_inv_def pmm_shape_def)
  have own: "\<not> pmm_page_is_free st p" if "p \<in> owned_set st" for p
    using that free_owned_disjoint [OF inv] by (auto simp: free_set_def owned_set_def)
  have "(\<not> (?i \<ge> pm_total_pages st \<or> n > pm_total_pages st - ?i) \<and>
      \<not> list_ex (\<lambda>p. \<not> pmm_page_is_owned st p \<or> pmm_page_is_free st p) [?i..<?i + n])
    \<longleftrightarrow> {?i..<?i + n} \<subseteq> owned_set st" if "0 < n"
  proof
    assume run: "{?i..<?i + n} \<subseteq> owned_set st"
    then have "\<not> list_ex (\<lambda>p. \<not> pmm_page_is_owned st p \<or> pmm_page_is_free st p) [?i..<?i + n]"
      using own by (auto simp: list_ex_iff owned_set_def subset_iff)
    then show "\<not> (?i \<ge> pm_total_pages st \<or> n > pm_total_pages st - ?i) \<and>
      \<not> list_ex (\<lambda>p. \<not> pmm_page_is_owned st p \<or> pmm_page_is_free st p) [?i..<?i + n]"
      using run_in_bounds [OF \<open>0 < n\<close> run] \<open>0 < n\<close> by simp
  qed (auto simp: list_ex_iff owned_set_def)
  then show ?thesis
    using r by (auto simp: pmm_validate_release_def page_offset_zero_iff Let_def)
qed

lemma pmm_free_inv [inv_intros]:
  assumes "pmm_inv st"
  shows "pmm_inv (pmm_free_pages st addr n)" "pmm_inv (pmm_free_page st addr)"
  using assms run_in_bounds [of n "unat addr div PAGE_SIZE" st]
    run_in_bounds [of 1 "unat addr div PAGE_SIZE" st]
  by (auto simp: pmm_free_pages_def pmm_free_page_def pmm_validate_release_iff pmm_count_inv Let_def
      intro!: pmm_release_inv)

section \<open>The allocator as a source of pages\<close>

lemma pmm_alloc_run:
  assumes inv: "pmm_inv s" and a: "pmm_alloc_pages_in_zone s n z = (a, t)" and "a \<noteq> 0"
  shows "run_fits (owned_set t) a n \<and> owned_set t = owned_set s \<union> page_run a n \<and> owned_set s \<inter> page_run a n = {}"
  using inv
proof (cases rule: pmm_alloc_cases [where n = n and z = z])
  case fail
  then show ?thesis using a assms(3) by simp
next
  case (success i)
  have sh: "pmm_shape s" using inv by (simp add: pmm_inv_def)
  have tot: "pm_total_pages s < 2 ^ 20" using sh by (simp add: pmm_shape_def)
  have i: "i < 2 ^ 20" using success(3,4) tot by linarith
  have u: "unat a = i * PAGE_SIZE" using page_address [OF i] success(1) a by simp
  then have run: "page_run a n = {i..<i + n}" by (simp add: page_run_def PAGE_SIZE_def)
  have "i + n < 2 ^ 20" using success(4) tot by linarith
  then have "(i + n) * PAGE_SIZE < 2 ^ 32" by (simp add: PAGE_SIZE_def)
  then have "unat a + n * PAGE_SIZE < 2 ^ 32" using u by (simp add: distrib_right)
  moreover have "owned_set t = owned_set s \<union> {i..<i + n}"
    using claim_sets(2) [OF sh success(4) zone_tag_owned [OF success(2)]] success(1) a by simp
  moreover have "owned_set s \<inter> {i..<i + n} = {}" using free_owned_disjoint [OF inv] success(5) by auto
  ultimately show ?thesis using u run assms(3) success(3) by (auto simp: run_fits_def)
qed

lemma pmm_free_run:
  assumes "pmm_inv s" and "run_fits (owned_set s) a n"
  shows "owned_set (pmm_free_pages s a n) = owned_set s - page_run a n"
proof -
  have sh: "pmm_shape s" using assms(1) by (simp add: pmm_inv_def)
  have r: "{unat a div PAGE_SIZE..<unat a div PAGE_SIZE + n} \<subseteq> owned_set s" "0 < n"
    using assms(2) by (auto simp: run_fits_def page_run_def)
  show ?thesis
    using assms(2) release_sets(2) [OF sh run_in_bounds [OF r(2,1)]]
    by (simp add: pmm_free_pages_def pmm_validate_release_iff [OF assms(1)] run_fits_def page_run_def Let_def)
qed

interpretation slab_pages: page_source "\<lambda>s n. pmm_alloc_pages_in_zone s n MEMORY_ZONE_SLAB" pmm_free_pages
  pmm_inv owned_set
proof
  fix s t :: pmm_state and n :: nat
  assume inv: "pmm_inv s" and "pmm_alloc_pages_in_zone s n MEMORY_ZONE_SLAB = (0, t)"
  from inv show "owned_set t = owned_set s"
  proof (cases rule: pmm_alloc_cases [where n = n and z = MEMORY_ZONE_SLAB])
    case fail
    then show ?thesis using \<open>_ = (0, t)\<close> by (auto simp: owned_set_def pmm_page_is_owned_def)
  next
    case (success i)
    have "i \<in> free_set s" "i < 2 ^ 20" using success inv by (auto simp: pmm_inv_def pmm_shape_def)
    then have "word_of_nat (i * PAGE_SIZE) \<noteq> (0 :: u32)"
      using page_address [of i] free_page_high [OF inv, of i] by (auto simp: pmm_layout)
    then show ?thesis using success(1) \<open>_ = (0, t)\<close> by simp
  qed
qed (auto intro: inv_intros simp: pmm_alloc_run pmm_free_run dest: pmm_alloc_run)

section \<open>Initialisation\<close>

lemma and_not_mask_unat: "unat ((w :: u32) AND NOT (mask n)) = unat w - unat w mod 2 ^ n"
proof -
  have "w AND NOT (mask n) = w - take_bit n w"
  proof -
    have "take_bit n w + (w AND NOT (mask n)) = take_bit n w OR (w AND NOT (mask n))"
      by (rule disjunctive_add) (auto simp: bit_simps)
    also have "\<dots> = w" by (rule bit_word_eqI) (auto simp: bit_simps)
    finally show ?thesis by (metis add_diff_cancel_left')
  qed
  moreover have t: "unat (take_bit n w) = unat w mod 2 ^ n"
    unfolding unsigned_take_bit_eq by (simp add: take_bit_eq_mod)
  moreover have "take_bit n w \<le> w" by (simp add: word_le_nat_alt t)
  ultimately show ?thesis by (simp add: unat_sub)
qed

lemma align_up_page:
  assumes "v \<le> 0xFFFFFFFF - 4095"
  shows "align_up v PAGE_SIZE = v + 4095 - (v + 4095) mod 4096"
proof -
  have m: "(word_of_nat (PAGE_SIZE - 1) :: u32) = mask 12" by (simp add: PAGE_SIZE_def mask_eq_exp_minus_1)
  have "unat (word_of_nat (v + PAGE_SIZE - 1) :: u32) = v + PAGE_SIZE - 1"
    using assms by (intro unat_of_nat_small) (simp add: PAGE_SIZE_def)
  then show ?thesis
    using assms unfolding align_up_def m and_not_mask_unat by (simp add: PAGE_SIZE_def add.commute)
qed

lemma align_up_ge: "v \<le> 0xFFFFFFFF - 4095 \<Longrightarrow> v \<le> align_up v PAGE_SIZE"
  using mod_less_divisor [of 4096 "v + 4095"] by (simp only: align_up_page)

lemma bitmap_step_lengths [simp]:
  "length (bitmap_mark b p) = length b" "length (bitmap_unmark b p) = length b"
  by (simp_all add: bitmap_mark_def bitmap_unmark_def)

lemma fold_unmark_length [simp]: "length (fold (\<lambda>p b. bitmap_unmark b p) ps b) = length b"
  by (induction ps arbitrary: b) simp_all

lemma memory_mark_usable_length [simp]: "length (memory_mark_usable n mmap b) = length b"
proof -
  have "length (mark_usable_step n e b) = length b" for e b
    by (simp add: mark_usable_step_def Let_def)
  then show ?thesis unfolding memory_mark_usable_def by (induction mmap arbitrary: b) simp_all
qed

lemma mark_as_put: "(\<lambda>p b. bitmap_mark b p) = (\<lambda>p. bitmap_put p True)"
  by (simp add: bitmap_put_def fun_eq_iff)

lemma identity_pages: "align_up PHYSICAL_IDENTITY_START PAGE_SIZE div PAGE_SIZE = 5120"
proof -
  have "align_up PHYSICAL_IDENTITY_START PAGE_SIZE = 20971520"
    by (subst align_up_page) (simp_all add: pmm_layout)
  then show ?thesis by (simp add: pmm_layout)
qed

lemma reserve_identity:
  assumes "n \<le> 8 * length b"
  shows "length (memory_reserve_range n 0 PHYSICAL_IDENTITY_START b) = length b"
    and "p < n \<Longrightarrow> bitmap_test (memory_reserve_range n 0 PHYSICAL_IDENTITY_START b) p \<longleftrightarrow>
      p < 5120 \<or> bitmap_test b p"
proof -
  have "align_up PHYSICAL_IDENTITY_START PAGE_SIZE \<noteq> 0" using identity_pages by (intro notI) simp
  then have eq: "memory_reserve_range n 0 PHYSICAL_IDENTITY_START b =
      fold (\<lambda>p. bitmap_put p True) [0..<min 5120 n] b"
    using identity_pages by (simp add: memory_reserve_range_def Let_def mark_as_put)
      (simp add: pmm_layout)
  show "length (memory_reserve_range n 0 PHYSICAL_IDENTITY_START b) = length b" by (simp add: eq)
  show "bitmap_test (memory_reserve_range n 0 PHYSICAL_IDENTITY_START b) p \<longleftrightarrow>
      p < 5120 \<or> bitmap_test b p" if "p < n"
    using that assms by (auto simp: eq pages.get_fold_range)
qed

lemma page_zones_tag:
  assumes "n \<le> 8 * length ow div 3" and "p < n"
  shows "pmm_get_page_tag (memory_initialize_page_zones n b ow) p =
    (if 4096 \<le> p \<and> p < 5120 then PMM_ZONE_TAG_RESERVED_HEAP
     else if bitmap_test b p then PMM_ZONE_TAG_RESERVED_KERNEL else PMM_ZONE_TAG_FREE)"
proof -
  define f where "f page = (if bitmap_test b page then PMM_ZONE_TAG_RESERVED_KERNEL else PMM_ZONE_TAG_FREE)" for page
  have fits: "f page < 8" for page by (simp add: f_def pmm_tags)
  have h: "PMM_ZONE_TAG_RESERVED_HEAP < 8" by (simp add: pmm_tags)
  have "memory_initialize_page_zones n b ow =
    fold (\<lambda>page ow. pmm_set_page_tag ow page PMM_ZONE_TAG_RESERVED_HEAP) [4096..<min 5120 n]
      (fold (\<lambda>page ow. pmm_set_page_tag ow page (f page)) [0..<n] ow)"
    by (simp add: memory_initialize_page_zones_def Let_def f_def) (simp add: pmm_layout)
  then show ?thesis
    using assms fits h by (auto simp: tags.get_fold_range f_def)
qed

lemma page_zones_length [simp]: "length (memory_initialize_page_zones n b ow) = length ow"
  by (simp add: memory_initialize_page_zones_def Let_def)

lemma recount_fold:
  "fold (\<lambda>p n. if \<not> bitmap_test b p then n + 1 else n) [0..<k] (0 :: u32) =
     word_of_nat (card {p. p < k \<and> \<not> bitmap_test b p})"
proof (induction k)
  case (Suc k)
  have "{p. p < Suc k \<and> \<not> bitmap_test b p} =
    (if bitmap_test b k then {p. p < k \<and> \<not> bitmap_test b p} else insert k {p. p < k \<and> \<not> bitmap_test b p})"
    by (auto simp: less_Suc_eq)
  then show ?case using Suc by simp
qed simp

lemma length_kmemset: "n \<le> length d \<Longrightarrow> length (kmemset d v n) = length d"
  by (simp add: kmemset_eq)

lemma pmm_storage_sizes:
  assumes "t < 2 ^ 20"
  shows "t \<le> 8 * align_up ((t + 7) div 8) PAGE_SIZE"
    and "t \<le> 8 * align_up (PMM_ZONE_STORAGE_BYTES t) PAGE_SIZE div 3"
proof -
  have "(t + 7) div 8 \<le> align_up ((t + 7) div 8) PAGE_SIZE"
    using assms by (intro align_up_ge) simp
  then show "t \<le> 8 * align_up ((t + 7) div 8) PAGE_SIZE" by linarith
  have "(t * 3 + 7) div 8 \<le> align_up (PMM_ZONE_STORAGE_BYTES t) PAGE_SIZE"
    unfolding PMM_ZONE_STORAGE_BYTES_def PMM_ZONE_TAG_BITS_def
    using assms by (intro align_up_ge) simp
  then have "3 * t \<le> 8 * align_up (PMM_ZONE_STORAGE_BYTES t) PAGE_SIZE" by linarith
  then show "t \<le> 8 * align_up (PMM_ZONE_STORAGE_BYTES t) PAGE_SIZE div 3" by linarith
qed

lemma pmm_fresh_inv:
  assumes t: "t = unat tm div PAGE_SIZE" "t < 2 ^ 20" and b: "t \<le> 8 * length b" and ow: "t \<le> 8 * length ow div 3"
    and z: "z \<noteq> 0"
    and bm: "bm = memory_reserve_range t 0 PHYSICAL_IDENTITY_START b"
    and st: "st = memory_recount \<lparr>pm_total_memory = tm, pm_free_memory = 0, pm_used_memory = 0,
      pm_total_pages = t, pm_free_pages = 0, pm_bitmap_size = s, pm_bitmap = Some bm, pm_mmap = mm,
      pm_owner_bitmap = Some (memory_initialize_page_zones t bm ow),
      pm_owner_bitmap_size = z, pm_owned_pages = 0, pm_allocation_failures = 0, pm_invalid_frees = 0\<rparr>"
  shows "pmm_inv st"
proof -
  have view: "pm_total_pages st = t" "pmm_page_is_free st p = (\<not> bitmap_test bm p)"
    "the (pm_owner_bitmap st) = memory_initialize_page_zones t bm ow" for p
    by (simp_all add: st memory_recount_def Let_def pmm_page_is_free_def)
  have sh: "pmm_shape st"
    using t(2) b ow z reserve_identity(1) [OF b]
    by (simp add: pmm_shape_def pmm_is_ready_def st memory_recount_def Let_def bm)
  have low: "bitmap_test bm p" if "p < t" "p < 5120" for p
    using reserve_identity(2) [OF b that(1)] that(2) by (simp add: bm)
  have tag: "page_tag st p = (if 4096 \<le> p \<and> p < 5120 then PMM_ZONE_TAG_RESERVED_HEAP
     else if bitmap_test bm p then PMM_ZONE_TAG_RESERVED_KERNEL else PMM_ZONE_TAG_FREE)" if "p < t" for p
    using page_zones_tag [OF ow that, of bm] by (simp add: view)
  have cons: "page_tag st p \<noteq> 7 \<and> (pmm_page_is_free st p \<longleftrightarrow> page_tag st p = PMM_ZONE_TAG_FREE)
      \<and> \<not> pmm_page_is_owned st p" if "p < t" for p
    using that low by (auto simp: tag view(1,2) pmm_page_is_owned_iff owned_tag_def pmm_tags word_le_nat_alt)
  have "p < 5120" if "p * PAGE_SIZE < PHYSICAL_IDENTITY_START" for p
    using that by (simp add: pmm_layout)
  then have ident: "\<not> pmm_page_is_free st p" if "p < t" "p * PAGE_SIZE < PHYSICAL_IDENTITY_START" for p
    using low that by (simp add: view)
  have "owned_set st = {}" using cons by (auto simp: owned_set_def view)
  moreover have "unat (pm_free_pages st) = card (free_set st)"
  proof -
    have "pm_free_pages st = word_of_nat (card (free_set st))"
      by (simp add: st memory_recount_def Let_def recount_fold free_set_def pmm_page_is_free_def)
    then show ?thesis using card_page_sets(1) [OF sh] by (simp add: unat_of_nat)
  qed
  moreover have "pm_owned_pages st = 0" "pm_free_memory st = pm_free_pages st * word_of_nat PAGE_SIZE"
    "pm_used_memory st = pm_total_memory st - pm_free_memory st"
    by (simp_all add: st memory_recount_def Let_def)
  ultimately show ?thesis
    unfolding pmm_inv_def view(1) using sh cons ident by simp
qed

lemma memory_init_inv:
  assumes "memory_init a mmap storage = Inr st" and "length storage = PMM_ZONE_STORAGE_CAPACITY"
  shows "pmm_inv st"
proof -
  define tm where "tm = memory_find_total mmap"
  define t where "t = unat tm div PAGE_SIZE"
  define bs where "bs = align_up ((t + 7) div 8) PAGE_SIZE"
  define zs where "zs = align_up (PMM_ZONE_STORAGE_BYTES t) PAGE_SIZE"
  define b where "b = memory_mark_usable t mmap (kmemset (take bs storage) 0xFF bs)"
  define ow where "ow = kmemset (take zs (drop bs storage)) 0 zs"
  have "unat tm < 2 ^ 32" using unsigned_less [of tm] by simp
  then have t20: "t < 2 ^ 20" unfolding t_def PAGE_SIZE_def by (simp add: less_mult_imp_div_less)
  note facts = assms(1) [unfolded memory_init_def Let_def, folded tm_def, folded t_def,
      folded bs_def zs_def, folded b_def ow_def]
  have sz: "zs \<noteq> 0" "bs \<le> PMM_ZONE_STORAGE_CAPACITY" "zs \<le> PMM_ZONE_STORAGE_CAPACITY - bs"
    using facts by (auto split: if_splits)
  have "length b = bs" "length ow = zs"
    using sz assms(2) by (simp_all add: b_def ow_def length_kmemset)
  then have "t \<le> 8 * length b" "t \<le> 8 * length ow div 3"
    using pmm_storage_sizes [OF t20] by (simp_all add: bs_def zs_def)
  then show ?thesis
    using facts by (auto split: if_splits intro!: pmm_fresh_inv [OF t_def t20 _ _ sz(1) refl])
qed

section \<open>Statistics\<close>

text \<open>Length of the free run that ends just below page \<open>k\<close>, and the longest one up to \<open>k\<close>.\<close>

primrec run_to :: "pmm_state \<Rightarrow> nat \<Rightarrow> nat" where
  "run_to st 0 = 0"
| "run_to st (Suc k) = (if pmm_page_is_free st k then Suc (run_to st k) else 0)"

primrec longest_to :: "pmm_state \<Rightarrow> nat \<Rightarrow> nat" where
  "longest_to st 0 = 0"
| "longest_to st (Suc k) = max (longest_to st k) (run_to st (Suc k))"

lemma run_to_le: "run_to st k \<le> k" "longest_to st k \<le> k"
  by (induction k) auto

lemma run_to_ge_iff: "n \<le> run_to st k \<longleftrightarrow> n \<le> k \<and> (\<forall>p. k - n \<le> p \<and> p < k \<longrightarrow> pmm_page_is_free st p)"
proof (induction k arbitrary: n)
  case (Suc k)
  show ?case
  proof (cases n)
    case (Suc m)
    have "(\<forall>p. k - m \<le> p \<and> p < Suc k \<longrightarrow> pmm_page_is_free st p) \<longleftrightarrow>
      pmm_page_is_free st k \<and> (\<forall>p. k - m \<le> p \<and> p < k \<longrightarrow> pmm_page_is_free st p)"
      by (auto simp: less_Suc_eq)
    then show ?thesis using Suc.IH [of m] Suc by auto
  qed auto
qed simp

lemma longest_to_ge_iff: "0 < n \<Longrightarrow> n \<le> longest_to st k \<longleftrightarrow> (\<exists>j \<le> k. n \<le> run_to st j)"
  by (induction k) (auto simp: le_max_iff_disj le_Suc_eq simp del: run_to.simps(2))

lemma longest_run_iff:
  assumes "0 < n"
  shows "n \<le> longest_to st (pm_total_pages st) \<longleftrightarrow>
    (\<exists>i. i + n \<le> pm_total_pages st \<and> {i..<i + n} \<subseteq> free_set st)"
proof
  assume "n \<le> longest_to st (pm_total_pages st)"
  then obtain j where j: "j \<le> pm_total_pages st" "n \<le> run_to st j"
    using longest_to_ge_iff [OF assms] by blast
  then have "n \<le> j" "\<forall>p. j - n \<le> p \<and> p < j \<longrightarrow> pmm_page_is_free st p" using run_to_ge_iff by auto
  then have "j - n + n \<le> pm_total_pages st \<and> {j - n..<j - n + n} \<subseteq> free_set st"
    using j(1) by (auto simp: free_set_def)
  then show "\<exists>i. i + n \<le> pm_total_pages st \<and> {i..<i + n} \<subseteq> free_set st" by blast
next
  assume "\<exists>i. i + n \<le> pm_total_pages st \<and> {i..<i + n} \<subseteq> free_set st"
  then obtain i where i: "i + n \<le> pm_total_pages st" "{i..<i + n} \<subseteq> free_set st" by blast
  then have "n \<le> run_to st (i + n)" unfolding run_to_ge_iff by (auto simp: free_set_def)
  then show "n \<le> longest_to st (pm_total_pages st)" using i(1) longest_to_ge_iff [OF assms] by blast
qed

definition zone_count :: "pmm_state \<Rightarrow> nat \<Rightarrow> memory_zone \<Rightarrow> nat" where
  "zone_count st k z = card {p. p < k \<and> pmm_tag_to_zone (page_tag st p) = z}"

definition stats_ok :: "pmm_state \<Rightarrow> nat \<Rightarrow> memory_detailed_stats \<times> u32 \<times> u32 \<Rightarrow> bool" where
  "stats_ok st k = (\<lambda>(s, fr, dyn).
     ds_total_pages s = pm_total_pages st \<and> ds_initialized s \<and> length (ds_zone_pages s) = 6 \<and>
     (\<forall>z. z \<noteq> MEMORY_ZONE_COUNT \<longrightarrow> ds_zone_pages s ! zone_index z = word_of_nat (zone_count st k z)) \<and>
     sum_list (ds_zone_pages s) = word_of_nat k \<and>
     unat fr = run_to st k \<and> max (unat (ds_largest_free_run s)) (run_to st k) = longest_to st k \<and>
     dyn = word_of_nat (card {p. p < k \<and> pmm_page_is_owned st p}))"

lemma card_below_Suc: "card {p. p < Suc k \<and> P p} = card {p. p < k \<and> P p} + of_bool (P k)"
proof -
  have "{p. p < Suc k \<and> P p} = {p. p < k \<and> P p} \<union> (if P k then {k} else {})" by (auto simp: less_Suc_eq)
  then show ?thesis by auto
qed

lemma zone_index_inj: "zone_index a = zone_index b \<longleftrightarrow> a = b"
  by (cases a; cases b) (simp_all add: zone_index_def)

lemma zone_index_less: "z \<noteq> MEMORY_ZONE_COUNT \<Longrightarrow> zone_index z < 6"
  by (cases z) (simp_all add: zone_index_def)

lemma sum_list_bump: "i < length xs \<Longrightarrow> sum_list (xs[i := xs ! i + 1]) = sum_list xs + (1 :: u32)"
  by (induction xs arbitrary: i) (auto split: nat.splits)

lemma record_free_run_facts:
  "ds_total_pages (memory_record_free_run s r) = ds_total_pages s"
  "ds_initialized (memory_record_free_run s r) = ds_initialized s"
  "ds_zone_pages (memory_record_free_run s r) = ds_zone_pages s"
  "unat (ds_largest_free_run (memory_record_free_run s r)) = max (unat (ds_largest_free_run s)) (unat r)"
  by (auto simp: memory_record_free_run_def Let_def word_less_nat_alt max_def)


lemma u8_less_8: "(t :: u8) < 8 \<Longrightarrow> t \<in> {0, 1, 2, 3, 4, 5, 6, 7}"
proof -
  assume "t < 8"
  then have "unat t < 8" by (simp add: word_less_nat_alt)
  then have "unat t = 0 \<or> unat t = 1 \<or> unat t = 2 \<or> unat t = 3 \<or> unat t = 4 \<or> unat t = 5 \<or>
    unat t = 6 \<or> unat t = 7" by linarith
  then show ?thesis by (auto simp: word_unat_eq_iff)
qed

lemma tag_zone_facts:
  assumes "pmm_inv st" and "p < pm_total_pages st"
  shows "pmm_tag_to_zone (page_tag st p) \<noteq> MEMORY_ZONE_COUNT"
    and "pmm_page_is_free st p \<longleftrightarrow> pmm_tag_to_zone (page_tag st p) = MEMORY_ZONE_FREE"
proof -
  have "page_tag st p \<in> {0, 1, 2, 3, 4, 5, 6}"
    using u8_less_8 [OF page_tag_less [of "the (pm_owner_bitmap st)" p]] assms by (auto simp: pmm_inv_def)
  moreover have "pmm_page_is_free st p \<longleftrightarrow> page_tag st p = PMM_ZONE_TAG_FREE"
    using assms by (simp add: pmm_inv_def)
  ultimately show "pmm_tag_to_zone (page_tag st p) \<noteq> MEMORY_ZONE_COUNT"
    and "pmm_page_is_free st p \<longleftrightarrow> pmm_tag_to_zone (page_tag st p) = MEMORY_ZONE_FREE"
    by (auto simp: pmm_tag_to_zone_def pmm_tags)
qed

lemma stats_step:
  assumes inv: "pmm_inv st" and k: "k < pm_total_pages st" and ok: "stats_ok st k acc"
  shows "\<exists>acc'. stats_ok st (Suc k) acc' \<and> stats_loop st (k # rest) acc = stats_loop st rest acc'"
proof -
  obtain s fr dyn where acc: "acc = (s, fr, dyn)" by (cases acc) auto
  define z where "z = pmm_tag_to_zone (page_tag st k)"
  have z: "z \<noteq> MEMORY_ZONE_COUNT" "pmm_page_is_free st k \<longleftrightarrow> z = MEMORY_ZONE_FREE"
    using tag_zone_facts [OF inv k] by (simp_all add: z_def)
  define s1 where "s1 = ds_zone_pages_update (\<lambda>zs. zs[zone_index z := zs ! zone_index z + 1]) s"
  define d1 where "d1 = (if pmm_page_is_owned st k then dyn + 1 else dyn)"
  have loop: "stats_loop st (k # rest) acc =
    (if pmm_page_is_free st k then stats_loop st rest (s1, fr + 1, d1)
     else stats_loop st rest (memory_record_free_run s1 fr, 0, d1))"
    using z by (simp add: acc Let_def z_def [symmetric] s1_def d1_def pmm_page_is_owned_def)
  note o = ok [unfolded stats_ok_def acc prod.case]
  have zones: "\<forall>y. y \<noteq> MEMORY_ZONE_COUNT \<longrightarrow> ds_zone_pages s1 ! zone_index y = word_of_nat (zone_count st (Suc k) y)"
    using o zone_index_less by (auto simp: s1_def nth_list_update zone_index_inj zone_count_def card_below_Suc z_def)
  have sum: "sum_list (ds_zone_pages s1) = word_of_nat (Suc k)"
    using o zone_index_less [OF z(1)] by (simp add: s1_def sum_list_bump)
  have dyn: "d1 = word_of_nat (card {p. p < Suc k \<and> pmm_page_is_owned st p})"
    using o by (simp add: d1_def card_below_Suc)
  have "run_to st k < 2 ^ 20" using run_to_le(1) [of st k] k inv by (simp add: pmm_inv_def pmm_shape_def)
  then have fr1: "unat (fr + 1) = Suc (run_to st k)" using o by (simp add: unat_word_ariths)
  have s1: "ds_total_pages s1 = ds_total_pages s" "ds_initialized s1 = ds_initialized s"
    "length (ds_zone_pages s1) = length (ds_zone_pages s)" "ds_largest_free_run s1 = ds_largest_free_run s"
    by (simp_all add: s1_def)
  show ?thesis
  proof (cases "pmm_page_is_free st k")
    case True
    have "stats_ok st (Suc k) (s1, fr + 1, d1)"
      unfolding stats_ok_def prod.case using o zones sum dyn fr1 s1 True by auto
    then show ?thesis using loop True by auto
  next
    case False
    have "stats_ok st (Suc k) (memory_record_free_run s1 fr, 0, d1)"
      unfolding stats_ok_def prod.case record_free_run_facts using o zones sum dyn s1 False by auto
    then show ?thesis using loop False by auto
  qed
qed

lemma stats_loop_ok:
  assumes "pmm_inv st" and "k \<le> pm_total_pages st" and "stats_ok st k acc"
  shows "\<exists>acc'. stats_loop st [k..<pm_total_pages st] acc = Inr acc' \<and> stats_ok st (pm_total_pages st) acc'"
  using assms(2,3)
proof (induction "pm_total_pages st - k" arbitrary: k acc)
  case 0
  then show ?case by simp
next
  case (Suc n)
  then have k: "k < pm_total_pages st" by simp
  obtain acc' where "stats_ok st (Suc k) acc'"
    "stats_loop st (k # [Suc k..<pm_total_pages st]) acc = stats_loop st [Suc k..<pm_total_pages st] acc'"
    using stats_step [OF assms(1) k Suc.prems(2)] by blast
  then show ?case using Suc.hyps(1) [of "Suc k" acc'] Suc.hyps(2) k by (simp add: upt_conv_Cons)
qed

lemma detailed_stats_OK:
  assumes inv: "pmm_inv st"
  shows "\<exists>s. memory_get_detailed_stats st True = (OK, Some s) \<and> ds_valid s \<and>
    (\<forall>z. z \<noteq> MEMORY_ZONE_COUNT \<longrightarrow> unat (ds_zone_pages s ! zone_index z) = zone_count st (pm_total_pages st) z) \<and>
    unat (ds_largest_free_run s) = longest_to st (pm_total_pages st)"
proof -
  let ?T = "pm_total_pages st"
  define s0 where "s0 = memory_detailed_stats_zero\<lparr>ds_initialized := True, ds_total_pages := ?T\<rparr>"
  have "stats_ok st 0 (s0, 0, 0)"
    using zone_index_less by (auto simp: stats_ok_def s0_def memory_detailed_stats_zero_def zone_count_def
        sum_list_replicate)
  then obtain s fr dyn where l: "stats_loop st [0..<?T] (s0, 0, 0) = Inr (s, fr, dyn)"
    and ok: "stats_ok st ?T (s, fr, dyn)" using stats_loop_ok [OF inv] by (metis le0 prod_cases3)
  note o = ok [unfolded stats_ok_def prod.case]
  have counts: "pm_free_pages st = word_of_nat (card (free_set st))"
    "pm_owned_pages st = word_of_nat (card (owned_set st))"
    using inv word_of_nat_unat unfolding pmm_inv_def by metis+
  have "zone_count st ?T MEMORY_ZONE_FREE = card (free_set st)"
    unfolding zone_count_def free_set_def using tag_zone_facts(2) [OF inv] by (metis (no_types, lifting) Collect_cong)
  then have free: "ds_zone_pages s ! zone_index MEMORY_ZONE_FREE = pm_free_pages st"
    using o counts(1) by simp
  have owned: "dyn = pm_owned_pages st"
    using o counts(2) by (simp add: owned_set_def)
  have r: "pmm_is_ready st" using inv by (simp add: pmm_inv_def pmm_shape_def)
  obtain s' where s': "memory_get_detailed_stats st True = (OK, Some s')"
    "ds_valid s'" "ds_zone_pages s' = ds_zone_pages s"
    "ds_largest_free_run s' = ds_largest_free_run (memory_record_free_run s fr)"
    using l o free owned r
    by (simp add: memory_get_detailed_stats_def Let_def s0_def [symmetric] record_free_run_facts)
  have "zone_count st ?T z < 2 ^ 32" for z
  proof -
    have "zone_count st ?T z \<le> card {..<?T}" unfolding zone_count_def by (intro card_mono) auto
    then show ?thesis using inv by (simp add: pmm_inv_def pmm_shape_def)
  qed
  then show ?thesis
    using s' o by (auto simp: unat_of_nat_small record_free_run_facts max.commute)
qed

section \<open>Reachable allocator states\<close>

text \<open>Any sequence of allocations and releases, with any arguments, after a successful start.\<close>

inductive pmm_reachable :: "pmm_state \<Rightarrow> bool" where
  start: "memory_init a mmap storage = Inr st \<Longrightarrow> length storage = PMM_ZONE_STORAGE_CAPACITY \<Longrightarrow>
    pmm_reachable st"
| alloc: "pmm_reachable st \<Longrightarrow> pmm_reachable (snd (pmm_alloc_pages_in_zone st n z))"
| free: "pmm_reachable st \<Longrightarrow> pmm_reachable (pmm_free_pages st addr n)"
| free_one: "pmm_reachable st \<Longrightarrow> pmm_reachable (pmm_free_page st addr)"

lemma pmm_reachable_inv: "pmm_reachable st \<Longrightarrow> pmm_inv st"
  by (induction rule: pmm_reachable.induct) (auto intro: memory_init_inv inv_intros)

section \<open>Properties\<close>

text \<open>
  C6. Allocation is first fit. In every reachable state a request succeeds exactly when the
  zone is allocatable, the count is positive and some run of that many free pages exists; it
  then returns the lowest such run, at or above 20 MiB and so never the null address, takes
  exactly those pages out of the free set and tags them with the zone. A failing request
  changes nothing but the failure counter.
\<close>

theorem pmm_alloc_first_fit:
  assumes "pmm_reachable st"
    and "pmm_alloc_pages_in_zone st n z = (addr, st')"
  shows "if pmm_zone_is_allocatable z \<and> 0 < n \<and> (\<exists>i. i + n \<le> pm_total_pages st \<and> {i..<i + n} \<subseteq> free_set st)
    then \<exists>i. unat addr = i * PAGE_SIZE \<and> PHYSICAL_IDENTITY_START \<le> unat addr \<and>
      {i..<i + n} \<subseteq> free_set st \<and> (\<forall>j<i. \<not> {j..<j + n} \<subseteq> free_set st) \<and>
      free_set st' = free_set st - {i..<i + n} \<and>
      (\<forall>p < pm_total_pages st. page_tag st' p =
         (if p \<in> {i..<i + n} then pmm_zone_to_tag z else page_tag st p))
    else addr = 0 \<and> st' = pmm_count_failure st"
proof -
  have inv: "pmm_inv st" by (rule pmm_reachable_inv [OF assms(1)])
  then have sh: "pmm_shape st" by (simp add: pmm_inv_def)
  from inv show ?thesis
  proof (cases rule: pmm_alloc_cases [where n = n and z = z])
    case fail
    then show ?thesis using assms(2) by auto
  next
    case (success i)
    have i: "i \<in> free_set st" "i < 2 ^ 20"
      using success sh by (auto simp: pmm_shape_def)
    note ot = zone_tag_owned [OF success(2)]
    have "unat addr = i * PAGE_SIZE" using page_address [OF i(2)] success(1) assms(2) by simp
    moreover have "free_set st' = free_set st - {i..<i + n}"
      using claim_sets(1) [OF sh success(4) ot] success(1) assms(2) by simp
    moreover have "\<forall>p < pm_total_pages st. page_tag st' p =
         (if p \<in> {i..<i + n} then pmm_zone_to_tag z else page_tag st p)"
      using claim_pages_view(2) [OF sh success(4) _ conjunct1 [OF owned_tag_facts [OF ot]]] success(1) assms(2)
      by auto
    ultimately show ?thesis
      using success free_page_high [OF inv i(1)] by auto
  qed
qed

text \<open>
  C8. A release frees exactly what it names, or nothing. In every reachable state
  \<^verbatim>\<open>pmm_free_pages\<close> accepts an address and count iff the address is non-null and page
  aligned, the count positive and every page of the run was handed out by the allocator; then
  exactly those pages become free. Every other call, a double free in particular, only
  increments the counter of invalid frees.
\<close>

theorem pmm_free_exact:
  assumes "pmm_reachable st"
  shows "let i = unat addr div PAGE_SIZE; st' = pmm_free_pages st addr n in
    if addr \<noteq> 0 \<and> PAGE_SIZE dvd unat addr \<and> 0 < n \<and> {i..<i + n} \<subseteq> owned_set st
    then free_set st' = free_set st \<union> {i..<i + n} \<and> owned_set st' = owned_set st - {i..<i + n} \<and>
      pmm_free_pages st' addr n = pmm_count_invalid st'
    else st' = pmm_count_invalid st"
proof -
  let ?i = "unat addr div PAGE_SIZE" and ?st = "pmm_free_pages st addr n"
  have inv: "pmm_inv st" by (rule pmm_reachable_inv [OF assms])
  show ?thesis
  proof (cases "addr \<noteq> 0 \<and> PAGE_SIZE dvd unat addr \<and> 0 < n \<and> {?i..<?i + n} \<subseteq> owned_set st")
    case True
    then have eq: "?st = pmm_release_pages st ?i n"
      by (simp add: pmm_free_pages_def pmm_validate_release_iff [OF inv])
    have sets: "free_set ?st = free_set st \<union> {?i..<?i + n}" "owned_set ?st = owned_set st - {?i..<?i + n}"
      using release_sets [OF _ run_in_bounds [of n ?i st]] True inv by (auto simp: eq pmm_inv_def)
    have "?i \<in> {?i..<?i + n}" using True by simp
    then have "\<not> {?i..<?i + n} \<subseteq> owned_set ?st" unfolding sets by blast
    then have "pmm_free_pages ?st addr n = pmm_count_invalid ?st"
      by (simp add: pmm_free_pages_def [of ?st] pmm_validate_release_iff [OF pmm_free_inv(1) [OF inv]])
    then show ?thesis using True sets by (simp add: Let_def)
  next
    case False
    then have "pmm_free_pages st addr n = pmm_count_invalid st"
      by (auto simp: pmm_free_pages_def pmm_validate_release_iff [OF inv] Let_def)
    then show ?thesis using False by (simp only: Let_def if_False)
  qed
qed

text \<open>
  C23. Releasing what was just allocated restores the allocator: the same pages are free, every
  tag and every counter is back, so no page is leaked by an allocate and free pair.
\<close>

theorem pmm_alloc_free_roundtrip:
  assumes "pmm_reachable st" and "pmm_alloc_pages_in_zone st n z = (addr, st')" and "addr \<noteq> 0"
  shows "let st'' = pmm_free_pages st' addr n in
    free_set st'' = free_set st \<and> owned_set st'' = owned_set st \<and>
    (\<forall>p < pm_total_pages st. page_tag st'' p = page_tag st p) \<and>
    memory_get_pmm_stats st'' = memory_get_pmm_stats st \<and>
    (pm_free_pages st'', pm_free_memory st'', pm_used_memory st'') =
      (pm_free_pages st, pm_free_memory st, pm_used_memory st)"
proof -
  have inv: "pmm_inv st" by (rule pmm_reachable_inv [OF assms(1)])
  then have sh: "pmm_shape st" by (simp add: pmm_inv_def)
  from inv show ?thesis
  proof (cases rule: pmm_alloc_cases [where n = n and z = z])
    case fail
    then show ?thesis using assms(2,3) by simp
  next
    case (success i)
    note ot = zone_tag_owned [OF success(2)]
    have st': "st' = pmm_claim_pages st i n (pmm_zone_to_tag z)" using success(1) assms(2) by simp
    have inv': "pmm_inv st'" unfolding st' by (rule pmm_claim_inv [OF inv success(5,4) ot])
    then have sh': "pmm_shape st'" by (simp add: pmm_inv_def)
    have bnd: "i + n \<le> pm_total_pages st'" using success(4) by (simp add: st' frame_simps)
    have a: "unat addr = i * PAGE_SIZE"
      using page_address [of i] success sh assms(2) by (auto simp: pmm_shape_def)
    have run: "{i..<i + n} \<subseteq> owned_set st'" using claim_sets(2) [OF sh success(4) ot] by (simp add: st')
    have ai: "unat addr div PAGE_SIZE = i" "PAGE_SIZE dvd unat addr" using a by (simp_all add: PAGE_SIZE_def)
    have st'': "pmm_free_pages st' addr n = pmm_release_pages st' i n"
      using run ai assms(3) success(3) by (simp add: pmm_free_pages_def pmm_validate_release_iff [OF inv'])
    have tags: "\<forall>p < pm_total_pages st. page_tag (pmm_release_pages st' i n) p = page_tag st p"
      using release_pages_view(2) [OF sh' bnd] claim_pages_view(2) [OF sh success(4) _ conjunct1 [OF owned_tag_facts [OF ot]]]
        inv success(5)
      by (auto simp: st' frame_simps pmm_inv_def free_set_def)
    have sets: "free_set (pmm_release_pages st' i n) = free_set st"
      "owned_set (pmm_release_pages st' i n) = owned_set st"
      unfolding release_sets [OF sh' bnd] using claim_sets [OF sh success(4) ot] success(5) free_owned_disjoint [OF inv]
      by (auto simp: st')
    have "memory_get_pmm_stats (pmm_release_pages st' i n) = memory_get_pmm_stats st \<and>
      (pm_free_pages (pmm_release_pages st' i n), pm_free_memory (pmm_release_pages st' i n),
       pm_used_memory (pmm_release_pages st' i n)) = (pm_free_pages st, pm_free_memory st, pm_used_memory st)"
      using sh by (auto simp: st' pmm_release_pages_def pmm_claim_pages_def memory_get_pmm_stats_def
          Let_def pmm_shape_def pmm_is_ready_def split: prod.splits)
    then show ?thesis unfolding st'' Let_def using tags sets by simp
  qed
qed

text \<open>
  C24. The detailed statistics succeed in every reachable state, count the pages of each zone
  exactly, and their longest free run is the size of the largest request that can be met: for
  an allocatable zone, \<open>n\<close> pages can be had iff \<open>n\<close> is positive and at most that run.
\<close>

theorem pmm_stats_predict_allocation:
  assumes "pmm_reachable st" and "pmm_zone_is_allocatable z"
  shows "\<exists>s. memory_get_detailed_stats st True = (OK, Some s) \<and>
    (\<forall>y. y \<noteq> MEMORY_ZONE_COUNT \<longrightarrow> unat (ds_zone_pages s ! zone_index y) = zone_count st (pm_total_pages st) y) \<and>
    (\<forall>n. fst (pmm_alloc_pages_in_zone st n z) \<noteq> 0 \<longleftrightarrow> 0 < n \<and> n \<le> unat (ds_largest_free_run s))"
proof -
  have inv: "pmm_inv st" by (rule pmm_reachable_inv [OF assms(1)])
  then have sh: "pmm_shape st" by (simp add: pmm_inv_def)
  have "fst (pmm_alloc_pages_in_zone st n z) \<noteq> 0 \<longleftrightarrow> 0 < n \<and> n \<le> longest_to st (pm_total_pages st)" for n
    using inv
  proof (cases rule: pmm_alloc_cases [where n = n and z = z])
    case fail
    then show ?thesis using longest_run_iff [of n st] assms(2) by auto
  next
    case (success i)
    have i: "i \<in> free_set st" "i < 2 ^ 20" using success sh by (auto simp: pmm_shape_def)
    have "unat (fst (pmm_alloc_pages_in_zone st n z)) = i * PAGE_SIZE" using page_address [OF i(2)] success(1) by simp
    moreover have "i * PAGE_SIZE \<noteq> 0" using free_page_high [OF inv i(1)] by (auto simp: pmm_layout)
    ultimately have "fst (pmm_alloc_pages_in_zone st n z) \<noteq> 0" by auto
    then show ?thesis using success longest_run_iff [of n st] by auto
  qed
  then show ?thesis using detailed_stats_OK [OF inv] by auto
qed

section \<open>A machine with 32 MiB\<close>

definition boot_map :: "mmap_entry list" where
  "boot_map = [\<lparr>mm_base_low = 0, mm_base_high = 0, mm_length_low = 0x02000000, mm_length_high = 0, mm_type = 1\<rparr>]"

definition boot_storage :: "u8 list" where
  "boot_storage = replicate PMM_ZONE_STORAGE_CAPACITY 0"

definition boot_state :: pmm_state where
  "boot_state = projr (memory_init 0x9000 boot_map boot_storage)"

lemma boot_total: "memory_find_total boot_map = 0x02000000"
  by code_simp

lemma boot_ranges:
  "memory_range_is_usable boot_map PMM_BITMAP_STORAGE_START KERNEL_STACK_TOP"
  "memory_range_is_usable boot_map KERNEL_START KERNEL_END"
  "memory_range_is_usable boot_map HEAP_START (HEAP_START + HEAP_SIZE)"
  by (simp_all add: memory_range_is_usable_def boot_map_def mmap_base_def mmap_length_def pmm_layout)

lemma boot_mark: "memory_mark_usable 8192 boot_map b = fold (\<lambda>p. bitmap_put p False) [0..<8192] b"
proof -
  have "(\<lambda>p b. bitmap_unmark b p) = (\<lambda>p. bitmap_put p False)" by (simp add: bitmap_put_def fun_eq_iff)
  moreover have "page_floor (0x1000 - 1) = 0" "page_floor 0x02000000 = 0x02000000"
    by (simp_all add: page_floor_def PAGE_SIZE_def)
  ultimately show ?thesis
    by (simp add: memory_mark_usable_def boot_map_def mark_usable_step_def mmap_base_def mmap_length_def
        Let_def MAX_PHYSICAL_ADDRESS_def PAGE_SIZE_def)
qed

lemma boot_sizes: "align_up 1024 PAGE_SIZE = 4096" "align_up (PMM_ZONE_STORAGE_BYTES 8192) PAGE_SIZE = 4096"
  by (simp_all add: align_up_page PMM_ZONE_STORAGE_BYTES_def PMM_ZONE_TAG_BITS_def)

lemma boot_init: "memory_init 0x9000 boot_map boot_storage = Inr boot_state"
  and boot_free: "5120 \<in> free_set boot_state"
proof -
  let ?b0 = "kmemset (take 4096 boot_storage) 0xFF 4096"
  let ?ow = "kmemset (take 4096 (drop 4096 boot_storage)) 0 4096"
  define b where "b = memory_mark_usable 8192 boot_map ?b0"
  define bm where "bm = memory_reserve_range 8192 0 PHYSICAL_IDENTITY_START b"
  define st where "st = memory_recount
       \<lparr>pm_total_memory = 0x02000000, pm_free_memory = 0, pm_used_memory = 0,
        pm_total_pages = 8192, pm_free_pages = 0, pm_bitmap_size = 4096,
        pm_bitmap = Some bm, pm_mmap = boot_map, pm_owner_bitmap = Some (memory_initialize_page_zones 8192 bm ?ow),
        pm_owner_bitmap_size = 4096, pm_owned_pages = 0,
        pm_allocation_failures = 0, pm_invalid_frees = 0\<rparr>"
  have cap: "PMM_ZONE_STORAGE_CAPACITY = 65536" by (simp add: pmm_layout)
  have len: "length ?b0 = 4096" "length ?ow = 4096" by (simp_all add: length_kmemset boot_storage_def cap)
  have lb: "length b = 4096" by (simp add: b_def len)
  have "bitmap_test b 5120 = False"
    unfolding b_def boot_mark by (subst pages.get_fold_range) (simp_all add: len)
  then have "\<not> bitmap_test bm 5120"
    using reserve_identity(2) [of 8192 b 5120] lb by (simp add: bm_def)
  then have free: "5120 \<in> free_set st"
    by (simp add: free_set_def st_def memory_recount_def Let_def pmm_page_is_free_def)
  have "pmm_inv st"
    by (rule pmm_fresh_inv [where b = b and ow = ?ow, OF _ _ _ _ _ bm_def st_def]) (simp_all add: lb len PAGE_SIZE_def)
  then have "unat (pm_free_pages st) = card (free_set st)" by (simp add: pmm_inv_def)
  moreover have "card (free_set st) \<noteq> 0" using free by auto
  ultimately have nz: "pm_free_pages st \<noteq> 0" by auto
  have "memory_init 0x9000 boot_map boot_storage = Inr st"
  proof -
    have "boot_map \<noteq> []" by (simp add: boot_map_def)
    moreover have "\<not> unat (0x02000000 :: u32) < MIN_USABLE_MEMORY_END" "unat (0x02000000 :: u32) div PAGE_SIZE = 8192"
      by (simp_all add: pmm_layout)
    ultimately show ?thesis
      using nz boot_ranges
      by (simp add: memory_init_def boot_total boot_sizes cap st_def bm_def b_def Let_def)
  qed
  then show "memory_init 0x9000 boot_map boot_storage = Inr boot_state" "5120 \<in> free_set boot_state"
    using free by (simp_all add: boot_state_def)
qed

lemma boot_reachable: "pmm_reachable boot_state"
  by (rule pmm_reachable.start [OF boot_init]) (simp add: boot_storage_def)

lemma boot_run: "5120 + 1 \<le> pm_total_pages boot_state \<and> {5120..<5120 + 1} \<subseteq> free_set boot_state"
proof -
  have "{5120..<5120 + 1} = {5120 :: nat}" by auto
  then show ?thesis using boot_free by (auto simp: free_set_def)
qed

lemma boot_request:
  "pmm_zone_is_allocatable MEMORY_ZONE_KERNEL \<and> 0 < (1 :: nat) \<and>
   (\<exists>i. i + 1 \<le> pm_total_pages boot_state \<and> {i..<i + 1} \<subseteq> free_set boot_state)"
  using boot_run by (intro conjI exI [of _ 5120]) (simp_all add: pmm_zone_is_allocatable_def)

theorem pmm_alloc_first_fit_witness:
  "\<exists>addr st'. pmm_alloc_pages_in_zone boot_state 1 MEMORY_ZONE_KERNEL = (addr, st') \<and>
     PHYSICAL_IDENTITY_START \<le> unat addr"
proof -
  obtain addr st' where a: "pmm_alloc_pages_in_zone boot_state 1 MEMORY_ZONE_KERNEL = (addr, st')" by force
  from pmm_alloc_first_fit [OF boot_reachable a] have "PHYSICAL_IDENTITY_START \<le> unat addr"
    unfolding if_P [OF boot_request] by blast
  with a show ?thesis by blast
qed

theorem pmm_free_exact_witness: "pmm_free_pages boot_state 0 1 = pmm_count_invalid boot_state"
  using pmm_free_exact [OF boot_reachable, of 0 1] by (simp add: Let_def)

theorem pmm_alloc_free_roundtrip_witness:
  "\<exists>addr st'. pmm_alloc_pages_in_zone boot_state 1 MEMORY_ZONE_KERNEL = (addr, st') \<and> addr \<noteq> 0 \<and>
     free_set (pmm_free_pages st' addr 1) = free_set boot_state"
proof -
  have inv: "pmm_inv boot_state" by (rule pmm_reachable_inv [OF boot_reachable])
  obtain addr st' where a: "pmm_alloc_pages_in_zone boot_state 1 MEMORY_ZONE_KERNEL = (addr, st')" by force
  from inv have "addr \<noteq> 0"
  proof (cases rule: pmm_alloc_cases [where n = 1 and z = MEMORY_ZONE_KERNEL])
    case (success i)
    then have "i \<in> free_set boot_state" "i < 2 ^ 20" using inv by (auto simp: pmm_inv_def pmm_shape_def)
    then show ?thesis
      using success(1) a page_address [of i] free_page_high [OF inv, of i] by (auto simp: pmm_layout)
  qed (use boot_request in auto)
  then show ?thesis using pmm_alloc_free_roundtrip [OF boot_reachable a] a by (auto simp: Let_def)
qed

theorem pmm_stats_predict_allocation_witness:
  "\<exists>s. memory_get_detailed_stats boot_state True = (OK, Some s) \<and>
     (\<forall>n. fst (pmm_alloc_pages_in_zone boot_state n MEMORY_ZONE_SLAB) \<noteq> 0 \<longleftrightarrow>
        0 < n \<and> n \<le> unat (ds_largest_free_run s))"
  using pmm_stats_predict_allocation [OF boot_reachable, of MEMORY_ZONE_SLAB]
  by (auto simp: pmm_zone_is_allocatable_def)

end
