(* ===== verification/Net_Buffer.thy ===== *)
theory Net_Buffer
  imports Prelude
begin

text \<open>
  The lifetime contract of network buffers (\<^verbatim>\<open>src/src/core/net_buffer.c\<close>). A descriptor
  lives in memory that belongs to somebody else, so the state holds a store from addresses
  to descriptors beside the file's static variables; the registry holds addresses, zero
  being the null pointer. Two descriptors at different addresses are taken not to overlap.
  The global lock serialises the routines and is left out, its one-time initialisation
  apart.
\<close>

type_synonym ptr = u32

abbreviation (input) NULL_PTR :: ptr where "NULL_PTR \<equiv> 0"

definition NET_BUFFER_TRACKING_CAPACITY :: nat where "NET_BUFFER_TRACKING_CAPACITY = 32"
definition NET_BUFFER_MAX_ALIGNMENT :: u32 where "NET_BUFFER_MAX_ALIGNMENT = 64"
definition NET_BUFFER_COUNTER_MAX :: u32 where "NET_BUFFER_COUNTER_MAX = 0xFFFFFFFF"

lemmas net_buffer_consts = NET_BUFFER_TRACKING_CAPACITY_def NET_BUFFER_MAX_ALIGNMENT_def
  NET_BUFFER_COUNTER_MAX_def

section \<open>States, owners, descriptors\<close>

datatype net_buffer_state =
    NET_BUFFER_STATE_INVALID | NET_BUFFER_STATE_ALLOCATED | NET_BUFFER_STATE_RX
  | NET_BUFFER_STATE_QUEUED | NET_BUFFER_STATE_IN_FLIGHT | NET_BUFFER_STATE_DELIVERED
  | NET_BUFFER_STATE_DROPPED | NET_BUFFER_STATE_FREED

datatype net_buffer_owner =
    NET_BUFFER_OWNER_NONE | NET_BUFFER_OWNER_DRIVER | NET_BUFFER_OWNER_ETHERNET
  | NET_BUFFER_OWNER_PROTOCOL | NET_BUFFER_OWNER_SOCKET

text \<open>
  C compares enumeration constants by their position; both enumerations are linear orders
  by that position.
\<close>

primrec state_number :: "net_buffer_state \<Rightarrow> nat" where
  "state_number NET_BUFFER_STATE_INVALID = 0"
| "state_number NET_BUFFER_STATE_ALLOCATED = 1"
| "state_number NET_BUFFER_STATE_RX = 2"
| "state_number NET_BUFFER_STATE_QUEUED = 3"
| "state_number NET_BUFFER_STATE_IN_FLIGHT = 4"
| "state_number NET_BUFFER_STATE_DELIVERED = 5"
| "state_number NET_BUFFER_STATE_DROPPED = 6"
| "state_number NET_BUFFER_STATE_FREED = 7"

primrec owner_number :: "net_buffer_owner \<Rightarrow> nat" where
  "owner_number NET_BUFFER_OWNER_NONE = 0"
| "owner_number NET_BUFFER_OWNER_DRIVER = 1"
| "owner_number NET_BUFFER_OWNER_ETHERNET = 2"
| "owner_number NET_BUFFER_OWNER_PROTOCOL = 3"
| "owner_number NET_BUFFER_OWNER_SOCKET = 4"

lemma state_number_eq_iff: "state_number a = state_number b \<longleftrightarrow> a = b"
  by (cases a; cases b) simp_all

lemma owner_number_eq_iff: "owner_number a = owner_number b \<longleftrightarrow> a = b"
  by (cases a; cases b) simp_all

instantiation net_buffer_state :: linorder
begin

definition less_eq_net_buffer_state :: "net_buffer_state \<Rightarrow> net_buffer_state \<Rightarrow> bool" where
  "a \<le> b \<longleftrightarrow> state_number a \<le> state_number b"

definition less_net_buffer_state :: "net_buffer_state \<Rightarrow> net_buffer_state \<Rightarrow> bool" where
  "a < b \<longleftrightarrow> state_number a < state_number b"

instance
  by standard (auto simp: less_eq_net_buffer_state_def less_net_buffer_state_def
      simp flip: state_number_eq_iff)

end

instantiation net_buffer_owner :: linorder
begin

definition less_eq_net_buffer_owner :: "net_buffer_owner \<Rightarrow> net_buffer_owner \<Rightarrow> bool" where
  "a \<le> b \<longleftrightarrow> owner_number a \<le> owner_number b"

definition less_net_buffer_owner :: "net_buffer_owner \<Rightarrow> net_buffer_owner \<Rightarrow> bool" where
  "a < b \<longleftrightarrow> owner_number a < owner_number b"

instance
  by standard (auto simp: less_eq_net_buffer_owner_def less_net_buffer_owner_def
      simp flip: owner_number_eq_iff)

end

lemmas enum_order_defs = less_eq_net_buffer_state_def less_net_buffer_state_def
  less_eq_net_buffer_owner_def less_net_buffer_owner_def

record net_buffer =
  nb_state :: net_buffer_state
  nb_owner :: net_buffer_owner
  nb_refcount :: u32
  nb_capacity :: u32
  nb_headroom :: u32
  nb_length :: u32
  nb_tailroom :: u32
  nb_alignment :: u32
  nb_completion_error :: status

definition net_buffer_zero :: net_buffer where
  "net_buffer_zero = \<lparr>nb_state = NET_BUFFER_STATE_INVALID, nb_owner = NET_BUFFER_OWNER_NONE,
     nb_refcount = 0, nb_capacity = 0, nb_headroom = 0, nb_length = 0, nb_tailroom = 0,
     nb_alignment = 0, nb_completion_error = OK\<rparr>"

record net_buffer_stats =
  ns_initialized :: bool
  ns_active_buffers :: u32
  ns_peak_buffers :: u32
  ns_allocations :: u32
  ns_frees :: u32
  ns_delivered :: u32
  ns_dropped :: u32
  ns_copies :: u32
  ns_copied_bytes :: u32
  ns_clones :: u32
  ns_fragments :: u32
  ns_invalid_transitions :: u32
  ns_duplicate_completions :: u32
  ns_ref_acquires :: u32
  ns_ref_releases :: u32
  ns_last_error :: status

definition net_buffer_stats_zero :: net_buffer_stats where
  "net_buffer_stats_zero = \<lparr>ns_initialized = False, ns_active_buffers = 0, ns_peak_buffers = 0,
     ns_allocations = 0, ns_frees = 0, ns_delivered = 0, ns_dropped = 0, ns_copies = 0,
     ns_copied_bytes = 0, ns_clones = 0, ns_fragments = 0, ns_invalid_transitions = 0,
     ns_duplicate_completions = 0, ns_ref_acquires = 0, ns_ref_releases = 0, ns_last_error = OK\<rparr>"

record netbuf_state =
  nm_heap :: "ptr \<Rightarrow> net_buffer"
  nm_stats :: net_buffer_stats
  nm_registry :: "ptr list"
  nm_lock_initialized :: bool
  nm_testing :: bool

definition netbuf_static :: netbuf_state where
  "netbuf_static = \<lparr>nm_heap = (\<lambda>_. net_buffer_zero), nm_stats = net_buffer_stats_zero,
     nm_registry = replicate NET_BUFFER_TRACKING_CAPACITY NULL_PTR, nm_lock_initialized = False,
     nm_testing = False\<rparr>"

abbreviation write_buffer :: "ptr \<Rightarrow> net_buffer \<Rightarrow> netbuf_state \<Rightarrow> netbuf_state" where
  "write_buffer p b \<equiv> nm_heap_update (\<lambda>h. h(p := b))"

section \<open>Predicates\<close>

definition net_buffer_owner_valid :: "net_buffer_owner \<Rightarrow> bool" where
  "net_buffer_owner_valid ow \<longleftrightarrow> ow \<ge> NET_BUFFER_OWNER_DRIVER \<and> ow \<le> NET_BUFFER_OWNER_SOCKET"

definition net_buffer_state_owner_valid :: "net_buffer_state \<Rightarrow> net_buffer_owner \<Rightarrow> bool" where
  "net_buffer_state_owner_valid state ow =
     (if state = NET_BUFFER_STATE_ALLOCATED then net_buffer_owner_valid ow
      else if state = NET_BUFFER_STATE_RX then
        ow = NET_BUFFER_OWNER_DRIVER \<or> ow = NET_BUFFER_OWNER_ETHERNET
      else if state = NET_BUFFER_STATE_QUEUED then
        ow = NET_BUFFER_OWNER_PROTOCOL \<or> ow = NET_BUFFER_OWNER_SOCKET
      else if state = NET_BUFFER_STATE_IN_FLIGHT then net_buffer_owner_valid ow
      else if state = NET_BUFFER_STATE_DROPPED then ow = NET_BUFFER_OWNER_NONE
      else if state = NET_BUFFER_STATE_DELIVERED then
        ow = NET_BUFFER_OWNER_NONE \<or> net_buffer_owner_valid ow
      else False)"

definition net_buffer_alignment_valid :: "u32 \<Rightarrow> bool" where
  "net_buffer_alignment_valid alignment =
     (if alignment = 0 \<or> alignment > NET_BUFFER_MAX_ALIGNMENT then False
      else alignment AND (alignment - 1) = 0)"

definition net_buffer_find_locked :: "netbuf_state \<Rightarrow> ptr \<Rightarrow> nat option" where
  "net_buffer_find_locked st buffer = first_index (\<lambda>p. p = buffer) (nm_registry st)"

definition net_buffer_free_slot_locked :: "netbuf_state \<Rightarrow> nat option" where
  "net_buffer_free_slot_locked st = first_index (\<lambda>p. p = NULL_PTR) (nm_registry st)"

definition net_buffer_fail_locked :: "netbuf_state \<Rightarrow> status \<Rightarrow> bool \<Rightarrow> status \<times> netbuf_state" where
  "net_buffer_fail_locked st result duplicate =
     (let st = st\<lparr>nm_stats := (nm_stats st)\<lparr>ns_invalid_transitions := ns_invalid_transitions (nm_stats st) + 1\<rparr>\<rparr>;
          st = (if duplicate
                then st\<lparr>nm_stats := (nm_stats st)\<lparr>ns_duplicate_completions := ns_duplicate_completions (nm_stats st) + 1\<rparr>\<rparr>
                else st)
      in (result, st\<lparr>nm_stats := (nm_stats st)\<lparr>ns_last_error := result\<rparr>\<rparr>))"

definition net_buffer_transition_allowed :: "net_buffer_state \<Rightarrow> net_buffer_state \<Rightarrow> bool" where
  "net_buffer_transition_allowed current nxt =
     (if current = NET_BUFFER_STATE_ALLOCATED then
        nxt = NET_BUFFER_STATE_RX \<or> nxt = NET_BUFFER_STATE_QUEUED \<or> nxt = NET_BUFFER_STATE_IN_FLIGHT
      else if current = NET_BUFFER_STATE_RX then
        nxt = NET_BUFFER_STATE_QUEUED \<or> nxt = NET_BUFFER_STATE_IN_FLIGHT
      else if current = NET_BUFFER_STATE_QUEUED then nxt = NET_BUFFER_STATE_IN_FLIGHT
      else False)"

definition net_buffer_check_active_locked :: "netbuf_state \<Rightarrow> ptr \<Rightarrow> status" where
  "net_buffer_check_active_locked st buffer =
     (if buffer = NULL_PTR then ERR_NULL
      else if \<not> ns_initialized (nm_stats st) then ERR_STATE
      else if net_buffer_find_locked st buffer = None then ERR_INVALID
      else if nb_refcount (nm_heap st buffer) = 0 \<or> nb_state (nm_heap st buffer) = NET_BUFFER_STATE_FREED
      then ERR_STATE
      else OK)"

section \<open>Operations\<close>

definition net_buffer_complete_locked ::
  "netbuf_state \<Rightarrow> ptr \<Rightarrow> status \<Rightarrow> net_buffer_owner \<Rightarrow> status \<times> netbuf_state" where
  "net_buffer_complete_locked st buffer result delivered_owner =
     (let validation = net_buffer_check_active_locked st buffer; b = nm_heap st buffer in
      if validation \<noteq> OK then net_buffer_fail_locked st validation False
      else if nb_state b = NET_BUFFER_STATE_DELIVERED \<or> nb_state b = NET_BUFFER_STATE_DROPPED
      then net_buffer_fail_locked st ERR_STATE True
      else if result = OK then
        if nb_state b \<noteq> NET_BUFFER_STATE_RX \<and> nb_state b \<noteq> NET_BUFFER_STATE_QUEUED \<and>
           nb_state b \<noteq> NET_BUFFER_STATE_IN_FLIGHT
        then net_buffer_fail_locked st ERR_STATE False
        else if delivered_owner \<noteq> NET_BUFFER_OWNER_NONE \<and> \<not> net_buffer_owner_valid delivered_owner
        then net_buffer_fail_locked st ERR_INVALID False
        else
          let st = write_buffer buffer (b\<lparr>nb_state := NET_BUFFER_STATE_DELIVERED, nb_owner := delivered_owner\<rparr>) st
          in (OK, st\<lparr>nm_stats := (nm_stats st)\<lparr>ns_delivered := ns_delivered (nm_stats st) + 1\<rparr>\<rparr>)
      else
        if nb_state b \<noteq> NET_BUFFER_STATE_ALLOCATED \<and> nb_state b \<noteq> NET_BUFFER_STATE_RX \<and>
           nb_state b \<noteq> NET_BUFFER_STATE_QUEUED \<and> nb_state b \<noteq> NET_BUFFER_STATE_IN_FLIGHT
        then net_buffer_fail_locked st ERR_STATE False
        else if delivered_owner \<noteq> NET_BUFFER_OWNER_NONE
        then net_buffer_fail_locked st ERR_INVALID False
        else
          let st = write_buffer buffer (b\<lparr>nb_state := NET_BUFFER_STATE_DROPPED,
                     nb_owner := NET_BUFFER_OWNER_NONE, nb_completion_error := result\<rparr>) st
          in (OK, st\<lparr>nm_stats := (nm_stats st)\<lparr>ns_dropped := ns_dropped (nm_stats st) + 1\<rparr>\<rparr>))"

definition net_buffer_init :: "netbuf_state \<Rightarrow> status \<times> netbuf_state" where
  "net_buffer_init st =
     (let st = st\<lparr>nm_lock_initialized := True\<rparr> in
      if ns_initialized (nm_stats st) then (OK, st)
      else
        let st = st\<lparr>nm_stats := net_buffer_stats_zero,
                    nm_registry := replicate NET_BUFFER_TRACKING_CAPACITY NULL_PTR\<rparr>
        in (OK, st\<lparr>nm_stats := (nm_stats st)\<lparr>ns_initialized := True, ns_last_error := OK\<rparr>\<rparr>))"

definition net_buffer_begin ::
  "netbuf_state \<Rightarrow> ptr \<Rightarrow> u32 \<Rightarrow> u32 \<Rightarrow> u32 \<Rightarrow> net_buffer_owner \<Rightarrow> status \<times> netbuf_state" where
  "net_buffer_begin st buffer capacity headroom alignment ow =
     (if buffer = NULL_PTR then (ERR_NULL, st)
      else if capacity = 0 \<or> headroom > capacity \<or> \<not> net_buffer_alignment_valid alignment \<or>
              \<not> net_buffer_owner_valid ow
      then (ERR_INVALID, st)
      else if \<not> ns_initialized (nm_stats st) then (ERR_STATE, st)
      else if net_buffer_find_locked st buffer \<noteq> None \<or>
              nb_state (nm_heap st buffer) \<noteq> NET_BUFFER_STATE_INVALID
      then (ERR_STATE, st)
      else
        case net_buffer_free_slot_locked st of
          None \<Rightarrow> (ERR_OVERFLOW, snd (net_buffer_fail_locked st ERR_OVERFLOW False))
        | Some slot \<Rightarrow>
            let st = write_buffer buffer (net_buffer_zero\<lparr>nb_state := NET_BUFFER_STATE_ALLOCATED,
                       nb_owner := ow, nb_refcount := 1, nb_capacity := capacity,
                       nb_headroom := headroom, nb_tailroom := capacity - headroom,
                       nb_alignment := alignment\<rparr>) st;
                st = st\<lparr>nm_registry := (nm_registry st)[slot := buffer]\<rparr>;
                st = st\<lparr>nm_stats := (nm_stats st)\<lparr>ns_active_buffers := ns_active_buffers (nm_stats st) + 1,
                       ns_allocations := ns_allocations (nm_stats st) + 1\<rparr>\<rparr>
            in (OK, if ns_active_buffers (nm_stats st) > ns_peak_buffers (nm_stats st)
                    then st\<lparr>nm_stats := (nm_stats st)\<lparr>ns_peak_buffers := ns_active_buffers (nm_stats st)\<rparr>\<rparr>
                    else st))"

definition net_buffer_set_layout_locked ::
  "netbuf_state \<Rightarrow> ptr \<Rightarrow> u32 \<Rightarrow> u32 \<Rightarrow> status \<times> netbuf_state" where
  "net_buffer_set_layout_locked st buffer headroom len =
     (let b = nm_heap st buffer;
          result = net_buffer_check_active_locked st buffer;
          result = (if result = OK \<and> (nb_state b = NET_BUFFER_STATE_DELIVERED \<or>
                                      nb_state b = NET_BUFFER_STATE_DROPPED)
                    then ERR_STATE else result);
          result = (if result = OK \<and> headroom > nb_capacity b then ERR_OVERFLOW else result);
          result = (if result = OK \<and> len > nb_capacity b - headroom then ERR_OVERFLOW else result)
      in if result = OK then
           (OK, write_buffer buffer (b\<lparr>nb_headroom := headroom, nb_length := len,
                  nb_tailroom := nb_capacity b - headroom - len\<rparr>) st)
         else (result, snd (net_buffer_fail_locked st result False)))"

definition net_buffer_set_layout ::
  "netbuf_state \<Rightarrow> ptr \<Rightarrow> u32 \<Rightarrow> u32 \<Rightarrow> status \<times> netbuf_state" where
  "net_buffer_set_layout st buffer headroom len = net_buffer_set_layout_locked st buffer headroom len"

definition net_buffer_set_length :: "netbuf_state \<Rightarrow> ptr \<Rightarrow> u32 \<Rightarrow> status \<times> netbuf_state" where
  "net_buffer_set_length st buffer len =
     (let result = net_buffer_check_active_locked st buffer in
      if result = OK
      then net_buffer_set_layout_locked st buffer (nb_headroom (nm_heap st buffer)) len
      else (result, snd (net_buffer_fail_locked st result False)))"

definition net_buffer_transition ::
  "netbuf_state \<Rightarrow> ptr \<Rightarrow> net_buffer_state \<Rightarrow> net_buffer_owner \<Rightarrow> status \<times> netbuf_state" where
  "net_buffer_transition st buffer next_state next_owner =
     (if \<not> net_buffer_owner_valid next_owner \<or>
         next_state = NET_BUFFER_STATE_INVALID \<or> next_state = NET_BUFFER_STATE_FREED \<or>
         next_state = NET_BUFFER_STATE_DELIVERED \<or> next_state = NET_BUFFER_STATE_DROPPED
      then (ERR_INVALID, snd (net_buffer_fail_locked st ERR_INVALID False))
      else
        let b = nm_heap st buffer;
            result = net_buffer_check_active_locked st buffer;
            result = (if result = OK \<and> \<not> net_buffer_transition_allowed (nb_state b) next_state
                      then ERR_STATE else result);
            result = (if result = OK \<and> \<not> net_buffer_state_owner_valid next_state next_owner
                      then ERR_INVALID else result)
        in if result = OK then
             (OK, write_buffer buffer (b\<lparr>nb_state := next_state, nb_owner := next_owner\<rparr>) st)
           else (result, snd (net_buffer_fail_locked st result False)))"

definition net_buffer_complete ::
  "netbuf_state \<Rightarrow> ptr \<Rightarrow> status \<Rightarrow> net_buffer_owner \<Rightarrow> status \<times> netbuf_state" where
  "net_buffer_complete st buffer result delivered_owner =
     net_buffer_complete_locked st buffer result delivered_owner"

definition net_buffer_retain :: "netbuf_state \<Rightarrow> ptr \<Rightarrow> status \<times> netbuf_state" where
  "net_buffer_retain st buffer =
     (let b = nm_heap st buffer;
          result = net_buffer_check_active_locked st buffer;
          result = (if result = OK \<and> nb_refcount b = NET_BUFFER_COUNTER_MAX then ERR_OVERFLOW else result)
      in if result = OK then
           let st = write_buffer buffer (b\<lparr>nb_refcount := nb_refcount b + 1\<rparr>) st
           in (OK, st\<lparr>nm_stats := (nm_stats st)\<lparr>ns_ref_acquires := ns_ref_acquires (nm_stats st) + 1\<rparr>\<rparr>)
         else (result, snd (net_buffer_fail_locked st result False)))"

text \<open>
  \<^verbatim>\<open>net_buffer_release\<close>: the reference is dropped inside the first conditional, so the
  release counter moves with it even where the registry lost the buffer.
\<close>

definition net_buffer_release :: "netbuf_state \<Rightarrow> ptr \<Rightarrow> status \<times> netbuf_state" where
  "net_buffer_release st buffer =
     (let b = nm_heap st buffer;
          result = net_buffer_check_active_locked st buffer;
          result = (if result = OK \<and> nb_state b \<noteq> NET_BUFFER_STATE_DELIVERED \<and>
                       nb_state b \<noteq> NET_BUFFER_STATE_DROPPED
                    then ERR_STATE else result);
          (result, st) =
            (if result = OK then
               let (result, st) =
                 (if nb_refcount b > 1
                  then (OK, write_buffer buffer (b\<lparr>nb_refcount := nb_refcount b - 1\<rparr>) st)
                  else
                    case net_buffer_find_locked st buffer of
                      None \<Rightarrow> (ERR_INVALID, st)
                    | Some slot \<Rightarrow>
                        let st = write_buffer buffer (b\<lparr>nb_refcount := 0,
                                   nb_state := NET_BUFFER_STATE_FREED, nb_owner := NET_BUFFER_OWNER_NONE\<rparr>) st;
                            st = st\<lparr>nm_registry := (nm_registry st)[slot := NULL_PTR]\<rparr>;
                            st = (if ns_active_buffers (nm_stats st) \<noteq> 0
                                  then st\<lparr>nm_stats := (nm_stats st)\<lparr>ns_active_buffers := ns_active_buffers (nm_stats st) - 1\<rparr>\<rparr>
                                  else st)
                        in (OK, st\<lparr>nm_stats := (nm_stats st)\<lparr>ns_frees := ns_frees (nm_stats st) + 1\<rparr>\<rparr>))
               in (result, st\<lparr>nm_stats := (nm_stats st)\<lparr>ns_ref_releases := ns_ref_releases (nm_stats st) + 1\<rparr>\<rparr>)
             else (result, st))
      in if result \<noteq> OK then (result, snd (net_buffer_fail_locked st result False)) else (result, st))"

section \<open>Counters and consistency\<close>

definition net_buffer_note_copy :: "netbuf_state \<Rightarrow> u32 \<Rightarrow> status \<times> netbuf_state" where
  "net_buffer_note_copy st bytes =
     (if \<not> ns_initialized (nm_stats st) then (ERR_STATE, st)
      else if bytes > NET_BUFFER_COUNTER_MAX - ns_copied_bytes (nm_stats st)
      then (ERR_OVERFLOW, snd (net_buffer_fail_locked st ERR_OVERFLOW False))
      else (OK, st\<lparr>nm_stats := (nm_stats st)\<lparr>ns_copies := ns_copies (nm_stats st) + 1,
                     ns_copied_bytes := ns_copied_bytes (nm_stats st) + bytes\<rparr>\<rparr>))"

definition net_buffer_note_clone :: "netbuf_state \<Rightarrow> status \<times> netbuf_state" where
  "net_buffer_note_clone st =
     (if \<not> ns_initialized (nm_stats st) then (ERR_STATE, st)
      else (OK, st\<lparr>nm_stats := (nm_stats st)\<lparr>ns_clones := ns_clones (nm_stats st) + 1\<rparr>\<rparr>))"

definition net_buffer_note_fragment :: "netbuf_state \<Rightarrow> status \<times> netbuf_state" where
  "net_buffer_note_fragment st =
     (if \<not> ns_initialized (nm_stats st) then (ERR_STATE, st)
      else (OK, st\<lparr>nm_stats := (nm_stats st)\<lparr>ns_fragments := ns_fragments (nm_stats st) + 1\<rparr>\<rparr>))"

definition net_buffer_get_stats :: "netbuf_state \<Rightarrow> bool \<Rightarrow> status \<times> net_buffer_stats option" where
  "net_buffer_get_stats st has_out =
     (if \<not> has_out then (ERR_NULL, None)
      else if \<not> ns_initialized (nm_stats st) then (ERR_STATE, None)
      else (OK, Some (nm_stats st)))"

definition net_buffer_restore_stats ::
  "netbuf_state \<Rightarrow> net_buffer_stats option \<Rightarrow> status \<times> netbuf_state" where
  "net_buffer_restore_stats st saved_stats =
     (case saved_stats of
        None \<Rightarrow> (ERR_NULL, st)
      | Some saved \<Rightarrow>
          let result = (if \<exists>p \<in> set (nm_registry st). p \<noteq> NULL_PTR then ERR_STATE else OK);
              result = (if result = OK \<and> (\<not> ns_initialized saved \<or> ns_active_buffers saved \<noteq> 0 \<or>
                           ns_frees saved > ns_allocations saved \<or>
                           ns_peak_buffers saved < ns_active_buffers saved)
                        then ERR_STATE else result)
          in if result = OK then (OK, st\<lparr>nm_stats := saved\<rparr>) else (result, st))"

definition net_buffer_validate_entry_locked :: "netbuf_state \<Rightarrow> ptr \<Rightarrow> status" where
  "net_buffer_validate_entry_locked st buffer =
     (let b = nm_heap st buffer in
      if buffer = NULL_PTR \<or> nb_refcount b = 0 \<or> \<not> net_buffer_state_owner_valid (nb_state b) (nb_owner b)
      then ERR_STATE
      else if nb_state b < NET_BUFFER_STATE_ALLOCATED \<or> nb_state b > NET_BUFFER_STATE_DROPPED \<or>
              nb_capacity b = 0 \<or> nb_headroom b > nb_capacity b \<or>
              nb_length b > nb_capacity b - nb_headroom b \<or>
              nb_tailroom b \<noteq> nb_capacity b - nb_headroom b - nb_length b \<or>
              \<not> net_buffer_alignment_valid (nb_alignment b)
      then ERR_STATE
      else OK)"

text \<open>
  The loop of \<^verbatim>\<open>net_buffer_validate_state\<close> over the registry: an invalid entry ends it, a
  duplicate further on only spoils the result.
\<close>

fun net_buffer_validate_loop :: "netbuf_state \<Rightarrow> ptr list \<Rightarrow> u32 \<Rightarrow> status \<Rightarrow> u32 \<times> status" where
  "net_buffer_validate_loop st [] active result = (active, result)"
| "net_buffer_validate_loop st (buffer # others) active result =
     (if buffer = NULL_PTR then net_buffer_validate_loop st others active result
      else if net_buffer_validate_entry_locked st buffer \<noteq> OK then (active + 1, ERR_STATE)
      else net_buffer_validate_loop st others (active + 1)
             (if buffer \<in> set others then ERR_STATE else result))"

definition net_buffer_validate_state :: "netbuf_state \<Rightarrow> status" where
  "net_buffer_validate_state st =
     (if \<not> ns_initialized (nm_stats st)
      then (if ns_active_buffers (nm_stats st) \<noteq> 0 then ERR_STATE else OK)
      else
        let (active, result) = net_buffer_validate_loop st (nm_registry st) 0 OK
        in if active \<noteq> ns_active_buffers (nm_stats st) \<or>
              active > word_of_nat NET_BUFFER_TRACKING_CAPACITY \<or>
              ns_frees (nm_stats st) > ns_allocations (nm_stats st) \<or>
              ns_peak_buffers (nm_stats st) < active
           then ERR_STATE else result)"

section \<open>Self test\<close>

text \<open>
  The fixtures are descriptors on the stack; their addresses are parameters.
  \<open>expect e f\<close> is the check \<^verbatim>\<open>if (result == OK && f() != e) result = ERR_STATE\<close>.
\<close>

definition expect :: "status \<Rightarrow> ('s \<Rightarrow> status \<times> 's) \<Rightarrow> 's \<Rightarrow> status \<times> 's" where
  "expect e f s = (let (r, t) = f s in (if r \<noteq> e then ERR_STATE else OK, t))"

definition net_buffer_test_delivered :: "ptr \<Rightarrow> netbuf_state \<Rightarrow> status \<times> netbuf_state" where
  "net_buffer_test_delivered fixture st =
     (let r = net_buffer_begin (write_buffer fixture net_buffer_zero st) fixture 1518 32 1
                NET_BUFFER_OWNER_ETHERNET;
          r = and_then r (expect ERR_STATE (\<lambda>s. net_buffer_release s fixture));
          r = and_then r (expect ERR_INVALID (\<lambda>s. net_buffer_transition s fixture
                NET_BUFFER_STATE_DELIVERED NET_BUFFER_OWNER_NONE));
          r = and_then r (\<lambda>s. net_buffer_set_length s fixture 128);
          r = and_then r (\<lambda>s. net_buffer_transition s fixture NET_BUFFER_STATE_RX NET_BUFFER_OWNER_ETHERNET);
          r = and_then r (\<lambda>s. net_buffer_transition s fixture NET_BUFFER_STATE_QUEUED NET_BUFFER_OWNER_PROTOCOL);
          r = and_then r (\<lambda>s. net_buffer_retain s fixture);
          r = and_then r (\<lambda>s. net_buffer_transition s fixture NET_BUFFER_STATE_IN_FLIGHT NET_BUFFER_OWNER_SOCKET);
          r = and_then r (\<lambda>s. net_buffer_complete s fixture OK NET_BUFFER_OWNER_SOCKET);
          r = and_then r (\<lambda>s. net_buffer_release s fixture);
          r = and_then r (\<lambda>s. net_buffer_release s fixture);
          r = and_then r (expect ERR_INVALID (\<lambda>s. net_buffer_release s fixture))
      in and_then r (\<lambda>s. if nb_state (nm_heap s fixture) \<noteq> NET_BUFFER_STATE_FREED \<or>
                            nb_refcount (nm_heap s fixture) \<noteq> 0 \<or>
                            net_buffer_validate_state s \<noteq> OK
                         then (ERR_STATE, s) else (OK, s)))"

definition net_buffer_test_dropped :: "ptr \<Rightarrow> netbuf_state \<Rightarrow> status \<times> netbuf_state" where
  "net_buffer_test_dropped fixture st =
     (let r = net_buffer_begin (write_buffer fixture net_buffer_zero st) fixture 512 0 1
                NET_BUFFER_OWNER_ETHERNET;
          r = and_then r (\<lambda>s. net_buffer_complete s fixture ERR_TIMEOUT NET_BUFFER_OWNER_NONE);
          r = and_then r (expect ERR_STATE (\<lambda>s. net_buffer_complete s fixture ERR_TIMEOUT NET_BUFFER_OWNER_NONE));
          r = and_then r (\<lambda>s. net_buffer_release s fixture)
      in and_then r (\<lambda>s.
           let r = net_buffer_begin (write_buffer fixture net_buffer_zero s) fixture 512 0 1
                     NET_BUFFER_OWNER_ETHERNET;
               r = and_then r (\<lambda>s. net_buffer_transition s fixture NET_BUFFER_STATE_QUEUED NET_BUFFER_OWNER_PROTOCOL);
               r = and_then r (\<lambda>s. net_buffer_complete s fixture ERR_CANCELLED NET_BUFFER_OWNER_NONE);
               r = and_then r (expect ERR_STATE (\<lambda>s. net_buffer_complete s fixture ERR_CANCELLED NET_BUFFER_OWNER_NONE))
           in and_then r (\<lambda>s. net_buffer_release s fixture)))"

definition net_buffer_self_test :: "ptr \<Rightarrow> ptr \<Rightarrow> ptr \<Rightarrow> netbuf_state \<Rightarrow> status \<times> netbuf_state" where
  "net_buffer_self_test invalid_fixture delivered_fixture dropped_fixture st =
     (let (got, saved) = net_buffer_get_stats st True in
      if got \<noteq> OK then (ERR_STATE, st)
      else if ns_active_buffers (nm_stats st) \<noteq> 0 \<or> nm_testing st then (ERR_STATE, st)
      else
        let st = write_buffer invalid_fixture net_buffer_zero (st\<lparr>nm_testing := True\<rparr>);
            (r1, st) = net_buffer_begin st invalid_fixture 64 16 1 NET_BUFFER_OWNER_ETHERNET;
            (r2, st) = (if r1 = OK then net_buffer_set_length st invalid_fixture 49 else (ERR_OVERFLOW, st));
            result = (if r1 \<noteq> OK \<or> r2 \<noteq> ERR_OVERFLOW then ERR_STATE else OK);
            st = (if nb_state (nm_heap st invalid_fixture) \<noteq> NET_BUFFER_STATE_INVALID
                  then snd (net_buffer_release
                         (snd (net_buffer_complete st invalid_fixture ERR_STATE NET_BUFFER_OWNER_NONE))
                         invalid_fixture)
                  else st);
            r = and_then (result, st) (net_buffer_test_delivered delivered_fixture);
            r = and_then r (net_buffer_test_dropped dropped_fixture);
            r = and_then r (expect OK (\<lambda>s. net_buffer_note_copy s 128));
            r = and_then r (expect OK net_buffer_note_clone);
            (result, st) = and_then r (expect OK net_buffer_note_fragment);
            result = (if net_buffer_validate_state st \<noteq> OK then ERR_STATE else result);
            result = (if ns_active_buffers (nm_stats st) \<noteq> 0 \<or>
                         net_buffer_find_locked st invalid_fixture \<noteq> None
                      then ERR_STATE else result)
        in (result, st\<lparr>nm_registry := replicate NET_BUFFER_TRACKING_CAPACITY NULL_PTR, nm_testing := False,
                       nm_stats := the saved\<rparr>))"

end
