(* ===== verification/Net_Buffer_Correct.thy ===== *)
theory Net_Buffer_Correct
  imports Net_Buffer Slots
begin

text \<open>
  Correctness of the buffer lifetime contract: the invariant behind
  \<^verbatim>\<open>net_buffer_validate_state\<close> and that every call keeps it, the lifecycle of a registered
  descriptor, reference counting, and what the saturating and wrapping counters do.
\<close>

section \<open>The registry\<close>

interpretation registry: keyed_table "\<lambda>p :: ptr. p \<noteq> NULL_PTR" NULL_PTR "\<lambda>p. p"
  by unfold_locales simp

abbreviation tracked :: "netbuf_state \<Rightarrow> ptr list" where
  "tracked st \<equiv> filter (\<lambda>p. p \<noteq> NULL_PTR) (nm_registry st)"

definition netbuf_inv :: "netbuf_state \<Rightarrow> bool" where
  "netbuf_inv st \<longleftrightarrow>
     ns_initialized (nm_stats st) \<and>
     length (nm_registry st) = NET_BUFFER_TRACKING_CAPACITY \<and>
     keys_unique (\<lambda>p. p \<noteq> NULL_PTR) (\<lambda>p. p) (nm_registry st) \<and>
     (\<forall>p \<in> set (nm_registry st). p \<noteq> NULL_PTR \<longrightarrow> net_buffer_validate_entry_locked st p = OK) \<and>
     unat (ns_active_buffers (nm_stats st)) = length (tracked st) \<and>
     unat (ns_frees (nm_stats st)) + length (tracked st) \<le> unat (ns_allocations (nm_stats st)) \<and>
     ns_active_buffers (nm_stats st) \<le> ns_peak_buffers (nm_stats st)"

lemma validate_loop_ok:
  assumes "keys_unique (\<lambda>p. p \<noteq> NULL_PTR) (\<lambda>p. p) ps"
    and "\<forall>p \<in> set ps. p \<noteq> NULL_PTR \<longrightarrow> net_buffer_validate_entry_locked st p = OK"
  shows "net_buffer_validate_loop st ps a OK = (a + word_of_nat (length (filter (\<lambda>p. p \<noteq> NULL_PTR) ps)), OK)"
  using assms
proof (induction ps arbitrary: a)
  case (Cons p ps)
  then have "p \<noteq> NULL_PTR \<Longrightarrow> p \<notin> set ps" by (auto simp: keys_unique_Cons)
  with Cons show ?case by (auto simp: keys_unique_Cons)
qed simp

lemma tracked_le: "netbuf_inv st \<Longrightarrow> length (tracked st) \<le> 32"
  by (metis NET_BUFFER_TRACKING_CAPACITY_def length_filter_le netbuf_inv_def)

lemma unat_tracked: "netbuf_inv st \<Longrightarrow> unat (ns_active_buffers (nm_stats st)) = length (tracked st)"
  by (simp add: netbuf_inv_def)

lemma netbuf_inv_validate:
  assumes "netbuf_inv st"
  shows "net_buffer_validate_state st = OK"
proof -
  have "word_of_nat (length (tracked st)) = ns_active_buffers (nm_stats st)"
    by (metis unat_tracked [OF assms] word_of_nat_unat)
  moreover have "net_buffer_validate_loop st (nm_registry st) 0 OK = (0 + word_of_nat (length (tracked st)), OK)"
    using assms by (intro validate_loop_ok) (simp_all add: netbuf_inv_def)
  ultimately have "net_buffer_validate_loop st (nm_registry st) 0 OK = (ns_active_buffers (nm_stats st), OK)"
    by simp
  moreover have "\<not> ns_active_buffers (nm_stats st) > word_of_nat NET_BUFFER_TRACKING_CAPACITY"
    using tracked_le [OF assms] unat_tracked [OF assms]
    by (simp add: word_less_nat_alt NET_BUFFER_TRACKING_CAPACITY_def)
  moreover have "\<not> ns_frees (nm_stats st) > ns_allocations (nm_stats st)"
    using assms by (simp add: netbuf_inv_def word_less_nat_alt)
  ultimately show ?thesis using assms by (simp add: net_buffer_validate_state_def netbuf_inv_def not_less)
qed

lemma find_iff: "net_buffer_find_locked st p = None \<longleftrightarrow> p \<notin> set (nm_registry st)"
  by (auto simp: net_buffer_find_locked_def first_index_None_iff)

lemma owner_valid_iff: "net_buffer_owner_valid ow \<longleftrightarrow> ow \<noteq> NET_BUFFER_OWNER_NONE"
  by (cases ow) (simp_all add: net_buffer_owner_valid_def enum_order_defs)

lemma fail_frame [frame_simps]:
  "nm_heap (snd (net_buffer_fail_locked st r d)) = nm_heap st"
  "nm_registry (snd (net_buffer_fail_locked st r d)) = nm_registry st"
  "nm_testing (snd (net_buffer_fail_locked st r d)) = nm_testing st"
  "ns_initialized (nm_stats (snd (net_buffer_fail_locked st r d))) = ns_initialized (nm_stats st)"
  "ns_active_buffers (nm_stats (snd (net_buffer_fail_locked st r d))) = ns_active_buffers (nm_stats st)"
  "ns_peak_buffers (nm_stats (snd (net_buffer_fail_locked st r d))) = ns_peak_buffers (nm_stats st)"
  "ns_allocations (nm_stats (snd (net_buffer_fail_locked st r d))) = ns_allocations (nm_stats st)"
  "ns_frees (nm_stats (snd (net_buffer_fail_locked st r d))) = ns_frees (nm_stats st)"
  "ns_copied_bytes (nm_stats (snd (net_buffer_fail_locked st r d))) = ns_copied_bytes (nm_stats st)"
  "fst (net_buffer_fail_locked st r d) = r"
  by (simp_all add: net_buffer_fail_locked_def Let_def)

text \<open>The invariant reads the heap at registered addresses and five of the counters only.\<close>

lemma netbuf_inv_cong:
  assumes "netbuf_inv st" and "nm_registry st' = nm_registry st"
    and "\<And>p. p \<in> set (nm_registry st) \<Longrightarrow> p \<noteq> NULL_PTR \<Longrightarrow> net_buffer_validate_entry_locked st' p = OK"
    and "ns_initialized (nm_stats st')" "ns_active_buffers (nm_stats st') = ns_active_buffers (nm_stats st)"
      "ns_peak_buffers (nm_stats st') = ns_peak_buffers (nm_stats st)"
      "ns_allocations (nm_stats st') = ns_allocations (nm_stats st)" "ns_frees (nm_stats st') = ns_frees (nm_stats st)"
  shows "netbuf_inv st'"
  using assms by (auto simp: netbuf_inv_def)

lemma validate_entry_heap:
  "nm_heap st' p = nm_heap st p \<Longrightarrow>
   net_buffer_validate_entry_locked st' p = net_buffer_validate_entry_locked st p"
  by (simp add: net_buffer_validate_entry_locked_def)

lemma netbuf_inv_entry:
  "netbuf_inv st \<Longrightarrow> p \<in> set (nm_registry st) \<Longrightarrow> p \<noteq> NULL_PTR \<Longrightarrow> net_buffer_validate_entry_locked st p = OK"
  by (simp add: netbuf_inv_def)

lemma netbuf_inv_fail [inv_intros]: "netbuf_inv st \<Longrightarrow> netbuf_inv (snd (net_buffer_fail_locked st r d))"
  by (rule netbuf_inv_cong)
    (simp_all add: frame_simps netbuf_inv_entry netbuf_inv_def [THEN iffD1, THEN conjunct1]
      validate_entry_heap [where st = st and st' = "snd (net_buffer_fail_locked st r d)"])

text \<open>One descriptor of the registry is rewritten to a valid one.\<close>

lemma netbuf_inv_write:
  assumes "netbuf_inv st" and "p \<in> set (nm_registry st) \<Longrightarrow> net_buffer_validate_entry_locked (write_buffer p b st) p = OK"
  shows "netbuf_inv (write_buffer p b st)"
proof (rule netbuf_inv_cong [OF assms(1)])
  fix q assume q: "q \<in> set (nm_registry st)" "q \<noteq> NULL_PTR"
  show "net_buffer_validate_entry_locked (write_buffer p b st) q = OK"
  proof (cases "q = p")
    case False
    then show ?thesis using netbuf_inv_entry [OF assms(1) q] validate_entry_heap [of "write_buffer p b st" q st] by simp
  qed (use assms(2) q in simp)
qed (use assms(1) in \<open>simp_all add: netbuf_inv_def\<close>)

lemma netbuf_inv_stats:
  assumes "netbuf_inv st" and "ns_initialized s" "ns_active_buffers s = ns_active_buffers (nm_stats st)"
    "ns_peak_buffers s = ns_peak_buffers (nm_stats st)" "ns_allocations s = ns_allocations (nm_stats st)"
    "ns_frees s = ns_frees (nm_stats st)"
  shows "netbuf_inv (st\<lparr>nm_stats := s\<rparr>)"
  using assms by (intro netbuf_inv_cong [OF assms(1)]) (auto simp: netbuf_inv_def net_buffer_validate_entry_locked_def)

lemma state_owner_live:
  "net_buffer_state_owner_valid s ow \<Longrightarrow> s \<noteq> NET_BUFFER_STATE_INVALID \<and> s \<noteq> NET_BUFFER_STATE_FREED"
  by (auto simp: net_buffer_state_owner_valid_def)

lemma validate_entry_iff:
  "net_buffer_validate_entry_locked st p = OK \<longleftrightarrow>
     p \<noteq> NULL_PTR \<and> nb_refcount (nm_heap st p) \<noteq> 0 \<and>
     net_buffer_state_owner_valid (nb_state (nm_heap st p)) (nb_owner (nm_heap st p)) \<and>
     nb_capacity (nm_heap st p) \<noteq> 0 \<and> nb_headroom (nm_heap st p) \<le> nb_capacity (nm_heap st p) \<and>
     nb_length (nm_heap st p) \<le> nb_capacity (nm_heap st p) - nb_headroom (nm_heap st p) \<and>
     nb_tailroom (nm_heap st p) = nb_capacity (nm_heap st p) - nb_headroom (nm_heap st p) - nb_length (nm_heap st p) \<and>
     net_buffer_alignment_valid (nb_alignment (nm_heap st p))"
proof -
  have "net_buffer_state_owner_valid s ow \<Longrightarrow> \<not> s < NET_BUFFER_STATE_ALLOCATED \<and> \<not> s > NET_BUFFER_STATE_DROPPED" for s ow
    by (cases s) (simp_all add: net_buffer_state_owner_valid_def enum_order_defs)
  from this [of "nb_state (nm_heap st p)" "nb_owner (nm_heap st p)"] show ?thesis
    by (auto simp: net_buffer_validate_entry_locked_def Let_def not_less)
qed

lemma check_active_OK:
  "net_buffer_check_active_locked st p = OK \<longleftrightarrow>
     p \<noteq> NULL_PTR \<and> ns_initialized (nm_stats st) \<and> p \<in> set (nm_registry st) \<and>
     nb_refcount (nm_heap st p) \<noteq> 0 \<and> nb_state (nm_heap st p) \<noteq> NET_BUFFER_STATE_FREED"
  by (auto simp: net_buffer_check_active_locked_def find_iff)

lemma check_active_inv:
  assumes "netbuf_inv st"
  shows "net_buffer_check_active_locked st p =
    (if p = NULL_PTR then ERR_NULL else if p \<in> set (nm_registry st) then OK else ERR_INVALID)"
proof (cases "p \<noteq> NULL_PTR \<and> p \<in> set (nm_registry st)")
  case True
  then have "net_buffer_check_active_locked st p = OK"
    using netbuf_inv_entry [OF assms, of p] assms state_owner_live
    by (auto simp: check_active_OK validate_entry_iff netbuf_inv_def)
  with True show ?thesis by simp
next
  case False
  then show ?thesis using assms
    by (auto simp: net_buffer_check_active_locked_def find_iff netbuf_inv_def)
qed

lemma layout_inv [inv_intros]:
  assumes "netbuf_inv st"
  shows "netbuf_inv (snd (net_buffer_set_layout_locked st p h n))"
proof (cases "fst (net_buffer_set_layout_locked st p h n) = OK")
  case True
  have v: "p \<noteq> NULL_PTR \<Longrightarrow> p \<in> set (nm_registry st) \<Longrightarrow> net_buffer_validate_entry_locked st p = OK"
    using netbuf_inv_entry [OF assms] by simp
  from True have ok: "net_buffer_check_active_locked st p = OK" "h \<le> nb_capacity (nm_heap st p)"
      "n \<le> nb_capacity (nm_heap st p) - h"
      "nb_state (nm_heap st p) \<noteq> NET_BUFFER_STATE_DELIVERED" "nb_state (nm_heap st p) \<noteq> NET_BUFFER_STATE_DROPPED"
    by (auto simp: net_buffer_set_layout_locked_def Let_def split: if_splits)
  let ?b = "(nm_heap st p)\<lparr>nb_headroom := h, nb_length := n, nb_tailroom := nb_capacity (nm_heap st p) - h - n\<rparr>"
  have r: "snd (net_buffer_set_layout_locked st p h n) = write_buffer p ?b st"
    using ok by (simp add: net_buffer_set_layout_locked_def Let_def not_less [symmetric])
  have "net_buffer_validate_entry_locked (write_buffer p ?b st) p = OK"
    using ok v by (simp add: validate_entry_iff check_active_OK)
  then show ?thesis unfolding r by (intro netbuf_inv_write assms)
next
  case False
  then have "\<exists>r. snd (net_buffer_set_layout_locked st p h n) = snd (net_buffer_fail_locked st r False)"
    by (auto simp: net_buffer_set_layout_locked_def Let_def split: if_splits)
  then show ?thesis using netbuf_inv_fail [OF assms] by metis
qed


lemma set_length_inv [inv_intros]:
  "netbuf_inv st \<Longrightarrow> netbuf_inv (snd (net_buffer_set_length st p n))"
  by (auto simp: net_buffer_set_length_def Let_def intro: inv_intros)

text \<open>The shape of the remaining mutators: rewrite one tracked descriptor, then bump counters.\<close>

lemma netbuf_inv_write_stats:
  assumes "netbuf_inv st" and "net_buffer_validate_entry_locked (write_buffer p b st) p = OK"
    and "ns_initialized s" "ns_active_buffers s = ns_active_buffers (nm_stats st)"
    "ns_peak_buffers s = ns_peak_buffers (nm_stats st)" "ns_allocations s = ns_allocations (nm_stats st)"
    "ns_frees s = ns_frees (nm_stats st)"
  shows "netbuf_inv ((write_buffer p b st)\<lparr>nm_stats := s\<rparr>)"
  by (rule netbuf_inv_stats [OF netbuf_inv_write]) (use assms in simp_all)

lemma transition_inv [inv_intros]:
  assumes "netbuf_inv st"
  shows "netbuf_inv (snd (net_buffer_transition st p s ow))"
  using assms netbuf_inv_entry [OF assms, of p]
  by (auto simp: net_buffer_transition_def Let_def check_active_OK validate_entry_iff
      intro!: inv_intros netbuf_inv_write)

lemma netbuf_inv_initialized: "netbuf_inv st \<Longrightarrow> ns_initialized (nm_stats st)"
  by (simp add: netbuf_inv_def)

lemma complete_inv [inv_intros]:
  assumes "netbuf_inv st"
  shows "netbuf_inv (snd (net_buffer_complete st p r ow))"
  using assms netbuf_inv_entry [OF assms, of p] netbuf_inv_initialized [OF assms]
  by (auto simp: net_buffer_complete_def net_buffer_complete_locked_def Let_def check_active_OK validate_entry_iff
      net_buffer_state_owner_valid_def owner_valid_iff intro!: inv_intros netbuf_inv_write_stats)

lemma retain_inv [inv_intros]:
  assumes "netbuf_inv st"
  shows "netbuf_inv (snd (net_buffer_retain st p))"
proof -
  have "x \<noteq> NET_BUFFER_COUNTER_MAX \<Longrightarrow> x + 1 \<noteq> 0" for x :: u32
    by (metis NET_BUFFER_COUNTER_MAX_def Zero_not_Suc unat_0 unat_word_Suc)
  then show ?thesis
    using assms netbuf_inv_entry [OF assms, of p] netbuf_inv_initialized [OF assms]
    by (auto simp: net_buffer_retain_def Let_def check_active_OK validate_entry_iff
        intro!: inv_intros netbuf_inv_write_stats)
qed

lemma note_inv [inv_intros]:
  assumes "netbuf_inv st"
  shows "netbuf_inv (snd (net_buffer_note_copy st n))" "netbuf_inv (snd (net_buffer_note_clone st))"
    "netbuf_inv (snd (net_buffer_note_fragment st))"
  using netbuf_inv_initialized [OF assms] assms
  by (auto simp: net_buffer_note_copy_def net_buffer_note_clone_def net_buffer_note_fragment_def
      intro!: inv_intros netbuf_inv_stats)

lemma tracked_empty_iff: "(\<forall>p \<in> set (nm_registry st). p = NULL_PTR) \<longleftrightarrow> tracked st = []"
  by (auto simp: filter_empty_conv)

lemma restore_inv [inv_intros]:
  assumes "netbuf_inv st"
  shows "netbuf_inv (snd (net_buffer_restore_stats st saved))"
proof (cases "fst (net_buffer_restore_stats st saved) = OK")
  case True
  then obtain s where s: "saved = Some s" "\<forall>p \<in> set (nm_registry st). p = NULL_PTR" "ns_initialized s"
      "ns_active_buffers s = 0" "ns_frees s \<le> ns_allocations s"
      "net_buffer_restore_stats st saved = (OK, st\<lparr>nm_stats := s\<rparr>)"
    by (auto simp: net_buffer_restore_stats_def Let_def not_less split: option.splits if_splits)
  then have "tracked st = []" by (simp add: filter_empty_conv)
  with s show ?thesis using assms by (simp add: netbuf_inv_def word_le_nat_alt)
next
  case False
  then have "snd (net_buffer_restore_stats st saved) = st"
    by (auto simp: net_buffer_restore_stats_def Let_def split: option.splits if_splits)
  then show ?thesis using assms by simp
qed


lemma begin_ok:
  assumes "net_buffer_begin st p cap h al ow = (OK, st')"
  obtains slot where "first_index (\<lambda>q. \<not> q \<noteq> NULL_PTR) (nm_registry st) = Some slot"
    and "p \<noteq> NULL_PTR" and "p \<notin> set (nm_registry st)" and "nb_state (nm_heap st p) = NET_BUFFER_STATE_INVALID"
    and "cap \<noteq> 0" "h \<le> cap" "net_buffer_alignment_valid al" "net_buffer_owner_valid ow"
    and "nm_heap st' = (nm_heap st)(p := net_buffer_zero\<lparr>nb_state := NET_BUFFER_STATE_ALLOCATED,
       nb_owner := ow, nb_refcount := 1, nb_capacity := cap, nb_headroom := h, nb_tailroom := cap - h,
       nb_alignment := al\<rparr>)"
    and "nm_registry st' = (nm_registry st)[slot := p]"
    and "nm_testing st' = nm_testing st" and "ns_initialized (nm_stats st')"
    and "ns_active_buffers (nm_stats st') = ns_active_buffers (nm_stats st) + 1"
    and "ns_allocations (nm_stats st') = ns_allocations (nm_stats st) + 1"
    and "ns_frees (nm_stats st') = ns_frees (nm_stats st)"
    and "ns_copied_bytes (nm_stats st') = ns_copied_bytes (nm_stats st)"
    and "ns_peak_buffers (nm_stats st') =
      (if ns_active_buffers (nm_stats st) + 1 > ns_peak_buffers (nm_stats st)
       then ns_active_buffers (nm_stats st) + 1 else ns_peak_buffers (nm_stats st))"
  using assms
  by (auto simp: net_buffer_begin_def Let_def find_iff net_buffer_free_slot_locked_def not_less
      split: option.splits if_splits)

lemma begin_fails:
  assumes "fst (net_buffer_begin st p cap h al ow) \<noteq> OK"
  shows "snd (net_buffer_begin st p cap h al ow) \<in> {st, snd (net_buffer_fail_locked st ERR_OVERFLOW False)}"
  using assms by (auto simp: net_buffer_begin_def Let_def split: option.splits if_splits)

lemma begin_inv [inv_intros]:
  assumes inv: "netbuf_inv st"
    and up: "ns_allocations (nm_stats st) \<le> ns_allocations (nm_stats (snd (net_buffer_begin st p cap h al ow)))"
  shows "netbuf_inv (snd (net_buffer_begin st p cap h al ow))"
proof (cases "fst (net_buffer_begin st p cap h al ow) = OK")
  case False
  then show ?thesis using begin_fails [OF False] inv netbuf_inv_fail [OF inv] by auto
next
  case True
  let ?st = "snd (net_buffer_begin st p cap h al ow)"
  from True have "net_buffer_begin st p cap h al ow = (OK, ?st)" by (simp add: prod_eq_iff)
  then show ?thesis
  proof (cases rule: begin_ok)
    case (1 slot)
    have c: "length (tracked ?st) = Suc (length (tracked st))"
      using registry.claim_count [OF 1(1)] 1 by simp
    have a: "unat (ns_active_buffers (nm_stats st) + 1) = Suc (length (tracked st))"
      using unat_tracked [OF inv] tracked_le [OF inv] by (subst unat_word_Suc) auto
    have u: "keys_unique (\<lambda>p. p \<noteq> NULL_PTR) (\<lambda>p. p) (nm_registry ?st)"
      using registry.keys_unique_claim [of "nm_registry st" p slot] inv 1
      by (auto simp: netbuf_inv_def slot_map_None_iff)
    have v: "net_buffer_validate_entry_locked ?st q = OK" if "q \<in> set (nm_registry ?st)" "q \<noteq> NULL_PTR" for q
    proof (cases "q = p")
      case True
      then show ?thesis using 1
        by (simp add: validate_entry_iff net_buffer_zero_def net_buffer_state_owner_valid_def)
    next
      case False
      then have "q \<in> set (nm_registry st)"
        using that 1 set_update_subset_insert [of "nm_registry st" slot p] by auto
      then show ?thesis
        using netbuf_inv_entry [OF inv _ that(2)] validate_entry_heap [of ?st q st] False 1 by simp
    qed
    have "ns_allocations (nm_stats st) \<noteq> 0xFFFFFFFF" using up 1 by auto
    from unat_word_Suc [OF this] show ?thesis
      using inv c a u v 1 unfolding netbuf_inv_def by auto
  qed
qed

lemma release_not_done:
  assumes "netbuf_inv st" and "p \<in> set (nm_registry st)" "p \<noteq> NULL_PTR"
    and "nb_state (nm_heap st p) \<notin> {NET_BUFFER_STATE_DELIVERED, NET_BUFFER_STATE_DROPPED}"
  shows "net_buffer_release st p = (ERR_STATE, snd (net_buffer_fail_locked st ERR_STATE False))"
  using assms by (simp add: net_buffer_release_def Let_def check_active_inv)

lemma release_foreign:
  assumes "netbuf_inv st" and "p \<notin> set (nm_registry st) \<or> p = NULL_PTR"
  shows "fst (net_buffer_release st p) = (if p = NULL_PTR then ERR_NULL else ERR_INVALID)"
    and "\<exists>r. snd (net_buffer_release st p) = snd (net_buffer_fail_locked st r False)"
  using assms by (auto simp: net_buffer_release_def Let_def check_active_inv)

abbreviation done_states :: "net_buffer_state set" where
  "done_states \<equiv> {NET_BUFFER_STATE_DELIVERED, NET_BUFFER_STATE_DROPPED}"

lemma release_shared:
  assumes "netbuf_inv st" and "p \<in> set (nm_registry st)" "p \<noteq> NULL_PTR"
    and "nb_state (nm_heap st p) \<in> done_states" and "nb_refcount (nm_heap st p) > 1"
  shows "net_buffer_release st p =
    (OK, (write_buffer p ((nm_heap st p)\<lparr>nb_refcount := nb_refcount (nm_heap st p) - 1\<rparr>) st)
       \<lparr>nm_stats := (nm_stats st)\<lparr>ns_ref_releases := ns_ref_releases (nm_stats st) + 1\<rparr>\<rparr>)"
  using assms by (auto simp: net_buffer_release_def Let_def check_active_inv)

lemma tracked_pos: "p \<in> set (nm_registry st) \<Longrightarrow> p \<noteq> NULL_PTR \<Longrightarrow> 0 < length (tracked st)"
  by (auto simp: filter_empty_conv)

lemma release_last:
  assumes inv: "netbuf_inv st" and p: "p \<in> set (nm_registry st)" "p \<noteq> NULL_PTR"
    and "nb_state (nm_heap st p) \<in> done_states" and "\<not> nb_refcount (nm_heap st p) > 1"
  obtains slot st' where "first_index (\<lambda>q. q = p) (nm_registry st) = Some slot"
    and "net_buffer_release st p = (OK, st')"
    and "nm_heap st' = (nm_heap st)(p := (nm_heap st p)\<lparr>nb_refcount := 0,
       nb_state := NET_BUFFER_STATE_FREED, nb_owner := NET_BUFFER_OWNER_NONE\<rparr>)"
    and "nm_registry st' = (nm_registry st)[slot := NULL_PTR]"
    and "ns_initialized (nm_stats st')" "nm_testing st' = nm_testing st"
    and "ns_active_buffers (nm_stats st') = ns_active_buffers (nm_stats st) - 1"
    and "ns_frees (nm_stats st') = ns_frees (nm_stats st) + 1"
    and "ns_allocations (nm_stats st') = ns_allocations (nm_stats st)"
    and "ns_peak_buffers (nm_stats st') = ns_peak_buffers (nm_stats st)"
    and "ns_copied_bytes (nm_stats st') = ns_copied_bytes (nm_stats st)"
proof -
  obtain slot where s: "first_index (\<lambda>q. q = p) (nm_registry st) = Some slot"
    using first_index_Some_ex [OF p(1), of "\<lambda>q. q = p"] by auto
  have "unat (ns_active_buffers (nm_stats st)) \<noteq> 0"
    using unat_tracked [OF inv] tracked_pos [OF p] by simp
  then have "ns_active_buffers (nm_stats st) \<noteq> 0" by auto
  then show ?thesis
    using assms s netbuf_inv_initialized [OF inv] that
    by (auto simp: net_buffer_release_def Let_def check_active_inv net_buffer_find_locked_def)
qed

lemma release_inv [inv_intros]:
  assumes inv: "netbuf_inv st"
  shows "netbuf_inv (snd (net_buffer_release st p))"
proof -
  consider (foreign) "p \<notin> set (nm_registry st) \<or> p = NULL_PTR"
    | (early) "p \<in> set (nm_registry st)" "p \<noteq> NULL_PTR" "nb_state (nm_heap st p) \<notin> done_states"
    | (shared) "p \<in> set (nm_registry st)" "p \<noteq> NULL_PTR" "nb_state (nm_heap st p) \<in> done_states" "nb_refcount (nm_heap st p) > 1"
    | (last) "p \<in> set (nm_registry st)" "p \<noteq> NULL_PTR" "nb_state (nm_heap st p) \<in> done_states" "\<not> nb_refcount (nm_heap st p) > 1"
    by blast
  then show ?thesis
  proof cases
    case foreign
    then show ?thesis using release_foreign(2) [OF inv foreign] netbuf_inv_fail [OF inv] by metis
  next
    case early
    then show ?thesis using release_not_done [OF inv] netbuf_inv_fail [OF inv] by simp
  next
    case shared
    have "nb_refcount (nm_heap st p) - 1 \<noteq> 0" using shared(4) by auto
    then show ?thesis
      unfolding release_shared [OF inv shared] snd_conv
      using netbuf_inv_entry [OF inv shared(1,2)] netbuf_inv_initialized [OF inv]
      by (intro netbuf_inv_write_stats inv) (simp_all add: validate_entry_iff)
  next
    case last
    then show ?thesis
    proof (cases rule: release_last [OF inv last])
      case (1 slot st')
      have i: "slot < length (nm_registry st)" "nm_registry st ! slot = p"
        using first_index_SomeD [OF 1(1)] by auto
      have c: "Suc (length (tracked st')) = length (tracked st)"
        using registry.release_count [of slot "nm_registry st"] i last(2) 1(4) by simp
      have "ns_active_buffers (nm_stats st) \<noteq> 0" using unat_tracked [OF inv] c by auto
      then have a: "unat (ns_active_buffers (nm_stats st')) = length (tracked st')"
        using unat_tracked [OF inv] c 1(7) by (simp add: unat_minus_one)
      have v: "net_buffer_validate_entry_locked st' q = OK" if "q \<in> set (nm_registry st')" "q \<noteq> NULL_PTR" for q
      proof -
        have "q \<in> set (nm_registry st)" "q \<noteq> p"
          using registry.release_members_iff [of "nm_registry st" slot q] inv i last(2) that 1(4) by (auto simp: netbuf_inv_def)
        then show ?thesis
          using netbuf_inv_entry [OF inv _ that(2)] validate_entry_heap [of st' q st] 1(3) by simp
      qed
      have f: "unat (ns_frees (nm_stats st')) \<le> Suc (unat (ns_frees (nm_stats st)))"
        using 1(8) unat_word_Suc_le by simp
      show ?thesis
        using inv c a v f 1 registry.keys_unique_release [of "nm_registry st" slot]
        by (auto simp: netbuf_inv_def word_le_nat_alt)
    qed
  qed
qed

section \<open>Reachable states\<close>

text \<open>
  One call of the contract, or a store to a descriptor that is not registered (its owner
  preparing or recycling it). A state is reachable by calls none of which makes the 32-bit
  allocation counter wrap; what happens at the wrap is \<open>net_buffer_wrap_invalidates\<close>.
\<close>

inductive traffic_step :: "netbuf_state \<Rightarrow> netbuf_state \<Rightarrow> bool" where
  init: "traffic_step st (snd (net_buffer_init st))"
| begin_buffer: "traffic_step st (snd (net_buffer_begin st p cap h al ow))"
| layout: "traffic_step st (snd (net_buffer_set_layout st p h n))"
| len: "traffic_step st (snd (net_buffer_set_length st p n))"
| transition: "traffic_step st (snd (net_buffer_transition st p s ow))"
| complete: "traffic_step st (snd (net_buffer_complete st p r ow))"
| retain: "traffic_step st (snd (net_buffer_retain st p))"
| release: "traffic_step st (snd (net_buffer_release st p))"
| note_copy: "traffic_step st (snd (net_buffer_note_copy st n))"
| note_clone: "traffic_step st (snd (net_buffer_note_clone st))"
| note_fragment: "traffic_step st (snd (net_buffer_note_fragment st))"
| self_test: "traffic_step st (snd (net_buffer_self_test a b c st))"
| foreign: "p \<notin> set (nm_registry st) \<Longrightarrow> traffic_step st (write_buffer p b st)"

inductive netbuf_reachable :: "netbuf_state \<Rightarrow> bool" where
  boot: "netbuf_reachable (snd (net_buffer_init netbuf_static))"
| step: "netbuf_reachable st \<Longrightarrow> traffic_step st st' \<Longrightarrow>
    ns_allocations (nm_stats st) \<le> ns_allocations (nm_stats st') \<Longrightarrow> netbuf_reachable st'"
| restore: "netbuf_reachable st \<Longrightarrow> netbuf_reachable (snd (net_buffer_restore_stats st saved))"

lemma self_test_result:
  "snd (net_buffer_self_test a b c st) = st \<or>
   ns_initialized (nm_stats st) \<and> ns_active_buffers (nm_stats st) = 0 \<and>
   nm_registry (snd (net_buffer_self_test a b c st)) = replicate NET_BUFFER_TRACKING_CAPACITY NULL_PTR \<and>
   nm_stats (snd (net_buffer_self_test a b c st)) = nm_stats st"
  by (auto simp: net_buffer_self_test_def net_buffer_get_stats_def Let_def case_prod_beta)

lemma init_inv [inv_intros]: "netbuf_inv st \<Longrightarrow> netbuf_inv (snd (net_buffer_init st))"
  by (auto simp: net_buffer_init_def netbuf_inv_def net_buffer_validate_entry_locked_def)

lemma boot_inv: "netbuf_inv (snd (net_buffer_init netbuf_static))"
  by (simp add: net_buffer_init_def netbuf_inv_def netbuf_static_def net_buffer_stats_zero_def keys_unique_def)

lemma self_test_inv [inv_intros]:
  assumes "netbuf_inv st"
  shows "netbuf_inv (snd (net_buffer_self_test a b c st))"
  using self_test_result [of a b c st]
proof
  assume "snd (net_buffer_self_test a b c st) = st"
  with assms show ?thesis by simp
next
  assume "ns_initialized (nm_stats st) \<and> ns_active_buffers (nm_stats st) = 0 \<and>
   nm_registry (snd (net_buffer_self_test a b c st)) = replicate NET_BUFFER_TRACKING_CAPACITY NULL_PTR \<and>
   nm_stats (snd (net_buffer_self_test a b c st)) = nm_stats st"
  with assms show ?thesis by (auto simp: netbuf_inv_def registry.keys_unique_clear)
qed

lemma traffic_step_inv:
  "traffic_step st st' \<Longrightarrow> ns_allocations (nm_stats st) \<le> ns_allocations (nm_stats st') \<Longrightarrow> netbuf_inv st \<Longrightarrow> netbuf_inv st'"
  by (induction rule: traffic_step.induct)
    (auto simp: net_buffer_set_layout_def intro: inv_intros netbuf_inv_write)

lemma reachable_inv: "netbuf_reachable st \<Longrightarrow> netbuf_inv st"
  by (induction rule: netbuf_reachable.induct) (auto intro: boot_inv traffic_step_inv restore_inv)

section \<open>Lifecycle\<close>

fun life_edge :: "net_buffer_state \<Rightarrow> net_buffer_state \<Rightarrow> bool" where
  "life_edge NET_BUFFER_STATE_ALLOCATED b \<longleftrightarrow>
     b \<in> {NET_BUFFER_STATE_RX, NET_BUFFER_STATE_QUEUED, NET_BUFFER_STATE_IN_FLIGHT, NET_BUFFER_STATE_DROPPED}"
| "life_edge NET_BUFFER_STATE_RX b \<longleftrightarrow>
     b \<in> {NET_BUFFER_STATE_QUEUED, NET_BUFFER_STATE_IN_FLIGHT, NET_BUFFER_STATE_DELIVERED, NET_BUFFER_STATE_DROPPED}"
| "life_edge NET_BUFFER_STATE_QUEUED b \<longleftrightarrow>
     b \<in> {NET_BUFFER_STATE_IN_FLIGHT, NET_BUFFER_STATE_DELIVERED, NET_BUFFER_STATE_DROPPED}"
| "life_edge NET_BUFFER_STATE_IN_FLIGHT b \<longleftrightarrow> b \<in> {NET_BUFFER_STATE_DELIVERED, NET_BUFFER_STATE_DROPPED}"
| "life_edge a b \<longleftrightarrow> False"

lemma life_edge_less: "life_edge a b \<Longrightarrow> a < b"
  by (cases a) (auto simp: enum_order_defs)

lemma transition_allowed_edge:
  "net_buffer_transition_allowed a b \<longleftrightarrow> life_edge a b \<and> b \<notin> done_states"
  by (cases a) (auto simp: net_buffer_transition_allowed_def)

text \<open>What one step does to a registered descriptor.\<close>

definition lives_on :: "netbuf_state \<Rightarrow> netbuf_state \<Rightarrow> ptr \<Rightarrow> bool" where
  "lives_on st st' p \<longleftrightarrow>
     p \<in> set (nm_registry st') \<and>
     (nb_state (nm_heap st' p) = nb_state (nm_heap st p) \<or>
      life_edge (nb_state (nm_heap st p)) (nb_state (nm_heap st' p)))"

definition let_go :: "netbuf_state \<Rightarrow> netbuf_state \<Rightarrow> ptr \<Rightarrow> bool" where
  "let_go st st' p \<longleftrightarrow>
     p \<notin> set (nm_registry st') \<and> nb_state (nm_heap st p) \<in> done_states \<and>
     nb_refcount (nm_heap st p) = 1 \<and> nb_state (nm_heap st' p) = NET_BUFFER_STATE_FREED"

lemma lives_on_same:
  "p \<in> set (nm_registry st) \<Longrightarrow> nm_registry st' = nm_registry st \<Longrightarrow> nm_heap st' p = nm_heap st p \<Longrightarrow> lives_on st st' p"
  by (simp add: lives_on_def)

lemma lives_on_simps:
  assumes "p \<in> set (nm_registry st)"
  shows "lives_on st (snd (net_buffer_set_layout st q h n)) p" "lives_on st (snd (net_buffer_set_length st q n)) p"
    "lives_on st (snd (net_buffer_transition st q s ow)) p" "lives_on st (snd (net_buffer_retain st q)) p"
    "lives_on st (snd (net_buffer_note_copy st n)) p" "lives_on st (snd (net_buffer_note_clone st)) p"
    "lives_on st (snd (net_buffer_note_fragment st)) p"
  using assms
  by (auto simp: net_buffer_set_layout_def net_buffer_set_length_def net_buffer_set_layout_locked_def
      net_buffer_transition_def net_buffer_retain_def net_buffer_note_copy_def net_buffer_note_clone_def
      net_buffer_note_fragment_def lives_on_def Let_def frame_simps transition_allowed_edge)

lemma lives_on_complete:
  assumes "p \<in> set (nm_registry st)"
  shows "lives_on st (snd (net_buffer_complete st q r ow)) p"
  using assms by (auto simp: net_buffer_complete_def net_buffer_complete_locked_def lives_on_def Let_def frame_simps)

lemma lives_on_begin:
  assumes "p \<in> set (nm_registry st)" "p \<noteq> NULL_PTR"
  shows "lives_on st (snd (net_buffer_begin st q cap h al ow)) p"
proof (cases "fst (net_buffer_begin st q cap h al ow) = OK")
  case False
  then show ?thesis using begin_fails [OF False] assms by (auto simp: lives_on_def frame_simps)
next
  case True
  let ?st = "snd (net_buffer_begin st q cap h al ow)"
  from True have "net_buffer_begin st q cap h al ow = (OK, ?st)" by (simp add: prod_eq_iff)
  then show ?thesis
  proof (cases rule: begin_ok)
    case (1 slot)
    then show ?thesis
      using assms registry.claim_members [OF 1(1,2), of p] by (auto simp: lives_on_def)
  qed
qed

lemma release_lives:
  assumes inv: "netbuf_inv st" and p: "p \<in> set (nm_registry st)" "p \<noteq> NULL_PTR"
  shows "lives_on st (snd (net_buffer_release st q)) p \<or> let_go st (snd (net_buffer_release st q)) p"
proof -
  consider (foreign) "q \<notin> set (nm_registry st) \<or> q = NULL_PTR"
    | (early) "q \<in> set (nm_registry st)" "q \<noteq> NULL_PTR" "nb_state (nm_heap st q) \<notin> done_states"
    | (shared) "q \<in> set (nm_registry st)" "q \<noteq> NULL_PTR" "nb_state (nm_heap st q) \<in> done_states" "nb_refcount (nm_heap st q) > 1"
    | (last) "q \<in> set (nm_registry st)" "q \<noteq> NULL_PTR" "nb_state (nm_heap st q) \<in> done_states" "\<not> nb_refcount (nm_heap st q) > 1"
    by blast
  then show ?thesis
  proof cases
    case foreign
    then show ?thesis using release_foreign(2) [OF inv foreign] p by (auto simp: lives_on_def frame_simps)
  next
    case early
    then show ?thesis using release_not_done [OF inv] p by (simp add: lives_on_def frame_simps)
  next
    case shared
    then show ?thesis using release_shared [OF inv shared] p by (simp add: lives_on_def)
  next
    case last
    then show ?thesis
    proof (cases rule: release_last [OF inv last])
      case (1 slot st')
      have i: "slot < length (nm_registry st)" "nm_registry st ! slot = q"
        using first_index_SomeD [OF 1(1)] by auto
      have m: "p \<in> set (nm_registry st') \<longleftrightarrow> p \<noteq> q"
        using registry.release_members_iff [of "nm_registry st" slot p] inv i last(2) p 1(4) by (auto simp: netbuf_inv_def)
      have "nb_refcount (nm_heap st q) \<noteq> 0"
        using netbuf_inv_entry [OF inv last(1,2)] by (simp add: validate_entry_iff)
      then have "nb_refcount (nm_heap st q) = 1" using last(4)
        by (metis linorder_neqE word_less_1 not_less_iff_gr_or_eq)
      then show ?thesis using m 1 last by (cases "p = q") (simp_all add: lives_on_def let_go_def)
    qed
  qed
qed

lemma step_lives:
  assumes "traffic_step st st'" and "netbuf_inv st" and "p \<in> set (nm_registry st)" "p \<noteq> NULL_PTR"
  shows "lives_on st st' p \<or> let_go st st' p"
  using assms
proof (induction rule: traffic_step.induct)
  case (init st)
  then show ?case by (simp add: net_buffer_init_def netbuf_inv_def lives_on_def)
next
  case (self_test st a b c)
  have "tracked st \<noteq> []" using tracked_pos [OF self_test(2,3)] by simp
  then have "ns_active_buffers (nm_stats st) \<noteq> 0" using unat_tracked [OF self_test(1)] by auto
  then have "snd (net_buffer_self_test a b c st) = st" using self_test_result [of a b c st] by blast
  then show ?case using self_test by (simp add: lives_on_def)
next
  case (foreign p' st b)
  then show ?case by (auto simp: lives_on_def)
qed (auto simp: lives_on_simps lives_on_complete lives_on_begin release_lives)

section \<open>Reference counting\<close>

primrec releases :: "nat \<Rightarrow> ptr \<Rightarrow> netbuf_state \<Rightarrow> netbuf_state" where
  "releases 0 p st = st"
| "releases (Suc k) p st = snd (net_buffer_release (releases k p st) p)"

lemma release_completed:
  assumes inv: "netbuf_inv st" and p: "p \<in> set (nm_registry st)" "p \<noteq> NULL_PTR"
    and fin: "nb_state (nm_heap st p) \<in> done_states" and n: "unat (nb_refcount (nm_heap st p)) = Suc n"
  shows "fst (net_buffer_release st p) = OK"
    and "n \<noteq> 0 \<Longrightarrow> p \<in> set (nm_registry (snd (net_buffer_release st p)))"
    and "n \<noteq> 0 \<Longrightarrow> nb_state (nm_heap (snd (net_buffer_release st p)) p) \<in> done_states"
    and "n \<noteq> 0 \<Longrightarrow> unat (nb_refcount (nm_heap (snd (net_buffer_release st p)) p)) = n"
    and "n = 0 \<Longrightarrow> p \<notin> set (nm_registry (snd (net_buffer_release st p)))"
proof -
  have gt: "nb_refcount (nm_heap st p) > 1 \<longleftrightarrow> n \<noteq> 0"
    using n by (simp add: word_less_nat_alt)
  have one: "nb_refcount (nm_heap st p) \<noteq> 0" using n by auto
  have many: "net_buffer_release st p =
    (OK, (write_buffer p ((nm_heap st p)\<lparr>nb_refcount := nb_refcount (nm_heap st p) - 1\<rparr>) st)
       \<lparr>nm_stats := (nm_stats st)\<lparr>ns_ref_releases := ns_ref_releases (nm_stats st) + 1\<rparr>\<rparr>)" if "n \<noteq> 0"
    using release_shared [OF inv p fin] gt that by simp
  have final: "fst (net_buffer_release st p) = OK \<and> p \<notin> set (nm_registry (snd (net_buffer_release st p)))" if "n = 0"
  proof (cases rule: release_last [OF inv p fin])
    case 1 then show ?case using gt that by simp
  next
    case (2 slot st')
    have "p \<notin> set (nm_registry st')"
      using registry.release_members_iff [of "nm_registry st" slot p] inv first_index_SomeD [OF 2(1)] p 2(4)
      by (auto simp: netbuf_inv_def)
    then show ?thesis using 2(2) by simp
  qed
  show "fst (net_buffer_release st p) = OK" using many final by (cases "n = 0") simp_all
  show "n \<noteq> 0 \<Longrightarrow> p \<in> set (nm_registry (snd (net_buffer_release st p)))"
    "n \<noteq> 0 \<Longrightarrow> nb_state (nm_heap (snd (net_buffer_release st p)) p) \<in> done_states"
    using many p fin by simp_all
  show "n \<noteq> 0 \<Longrightarrow> unat (nb_refcount (nm_heap (snd (net_buffer_release st p)) p)) = n"
    using many n one by (simp add: unat_minus_one)
  show "n = 0 \<Longrightarrow> p \<notin> set (nm_registry (snd (net_buffer_release st p)))" using final by simp
qed

lemma releases_inv: "netbuf_inv st \<Longrightarrow> netbuf_inv (releases k p st)"
  by (induction k) (auto intro: inv_intros)

lemma releases_state:
  assumes "netbuf_inv st" and "p \<in> set (nm_registry st)" "p \<noteq> NULL_PTR" and "nb_state (nm_heap st p) \<in> done_states"
  shows "(k < unat (nb_refcount (nm_heap st p)) \<longrightarrow>
      p \<in> set (nm_registry (releases k p st)) \<and> nb_state (nm_heap (releases k p st) p) \<in> done_states \<and>
      unat (nb_refcount (nm_heap (releases k p st) p)) = unat (nb_refcount (nm_heap st p)) - k) \<and>
    (unat (nb_refcount (nm_heap st p)) \<le> k \<longrightarrow> p \<notin> set (nm_registry (releases k p st)))"
proof (induction k)
  case 0
  have "nb_refcount (nm_heap st p) \<noteq> 0"
    using netbuf_inv_entry [OF assms(1-3)] by (simp add: validate_entry_iff)
  then have "unat (nb_refcount (nm_heap st p)) \<noteq> 0" by (simp add: unat_eq_0)
  then show ?case using assms by simp
next
  case (Suc k)
  let ?n = "unat (nb_refcount (nm_heap st p))" and ?t = "releases k p st"
  have inv: "netbuf_inv ?t" by (rule releases_inv [OF assms(1)])
  show ?case
  proof (cases "k < ?n")
    case True
    then have "unat (nb_refcount (nm_heap ?t p)) = Suc (?n - Suc k)" using Suc by auto
    note r = release_completed [OF inv _ assms(3) _ this]
    show ?thesis using r Suc True by auto
  next
    case False
    then have "p \<notin> set (nm_registry ?t)" using Suc by simp
    then have "\<exists>r. snd (net_buffer_release ?t p) = snd (net_buffer_fail_locked ?t r False)"
      using release_foreign(2) [OF inv] by blast
    then show ?thesis using False \<open>p \<notin> set (nm_registry ?t)\<close> by (auto simp: frame_simps)
  qed
qed

section \<open>Counters\<close>

definition counter_kept :: "netbuf_state \<Rightarrow> netbuf_state \<Rightarrow> bool" where
  "counter_kept st st' \<longleftrightarrow>
     (ns_initialized (nm_stats st) \<longrightarrow> ns_initialized (nm_stats st')) \<and>
     (ns_initialized (nm_stats st) \<longrightarrow> ns_copied_bytes (nm_stats st') = ns_copied_bytes (nm_stats st))"

lemma counter_kept_fail [simp]: "counter_kept st (snd (net_buffer_fail_locked st r d))" "counter_kept st st"
  by (simp_all add: counter_kept_def frame_simps)

lemma counter_kept_layout: "counter_kept st (snd (net_buffer_set_layout_locked st p h n))"
  by (simp add: net_buffer_set_layout_locked_def Let_def) (simp add: counter_kept_def)

lemma counter_kept_begin: "counter_kept st (snd (net_buffer_begin st p cap h al ow))"
proof (cases "fst (net_buffer_begin st p cap h al ow) = OK")
  case True
  then have "net_buffer_begin st p cap h al ow = (OK, snd (net_buffer_begin st p cap h al ow))"
    by (simp add: prod_eq_iff)
  then show ?thesis by (cases rule: begin_ok) (simp add: counter_kept_def)
next
  case False
  show ?thesis using begin_fails [OF False] by auto
qed

lemma counter_kept_release: "counter_kept st (snd (net_buffer_release st p))"
  by (simp add: net_buffer_release_def Let_def split: option.split) (simp add: counter_kept_def frame_simps)

lemma counter_kept_ops:
  "counter_kept st (snd (net_buffer_init st))"
  "counter_kept st (snd (net_buffer_set_layout st p h n))"
  "counter_kept st (snd (net_buffer_set_length st p n))"
  "counter_kept st (snd (net_buffer_transition st p s ow))"
  "counter_kept st (snd (net_buffer_complete st p r ow))"
  "counter_kept st (snd (net_buffer_retain st p))"
  "counter_kept st (snd (net_buffer_note_clone st))"
  "counter_kept st (snd (net_buffer_note_fragment st))"
  by (simp_all add: net_buffer_init_def net_buffer_set_layout_def net_buffer_set_length_def net_buffer_transition_def
      net_buffer_complete_def net_buffer_complete_locked_def net_buffer_retain_def net_buffer_note_clone_def
      net_buffer_note_fragment_def counter_kept_layout Let_def)
    (simp_all add: counter_kept_def)

lemma traffic_copied_mono:
  assumes "traffic_step st st'" and "ns_initialized (nm_stats st)"
  shows "ns_initialized (nm_stats st') \<and> ns_copied_bytes (nm_stats st) \<le> ns_copied_bytes (nm_stats st')"
proof -
  have kept: "counter_kept st st' \<Longrightarrow> ?thesis" using assms(2) by (simp add: counter_kept_def)
  show ?thesis
    using assms(1)
  proof cases
    case (note_copy n)
    have "ns_copied_bytes (nm_stats st) \<le> ns_copied_bytes (nm_stats st) + n"
      if "n \<le> NET_BUFFER_COUNTER_MAX - ns_copied_bytes (nm_stats st)"
      using unat_add_headroom [OF that [unfolded NET_BUFFER_COUNTER_MAX_def]]
      by (simp only: word_le_nat_alt)
    then show ?thesis using assms(2) note_copy
      by (simp add: net_buffer_note_copy_def not_less frame_simps)
  next
    case (self_test a b c)
    then show ?thesis using self_test_result [of a b c st] assms(2) by auto
  next
    case (foreign p b)
    then show ?thesis using assms(2) by simp
  qed (use kept counter_kept_ops counter_kept_begin counter_kept_release in simp_all)
qed

lemma saturated_step:
  assumes "traffic_step\<^sup>*\<^sup>* st st'" and "ns_initialized (nm_stats st)"
  shows "ns_initialized (nm_stats st') \<and> ns_copied_bytes (nm_stats st) \<le> ns_copied_bytes (nm_stats st')"
  using assms by (induction rule: rtranclp_induct) (auto dest: traffic_copied_mono)

section \<open>Properties\<close>

text \<open>A machine with one buffer at address 4096, handed out at boot and then dropped.\<close>

definition one_buffer :: netbuf_state where
  "one_buffer = snd (net_buffer_begin (snd (net_buffer_init netbuf_static)) 4096 1518 32 1 NET_BUFFER_OWNER_ETHERNET)"

definition one_dropped :: netbuf_state where
  "one_dropped = snd (net_buffer_complete one_buffer 4096 ERR_TIMEOUT NET_BUFFER_OWNER_NONE)"

lemma one_buffer_reachable: "netbuf_reachable one_buffer"
  unfolding one_buffer_def
  by (intro netbuf_reachable.step [OF netbuf_reachable.boot] traffic_step.begin_buffer)
    (simp add: net_buffer_init_def netbuf_static_def net_buffer_stats_zero_def)

lemma one_dropped_step: "traffic_step one_buffer one_dropped"
  unfolding one_dropped_def by (rule traffic_step.complete)

lemma one_dropped_reachable: "netbuf_reachable one_dropped"
  by (rule netbuf_reachable.step [OF one_buffer_reachable one_dropped_step]) code_simp

text \<open>
  C9. Every state that a sequence of calls of the buffer contract reaches from boot, with
  the owners of unregistered descriptors writing to them at will and as long as no allocation
  takes the 32-bit allocation counter past its maximum, passes the kernel's own consistency check \<^verbatim>\<open>net_buffer_validate_state\<close>: the registry has no duplicate and only
  valid descriptors, and the counters agree with it.\<close>

theorem net_buffer_reachable_validates:
  assumes "netbuf_reachable st"
  shows "net_buffer_validate_state st = OK"
  by (rule netbuf_inv_validate [OF reachable_inv [OF assms]])

theorem net_buffer_reachable_validates_witness:
  "netbuf_reachable one_dropped \<and> net_buffer_validate_state one_dropped = OK"
  using net_buffer_reachable_validates [OF one_dropped_reachable] one_dropped_reachable by simp

text \<open>
  C25. A registered buffer only moves forward through its lifecycle. Whatever call is made,
  the buffer either stays registered, with its state unchanged or advanced along an edge
  of the lifecycle (so a delivered or dropped buffer is never completed again), or it
  leaves the registry, and then it was delivered or dropped, its last reference was
  released and its state is now freed.\<close>

theorem net_buffer_lifecycle:
  assumes "netbuf_reachable st" and "traffic_step st st'"
    and "p \<in> set (nm_registry st)" and "p \<noteq> NULL_PTR"
  shows "lives_on st st' p \<or> let_go st st' p"
  by (rule step_lives [OF assms(2) reachable_inv [OF assms(1)] assms(3,4)])

theorem net_buffer_lifecycle_witness:
  "4096 \<in> set (nm_registry one_buffer) \<and>
   nb_state (nm_heap one_buffer 4096) = NET_BUFFER_STATE_ALLOCATED \<and>
   nb_state (nm_heap one_dropped 4096) = NET_BUFFER_STATE_DROPPED \<and>
   (lives_on one_buffer one_dropped 4096 \<or> let_go one_buffer one_dropped 4096)"
proof -
  have m: "4096 \<in> set (nm_registry one_buffer)" by code_simp
  have "nb_state (nm_heap one_buffer 4096) = NET_BUFFER_STATE_ALLOCATED"
    "nb_state (nm_heap one_dropped 4096) = NET_BUFFER_STATE_DROPPED" by code_simp+
  then show ?thesis
    using m net_buffer_lifecycle [OF one_buffer_reachable one_dropped_step m] by simp
qed

text \<open>
  C26. References are counted exactly: a completed buffer with \<open>n\<close> references accepts \<open>n\<close>
  releases, stays registered until the \<open>n\<close>-th, and every further release is refused with
  \<^verbatim>\<open>ERR_INVALID\<close>, so no buffer is freed early, late or twice.\<close>

theorem net_buffer_release_exact:
  assumes "netbuf_reachable st" and "p \<in> set (nm_registry st)" and "p \<noteq> NULL_PTR"
    and "nb_state (nm_heap st p) = NET_BUFFER_STATE_DELIVERED \<or> nb_state (nm_heap st p) = NET_BUFFER_STATE_DROPPED"
  shows "fst (net_buffer_release (releases k p st) p) =
      (if k < unat (nb_refcount (nm_heap st p)) then OK else ERR_INVALID) \<and>
    (p \<in> set (nm_registry (releases k p st)) \<longleftrightarrow> k < unat (nb_refcount (nm_heap st p)))"
proof
  let ?n = "unat (nb_refcount (nm_heap st p))" and ?t = "releases k p st"
  have inv: "netbuf_inv st" by (rule reachable_inv [OF assms(1)])
  have t: "netbuf_inv ?t" by (rule releases_inv [OF inv])
  note s = releases_state [OF inv assms(2,3), of k]
  show "p \<in> set (nm_registry ?t) \<longleftrightarrow> k < ?n" using s assms(4) by auto
  show "fst (net_buffer_release ?t p) = (if k < ?n then OK else ERR_INVALID)"
  proof (cases "k < ?n")
    case True
    then have "unat (nb_refcount (nm_heap ?t p)) = Suc (?n - Suc k)" using s assms(4) by auto
    then show ?thesis using release_completed(1) [OF t _ assms(3)] s assms(4) True by auto
  next
    case False
    then show ?thesis using release_foreign(1) [OF t] s assms(3,4) by auto
  qed
qed

theorem net_buffer_release_exact_witness:
  "fst (net_buffer_release (releases 0 4096 one_dropped) 4096) = OK \<and>
   fst (net_buffer_release (releases 1 4096 one_dropped) 4096) = ERR_INVALID"
proof -
  have m: "4096 \<in> set (nm_registry one_dropped)"
    "nb_state (nm_heap one_dropped 4096) = NET_BUFFER_STATE_DROPPED"
    "unat (nb_refcount (nm_heap one_dropped 4096)) = 1" by code_simp+
  then show ?thesis
    using net_buffer_release_exact [OF one_dropped_reachable m(1), of 0]
      net_buffer_release_exact [OF one_dropped_reachable m(1), of 1] by simp
qed

text \<open>
  C27. The copied-byte counter is never reset by traffic and \<^verbatim>\<open>net_buffer_note_copy\<close> refuses
  to let it wrap: once fewer than \<open>n\<close> bytes are left below 4 GiB, every later attempt to
  account for a copy of \<open>n\<close> bytes fails with \<^verbatim>\<open>ERR_OVERFLOW\<close>, whatever calls are made in
  between other than \<^verbatim>\<open>net_buffer_restore_stats\<close>, which overwrites the counters.
  The transmit and receive paths of \<^verbatim>\<open>ethernet.c\<close> give up on that error.\<close>

theorem net_buffer_copy_saturates:
  assumes "traffic_step\<^sup>*\<^sup>* st st'" and "ns_initialized (nm_stats st)"
    and "n > NET_BUFFER_COUNTER_MAX - ns_copied_bytes (nm_stats st)"
  shows "fst (net_buffer_note_copy st' n) = ERR_OVERFLOW"
proof -
  have s: "ns_initialized (nm_stats st')" "ns_copied_bytes (nm_stats st) \<le> ns_copied_bytes (nm_stats st')"
    using saturated_step [OF assms(1,2)] by auto
  have "NET_BUFFER_COUNTER_MAX - ns_copied_bytes (nm_stats st') \<le> NET_BUFFER_COUNTER_MAX - ns_copied_bytes (nm_stats st)"
    using s(2) by (simp add: NET_BUFFER_COUNTER_MAX_def word_le_nat_alt unat_max_minus)
  then have "n > NET_BUFFER_COUNTER_MAX - ns_copied_bytes (nm_stats st')" using assms(3) by simp
  then show ?thesis using s(1) by (simp add: net_buffer_note_copy_def)
qed

definition nearly_full :: netbuf_state where
  "nearly_full = snd (net_buffer_note_copy one_dropped 0xFFFFFF00)"

theorem net_buffer_copy_saturates_witness:
  "fst (net_buffer_note_copy (snd (net_buffer_release nearly_full 4096)) 1500) = ERR_OVERFLOW"
proof -
  have "traffic_step\<^sup>*\<^sup>* nearly_full (snd (net_buffer_release nearly_full 4096))"
    by (intro r_into_rtranclp traffic_step.release)
  moreover have "ns_initialized (nm_stats nearly_full)" by code_simp
  moreover have "1500 > NET_BUFFER_COUNTER_MAX - ns_copied_bytes (nm_stats nearly_full)" by code_simp
  ultimately show ?thesis by (rule net_buffer_copy_saturates)
qed

text \<open>
  C28. The allocation counter does wrap. In a consistent state in which \<open>2 ^ 32 - 1\<close> buffers
  have been handed out and at least one freed, the next successful allocation takes the
  counter to zero, and the consistency check rejects the healthy state from then on,
  because it compares the free counter with it.\<close>

theorem net_buffer_wrap_invalidates:
  assumes "netbuf_inv st" and "ns_allocations (nm_stats st) = NET_BUFFER_COUNTER_MAX"
    and "ns_frees (nm_stats st) \<noteq> 0" and "net_buffer_begin st p cap h al ow = (OK, st')"
  shows "net_buffer_validate_state st' = ERR_STATE"
  using assms(4)
proof (cases rule: begin_ok)
  case (1 slot)
  have "NET_BUFFER_COUNTER_MAX + 1 = 0" by (simp add: NET_BUFFER_COUNTER_MAX_def)
  then have "ns_allocations (nm_stats st') = 0" using assms(2) 1 by simp
  then have "ns_frees (nm_stats st') > ns_allocations (nm_stats st')"
    using assms(3) 1 by (simp add: word_greater_zero_iff)
  then show ?thesis using 1 by (simp add: net_buffer_validate_state_def case_prod_beta)
qed

definition worn_state :: netbuf_state where
  "worn_state = snd (net_buffer_restore_stats (snd (net_buffer_init netbuf_static))
     (Some (net_buffer_stats_zero\<lparr>ns_initialized := True, ns_allocations := 0xFFFFFFFF, ns_frees := 0xFFFFFFFF\<rparr>)))"

theorem net_buffer_wrap_invalidates_witness:
  "net_buffer_validate_state worn_state = OK \<and>
   net_buffer_validate_state (snd (net_buffer_begin worn_state 4096 64 0 1 NET_BUFFER_OWNER_DRIVER)) = ERR_STATE"
proof -
  have inv: "netbuf_inv worn_state" unfolding worn_state_def by (rule restore_inv [OF boot_inv])
  have "fst (net_buffer_begin worn_state 4096 64 0 1 NET_BUFFER_OWNER_DRIVER) = OK"
    "ns_allocations (nm_stats worn_state) = NET_BUFFER_COUNTER_MAX" "ns_frees (nm_stats worn_state) \<noteq> 0"
    by code_simp+
  then show ?thesis
    using net_buffer_wrap_invalidates [OF inv, of 4096 64 0 1 NET_BUFFER_OWNER_DRIVER
        "snd (net_buffer_begin worn_state 4096 64 0 1 NET_BUFFER_OWNER_DRIVER)"] netbuf_inv_validate [OF inv]
    by (simp add: prod_eq_iff)
qed

end
