(* ===== verification/Slab.thy ===== *)
theory Slab
  imports Pmm
begin

text \<open>
  The slab object allocator (\<^verbatim>\<open>src/src/memory/slab.c\<close>), which carves fixed-size objects out of
  page runs of the physical allocator. A \<^verbatim>\<open>kmem_cache_t*\<close> is the index of its entry in
  \<^verbatim>\<open>cache_table\<close>, \<open>None\<close> being the null pointer; the 16-bit list links and heads are \<open>None\<close>
  for \<^verbatim>\<open>KMEM_SLAB_LINK_NONE\<close>. The slab records, linked into three doubly linked lists per
  cache, the freelists threaded through \<^verbatim>\<open>free_next\<close> and the allocation bitmaps are as in the
  code. Object memory is a map from addresses to bytes. The answer of \<^verbatim>\<open>paging_is_ready\<close> is part
  of the state. Locking and interrupt masking are left out.
\<close>

definition KMEM_CACHE_NAME_LENGTH :: nat where "KMEM_CACHE_NAME_LENGTH = 32"
definition KMEM_CACHE_MAX :: nat where "KMEM_CACHE_MAX = 16"
definition KMEM_SLAB_MAX :: nat where "KMEM_SLAB_MAX = 128"
definition KMEM_SLAB_MAX_OBJECTS :: nat where "KMEM_SLAB_MAX_OBJECTS = 128"
definition KMEM_SLAB_MIN_OBJECTS :: nat where "KMEM_SLAB_MIN_OBJECTS = 8"
definition KMEM_SLAB_STATE_EMPTY :: u8 where "KMEM_SLAB_STATE_EMPTY = 0"
definition KMEM_SLAB_STATE_PARTIAL :: u8 where "KMEM_SLAB_STATE_PARTIAL = 1"
definition KMEM_SLAB_STATE_FULL :: u8 where "KMEM_SLAB_STATE_FULL = 2"
definition KMEM_SLAB_BITMAP_WORDS :: nat where
  "KMEM_SLAB_BITMAP_WORDS = (KMEM_SLAB_MAX_OBJECTS + 31) div 32"

lemmas slab_states = KMEM_SLAB_STATE_EMPTY_def KMEM_SLAB_STATE_PARTIAL_def KMEM_SLAB_STATE_FULL_def
lemmas slab_limits = KMEM_CACHE_MAX_def KMEM_SLAB_MAX_def KMEM_SLAB_MAX_OBJECTS_def
  KMEM_SLAB_MIN_OBJECTS_def KMEM_SLAB_BITMAP_WORDS_def

section \<open>Records\<close>

record kmem_slab =
  sb_owner :: "nat option"
  sb_memory :: u32
  sb_pages :: u32
  sb_object_count :: nat
  sb_active_objects :: nat
  sb_free_head :: nat
  sb_next :: "nat option"
  sb_previous :: "nat option"
  sb_state :: u8
  sb_used :: bool
  sb_bitmap :: "u32 list"
  sb_free_next :: "nat list"

definition kmem_slab_zero :: kmem_slab where
  "kmem_slab_zero = \<lparr>sb_owner = None, sb_memory = 0, sb_pages = 0, sb_object_count = 0,
     sb_active_objects = 0, sb_free_head = 0, sb_next = Some 0, sb_previous = Some 0, sb_state = 0,
     sb_used = False, sb_bitmap = replicate KMEM_SLAB_BITMAP_WORDS 0,
     sb_free_next = replicate KMEM_SLAB_MAX_OBJECTS 0\<rparr>"

record kmem_cache =
  sc_name :: string
  sc_object_size :: u32
  sc_alignment :: u32
  sc_object_stride :: u32
  sc_objects_per_slab :: u32
  sc_slab_pages :: u32
  sc_active_objects :: u32
  sc_capacity :: u32
  sc_slab_count :: u32
  sc_allocation_failures :: u32
  sc_invalid_frees :: u32
  sc_double_frees :: u32
  sc_full_head :: "nat option"
  sc_partial_head :: "nat option"
  sc_empty_head :: "nat option"
  sc_used :: bool

definition kmem_cache_zero :: kmem_cache where
  "kmem_cache_zero = \<lparr>sc_name = '''', sc_object_size = 0, sc_alignment = 0, sc_object_stride = 0,
     sc_objects_per_slab = 0, sc_slab_pages = 0, sc_active_objects = 0, sc_capacity = 0,
     sc_slab_count = 0, sc_allocation_failures = 0, sc_invalid_frees = 0, sc_double_frees = 0,
     sc_full_head = Some 0, sc_partial_head = Some 0, sc_empty_head = Some 0, sc_used = False\<rparr>"

record slab_state =
  sl_caches :: "kmem_cache list"
  sl_slabs :: "kmem_slab list"
  sl_cache_count :: u32
  sl_slab_count :: u32
  sl_allocation_failures :: u32
  sl_invalid_frees :: u32
  sl_double_frees :: u32
  sl_initialized :: bool
  sl_pmm :: pmm_state
  sl_memory :: "u32 \<Rightarrow> u8"
  sl_paging_ready :: bool

abbreviation cache_at :: "slab_state \<Rightarrow> nat \<Rightarrow> kmem_cache" where
  "cache_at st c \<equiv> sl_caches st ! c"

abbreviation slab_at :: "slab_state \<Rightarrow> nat \<Rightarrow> kmem_slab" where
  "slab_at st i \<equiv> sl_slabs st ! i"

definition put_cache :: "nat \<Rightarrow> (kmem_cache \<Rightarrow> kmem_cache) \<Rightarrow> slab_state \<Rightarrow> slab_state" where
  "put_cache c f st = st\<lparr>sl_caches := (sl_caches st)[c := f (cache_at st c)]\<rparr>"

definition put_slab :: "nat \<Rightarrow> (kmem_slab \<Rightarrow> kmem_slab) \<Rightarrow> slab_state \<Rightarrow> slab_state" where
  "put_slab i f st = st\<lparr>sl_slabs := (sl_slabs st)[i := f (slab_at st i)]\<rparr>"

section \<open>Helpers\<close>

text \<open>\<^verbatim>\<open>slab_copy_text\<close> truncates to the capacity.\<close>

fun slab_copy_loop :: "string \<Rightarrow> nat \<Rightarrow> string \<Rightarrow> string" where
  "slab_copy_loop destination capacity [] = destination"
| "slab_copy_loop destination capacity (c # source) =
     (if length destination + 1 < capacity then slab_copy_loop (destination @ [c]) capacity source
      else destination)"

definition slab_copy_text :: "nat \<Rightarrow> string \<Rightarrow> string" where
  "slab_copy_text capacity source = slab_copy_loop '''' capacity source"

definition slab_align_up :: "u32 \<Rightarrow> u32 \<Rightarrow> u32" where
  "slab_align_up val alignment =
     (if alignment = 0 \<or> val > 0xFFFFFFFF - (alignment - 1) then 0
      else (val + alignment - 1) AND NOT (alignment - 1))"

definition slab_power_of_two :: "u32 \<Rightarrow> bool" where
  "slab_power_of_two val \<longleftrightarrow> val \<noteq> 0 \<and> val AND (val - 1) = 0"

definition slab_cache_registered :: "slab_state \<Rightarrow> nat option \<Rightarrow> bool" where
  "slab_cache_registered st cache =
     (case cache of
        None \<Rightarrow> False
      | Some c \<Rightarrow> list_ex (\<lambda>index. index = c \<and> sc_used (cache_at st index)) [0..<KMEM_CACHE_MAX])"

definition slab_find_cache_slot :: "slab_state \<Rightarrow> nat option" where
  "slab_find_cache_slot st = first_index (\<lambda>e. \<not> sc_used e) (sl_caches st)"

definition slab_find_free_record :: "slab_state \<Rightarrow> nat option" where
  "slab_find_free_record st = first_index (\<lambda>s. \<not> sb_used s) (sl_slabs st)"

text \<open>The list head of a cache that a slab state selects.\<close>

definition head_of :: "u8 \<Rightarrow> kmem_cache \<Rightarrow> nat option" where
  "head_of state e =
     (if state = KMEM_SLAB_STATE_FULL then sc_full_head e
      else if state = KMEM_SLAB_STATE_PARTIAL then sc_partial_head e
      else sc_empty_head e)"

definition set_head :: "u8 \<Rightarrow> nat option \<Rightarrow> kmem_cache \<Rightarrow> kmem_cache" where
  "set_head state h e =
     (if state = KMEM_SLAB_STATE_FULL then e\<lparr>sc_full_head := h\<rparr>
      else if state = KMEM_SLAB_STATE_PARTIAL then e\<lparr>sc_partial_head := h\<rparr>
      else e\<lparr>sc_empty_head := h\<rparr>)"

definition slab_list_remove :: "nat \<Rightarrow> nat \<Rightarrow> slab_state \<Rightarrow> slab_state" where
  "slab_list_remove c slab_index st =
     (let slab = slab_at st slab_index;
          st = (case sb_previous slab of
                  Some p \<Rightarrow> put_slab p (\<lambda>s. s\<lparr>sb_next := sb_next slab\<rparr>) st
                | None \<Rightarrow> put_cache c (set_head (sb_state slab) (sb_next slab)) st);
          slab = slab_at st slab_index;
          st = (case sb_next slab of
                  Some n \<Rightarrow> put_slab n (\<lambda>s. s\<lparr>sb_previous := sb_previous slab\<rparr>) st
                | None \<Rightarrow> st)
      in put_slab slab_index (\<lambda>s. s\<lparr>sb_next := None, sb_previous := None\<rparr>) st)"

definition slab_list_add :: "nat \<Rightarrow> nat \<Rightarrow> u8 \<Rightarrow> slab_state \<Rightarrow> slab_state" where
  "slab_list_add c slab_index state st =
     (let st = put_slab slab_index (\<lambda>s. s\<lparr>sb_state := state\<rparr>) st;
          head = head_of state (cache_at st c);
          st = put_slab slab_index (\<lambda>s. s\<lparr>sb_previous := None, sb_next := head\<rparr>) st;
          st = (case head of
                  Some h \<Rightarrow> put_slab h (\<lambda>s. s\<lparr>sb_previous := Some slab_index\<rparr>) st
                | None \<Rightarrow> st)
      in put_cache c (set_head state (Some slab_index)) st)"

definition words_bit :: "u32 list \<Rightarrow> nat \<Rightarrow> bool" where
  "words_bit ws index \<longleftrightarrow> ws ! (index div 32) AND push_bit (index mod 32) 1 \<noteq> 0"

definition words_set :: "u32 list \<Rightarrow> nat \<Rightarrow> u32 list" where
  "words_set ws index = ws[index div 32 := ws ! (index div 32) OR push_bit (index mod 32) 1]"

definition words_clear :: "u32 list \<Rightarrow> nat \<Rightarrow> u32 list" where
  "words_clear ws index = ws[index div 32 := ws ! (index div 32) AND NOT (push_bit (index mod 32) 1)]"

definition slab_set_bit :: "nat \<Rightarrow> bool \<Rightarrow> kmem_slab \<Rightarrow> kmem_slab" where
  "slab_set_bit index used slab =
     slab\<lparr>sb_bitmap := (if used then words_set (sb_bitmap slab) index else words_clear (sb_bitmap slab) index)\<rparr>"

definition slab_bit_is_set :: "kmem_slab \<Rightarrow> nat \<Rightarrow> bool" where
  "slab_bit_is_set slab index = words_bit (sb_bitmap slab) index"

definition initial_free_next :: "nat \<Rightarrow> nat list" where
  "initial_free_next count =
     fold (\<lambda>index fs. fs[index := (if index + 1 < count then index + 1 else KMEM_SLAB_MAX_OBJECTS)])
       [0..<count] (replicate KMEM_SLAB_MAX_OBJECTS 0)"

definition slab_prepare_record :: "nat \<Rightarrow> slab_state \<Rightarrow> status \<times> slab_state" where
  "slab_prepare_record c st =
     (case slab_find_free_record st of
        None \<Rightarrow> (ERR_UNAVAILABLE, st)
      | Some record_index \<Rightarrow>
          let (memory, pmm) = pmm_alloc_pages_in_zone (sl_pmm st) (unat (sc_slab_pages (cache_at st c)))
                                MEMORY_ZONE_SLAB;
              st = st\<lparr>sl_pmm := pmm\<rparr>
          in if memory = 0 then (ERR_MEM, st)
          else
            let count = unat (sc_objects_per_slab (cache_at st c));
                st = put_slab record_index (\<lambda>_. kmem_slab_zero\<lparr>sb_owner := Some c, sb_memory := memory,
                       sb_pages := sc_slab_pages (cache_at st c), sb_object_count := count,
                       sb_free_head := 0, sb_next := None, sb_previous := None, sb_used := True,
                       sb_free_next := initial_free_next count\<rparr>) st;
                st = slab_list_add c record_index KMEM_SLAB_STATE_EMPTY st;
                st = put_cache c (\<lambda>e. e\<lparr>sc_slab_count := sc_slab_count e + 1,
                       sc_capacity := sc_capacity e + word_of_nat count\<rparr>) st
            in (OK, st\<lparr>sl_slab_count := sl_slab_count st + 1\<rparr>))"

text \<open>
  \<^verbatim>\<open>slab_object_location\<close>: the first slab of the cache whose object range holds the address
  decides; an address that is not at the start of an object is not a location.
\<close>

definition slab_object_location :: "slab_state \<Rightarrow> nat option \<Rightarrow> u32 \<Rightarrow> (nat \<times> nat) option" where
  "slab_object_location st cache address =
     (case cache of
        None \<Rightarrow> None
      | Some c \<Rightarrow>
          let stride = sc_object_stride (cache_at st c) in
          if address = 0 \<or> stride = 0 then None
          else
            case first_index (\<lambda>slab. sb_used slab \<and> sb_owner slab = Some c \<and>
                   \<not> (address < sb_memory slab \<or>
                      address \<ge> sb_memory slab + stride * word_of_nat (sb_object_count slab))) (sl_slabs st) of
              None \<Rightarrow> None
            | Some index \<Rightarrow>
                let offset = address - sb_memory (slab_at st index) in
                if offset mod stride \<noteq> 0 then None
                else if unat (offset div stride) < sb_object_count (slab_at st index)
                then Some (index, unat (offset div stride))
                else None)"

section \<open>Validation\<close>

text \<open>
  The freelist walk of \<^verbatim>\<open>slab_validate_slab\<close>: \<open>None\<close> is its early failure.
\<close>

function free_walk :: "kmem_slab \<Rightarrow> nat \<Rightarrow> nat \<Rightarrow> u32 list \<Rightarrow> (nat \<times> nat \<times> u32 list) option" where
  "free_walk slab current free_count free_seen =
     (if current \<noteq> KMEM_SLAB_MAX_OBJECTS \<and> free_count \<le> sb_object_count slab then
        if current \<ge> sb_object_count slab \<or> slab_bit_is_set slab current then None
        else if words_bit free_seen current then None
        else free_walk slab (sb_free_next slab ! current) (Suc free_count) (words_set free_seen current)
      else Some (current, free_count, free_seen))"
  by pat_completeness auto
termination
  by (relation "measure (\<lambda>(slab, current, free_count, free_seen). Suc (sb_object_count slab) - free_count)") auto

declare free_walk.simps [simp del]

definition slab_validate_slab :: "kmem_slab \<Rightarrow> bool" where
  "slab_validate_slab slab =
     (if \<not> sb_used slab \<or> sb_owner slab = None \<or> sb_memory slab = 0 \<or>
         sb_object_count slab < KMEM_SLAB_MIN_OBJECTS \<or>
         sb_object_count slab > KMEM_SLAB_MAX_OBJECTS \<or> sb_pages slab = 0
      then False
      else
        let active = length (filter (slab_bit_is_set slab) [0..<sb_object_count slab]) in
        case free_walk slab (sb_free_head slab) 0 (replicate KMEM_SLAB_BITMAP_WORDS 0) of
          None \<Rightarrow> False
        | Some (current, free_count, free_seen) \<Rightarrow>
            if current \<noteq> KMEM_SLAB_MAX_OBJECTS \<or> active + free_count \<noteq> sb_object_count slab \<or>
               active \<noteq> sb_active_objects slab
            then False
            else if list_ex (\<lambda>index. \<not> slab_bit_is_set slab index \<and> \<not> words_bit free_seen index)
                      [0..<sb_object_count slab]
            then False
            else if active = 0 \<and> sb_state slab \<noteq> KMEM_SLAB_STATE_EMPTY \<or>
                    active > 0 \<and> active < sb_object_count slab \<and> sb_state slab \<noteq> KMEM_SLAB_STATE_PARTIAL \<or>
                    active = sb_object_count slab \<and> sb_state slab \<noteq> KMEM_SLAB_STATE_FULL
            then False
            else True)"

function slab_validate_list ::
  "slab_state \<Rightarrow> nat \<Rightarrow> nat option \<Rightarrow> nat option \<Rightarrow> u8 \<Rightarrow> nat \<Rightarrow> u32 \<Rightarrow> bool" where
  "slab_validate_list st c head previous state count expected =
     (if head \<noteq> None \<and> count \<le> KMEM_SLAB_MAX then
        if the head \<ge> KMEM_SLAB_MAX then False
        else
          let slab = slab_at st (the head) in
          if \<not> sb_used slab \<or> sb_owner slab \<noteq> Some c \<or> sb_state slab \<noteq> state \<or> sb_previous slab \<noteq> previous
          then False
          else slab_validate_list st c (sb_next slab) head state (Suc count) expected
      else head = None \<and> word_of_nat count = expected)"
  by pat_completeness auto
termination
  by (relation "measure (\<lambda>(st, c, head, previous, state, count, expected). Suc KMEM_SLAB_MAX - count)") auto

declare slab_validate_list.simps [simp del]

text \<open>The counts \<^verbatim>\<open>kmem_cache_validate\<close> takes over the slabs of one cache.\<close>

record slab_tally =
  ty_active :: u32
  ty_capacity :: u32
  ty_slabs :: u32
  ty_full :: u32
  ty_partial :: u32
  ty_empty :: u32

definition slab_tally_zero :: slab_tally where
  "slab_tally_zero = \<lparr>ty_active = 0, ty_capacity = 0, ty_slabs = 0, ty_full = 0, ty_partial = 0, ty_empty = 0\<rparr>"

fun tally_loop :: "nat \<Rightarrow> kmem_slab list \<Rightarrow> slab_tally \<Rightarrow> slab_tally option" where
  "tally_loop c [] t = Some t"
| "tally_loop c (slab # slabs) t =
     (if sb_used slab \<and> sb_owner slab = Some c then
        let t = t\<lparr>ty_active := ty_active t + word_of_nat (sb_active_objects slab),
                  ty_capacity := ty_capacity t + word_of_nat (sb_object_count slab),
                  ty_slabs := ty_slabs t + 1\<rparr>
        in if sb_state slab = KMEM_SLAB_STATE_FULL then tally_loop c slabs (t\<lparr>ty_full := ty_full t + 1\<rparr>)
           else if sb_state slab = KMEM_SLAB_STATE_PARTIAL then tally_loop c slabs (t\<lparr>ty_partial := ty_partial t + 1\<rparr>)
           else if sb_state slab = KMEM_SLAB_STATE_EMPTY then tally_loop c slabs (t\<lparr>ty_empty := ty_empty t + 1\<rparr>)
           else None
      else tally_loop c slabs t)"

definition validate_cache :: "slab_state \<Rightarrow> nat \<Rightarrow> slab_tally \<Rightarrow> bool" where
  "validate_cache st c t \<longleftrightarrow>
     \<not> (\<not> slab_validate_list st c (sc_full_head (cache_at st c)) None KMEM_SLAB_STATE_FULL 0 (ty_full t) \<or>
        \<not> slab_validate_list st c (sc_partial_head (cache_at st c)) None KMEM_SLAB_STATE_PARTIAL 0 (ty_partial t) \<or>
        \<not> slab_validate_list st c (sc_empty_head (cache_at st c)) None KMEM_SLAB_STATE_EMPTY 0 (ty_empty t) \<or>
        ty_active t \<noteq> sc_active_objects (cache_at st c) \<or> ty_capacity t \<noteq> sc_capacity (cache_at st c) \<or>
        ty_slabs t \<noteq> sc_slab_count (cache_at st c))"

fun validate_caches :: "slab_state \<Rightarrow> nat list \<Rightarrow> u32 \<Rightarrow> u32 \<Rightarrow> (u32 \<times> u32) option" where
  "validate_caches st [] actual_caches actual_slabs = Some (actual_caches, actual_slabs)"
| "validate_caches st (c # cs) actual_caches actual_slabs =
     (if \<not> sc_used (cache_at st c) then validate_caches st cs actual_caches actual_slabs
      else
        case tally_loop c (sl_slabs st) slab_tally_zero of
          None \<Rightarrow> None
        | Some t \<Rightarrow>
            if validate_cache st c t
            then validate_caches st cs (actual_caches + 1) (actual_slabs + ty_slabs t)
            else None)"

definition kmem_cache_validate :: "slab_state \<Rightarrow> status" where
  "kmem_cache_validate st =
     (if \<not> sl_initialized st then ERR_UNAVAILABLE
      else if list_ex (\<lambda>slab. sb_used slab \<and> \<not> slab_validate_slab slab) (sl_slabs st) then ERR_STATE
      else
        case validate_caches st [0..<KMEM_CACHE_MAX] 0 0 of
          None \<Rightarrow> ERR_STATE
        | Some (actual_caches, actual_slabs) \<Rightarrow>
            if actual_caches \<noteq> sl_cache_count st \<or> actual_slabs \<noteq> sl_slab_count st then ERR_STATE else OK)"

section \<open>Operations\<close>

definition kmem_cache_init :: "slab_state \<Rightarrow> status \<times> slab_state" where
  "kmem_cache_init st =
     (if sl_initialized st then (OK, st)
      else (OK, st\<lparr>sl_caches := replicate KMEM_CACHE_MAX kmem_cache_zero,
                   sl_slabs := replicate KMEM_SLAB_MAX kmem_slab_zero,
                   sl_cache_count := 0, sl_slab_count := 0, sl_allocation_failures := 0,
                   sl_invalid_frees := 0, sl_double_frees := 0, sl_initialized := True\<rparr>))"

definition kmem_cache_create :: "slab_state \<Rightarrow> string option \<Rightarrow> u32 \<Rightarrow> u32 \<Rightarrow> nat option \<times> slab_state" where
  "kmem_cache_create st name object_size alignment =
     (if \<not> sl_initialized st then (None, st)
      else if name = None \<or> the name = '''' \<or> object_size = 0 \<or> \<not> slab_power_of_two alignment \<or>
              alignment > word_of_nat PAGE_SIZE
      then (None, st)
      else if object_size > 0xFFFFFFFF - alignment + 1 then (None, st)
      else
        let stride = slab_align_up object_size alignment in
        if stride = 0 \<or> stride > 0xFFFFFFFF div word_of_nat KMEM_SLAB_MIN_OBJECTS then (None, st)
        else
          let required_bytes = stride * word_of_nat KMEM_SLAB_MIN_OBJECTS in
          if required_bytes > 0xFFFFFFFF - (word_of_nat PAGE_SIZE - 1) then (None, st)
          else
            let pages = (required_bytes + word_of_nat PAGE_SIZE - 1) div word_of_nat PAGE_SIZE in
            if pages = 0 \<or> pages > 0xFFFFFFFF div word_of_nat PAGE_SIZE then (None, st)
            else
              let objects = (pages * word_of_nat PAGE_SIZE) div stride;
                  objects = (if objects > word_of_nat KMEM_SLAB_MAX_OBJECTS
                             then word_of_nat KMEM_SLAB_MAX_OBJECTS else objects)
              in if objects < word_of_nat KMEM_SLAB_MIN_OBJECTS then (None, st)
              else
                case slab_find_cache_slot st of
                  None \<Rightarrow> (None, st)
                | Some slot \<Rightarrow>
                    if sl_cache_count st \<ge> word_of_nat KMEM_CACHE_MAX then (None, st)
                    else if list_ex (\<lambda>e. sc_used e \<and> kstrcmp (sc_name e) (the name) = 0) (sl_caches st)
                    then (None, st)
                    else
                      let st = put_cache slot (\<lambda>_. kmem_cache_zero\<lparr>
                                 sc_name := slab_copy_text KMEM_CACHE_NAME_LENGTH (the name),
                                 sc_object_size := object_size, sc_alignment := alignment,
                                 sc_object_stride := stride, sc_objects_per_slab := objects,
                                 sc_slab_pages := pages, sc_full_head := None, sc_partial_head := None,
                                 sc_empty_head := None, sc_used := True\<rparr>) st
                      in (Some slot, st\<lparr>sl_cache_count := sl_cache_count st + 1\<rparr>))"

definition count_alloc_failure :: "nat \<Rightarrow> slab_state \<Rightarrow> slab_state" where
  "count_alloc_failure c st =
     (let st = put_cache c (\<lambda>e. e\<lparr>sc_allocation_failures := sc_allocation_failures e + 1\<rparr>) st
      in st\<lparr>sl_allocation_failures := sl_allocation_failures st + 1\<rparr>)"

definition zero_object :: "u32 \<Rightarrow> u32 \<Rightarrow> (u32 \<Rightarrow> u8) \<Rightarrow> u32 \<Rightarrow> u8" where
  "zero_object object n memory = (\<lambda>a. if a - object < n then 0 else memory a)"

text \<open>
  Taking the head of the freelist of slab \<open>i\<close>, the tail of \<^verbatim>\<open>kmem_cache_alloc\<close>: the list the
  slab is on changes when its first or its last object goes.
\<close>

definition relist_taken :: "nat \<Rightarrow> nat \<Rightarrow> slab_state \<Rightarrow> slab_state" where
  "relist_taken c i st =
     (let st = (if sb_active_objects (slab_at st i) = 1
                then slab_list_add c i KMEM_SLAB_STATE_PARTIAL (slab_list_remove c i st) else st)
      in if sb_active_objects (slab_at st i) = sb_object_count (slab_at st i)
         then slab_list_add c i KMEM_SLAB_STATE_FULL (slab_list_remove c i st) else st)"

definition take_object :: "nat \<Rightarrow> nat \<Rightarrow> slab_state \<Rightarrow> u32 \<times> slab_state" where
  "take_object c i st =
     (let slab = slab_at st i; object_index = sb_free_head slab in
      if object_index \<ge> sb_object_count slab then (0, count_alloc_failure c st)
      else
        let st = put_slab i (\<lambda>s. slab_set_bit object_index True (s\<lparr>sb_free_head := sb_free_next s ! object_index\<rparr>)) st;
            st = put_slab i (\<lambda>s. s\<lparr>sb_active_objects := sb_active_objects s + 1\<rparr>) st;
            st = put_cache c (\<lambda>e. e\<lparr>sc_active_objects := sc_active_objects e + 1\<rparr>) st;
            st = relist_taken c i st;
            object = sb_memory (slab_at st i) + word_of_nat object_index * sc_object_stride (cache_at st c)
        in (object, st\<lparr>sl_memory := zero_object object (sc_object_size (cache_at st c)) (sl_memory st)\<rparr>))"

definition kmem_cache_alloc :: "slab_state \<Rightarrow> nat option \<Rightarrow> u32 \<times> slab_state" where
  "kmem_cache_alloc st cache =
     (if \<not> sl_initialized st \<or> \<not> slab_cache_registered st cache
      then (0, st\<lparr>sl_allocation_failures := sl_allocation_failures st + 1\<rparr>)
      else
        let c = the cache in
        if \<not> sl_paging_ready st then (0, count_alloc_failure c st)
        else
          let slab_index = sc_partial_head (cache_at st c);
              slab_index = (if slab_index = None then sc_empty_head (cache_at st c) else slab_index);
              (result, st) = (if slab_index = None then slab_prepare_record c st else (OK, st))
          in if result \<noteq> OK then (0, count_alloc_failure c st)
          else
            case (if slab_index = None then sc_empty_head (cache_at st c) else slab_index) of
              None \<Rightarrow> (0, count_alloc_failure c st)
            | Some i \<Rightarrow> if i \<ge> KMEM_SLAB_MAX then (0, count_alloc_failure c st) else take_object c i st)"

text \<open>Giving object \<open>k\<close> of slab \<open>i\<close> back, the tail of \<^verbatim>\<open>kmem_cache_free\<close>.\<close>

definition give_object :: "nat \<Rightarrow> nat \<Rightarrow> nat \<Rightarrow> slab_state \<Rightarrow> slab_state" where
  "give_object c i k st =
     (let previous_state = sb_state (slab_at st i);
          st = (if previous_state = KMEM_SLAB_STATE_FULL \<or>
                   previous_state = KMEM_SLAB_STATE_PARTIAL \<and> sb_active_objects (slab_at st i) = 1
                then slab_list_remove c i st else st);
          st = put_slab i (\<lambda>s. (slab_set_bit k False s)\<lparr>sb_free_next := (sb_free_next s)[k := sb_free_head s],
                 sb_free_head := k, sb_active_objects := sb_active_objects s - 1\<rparr>) st;
          st = put_cache c (\<lambda>e. e\<lparr>sc_active_objects := sc_active_objects e - 1\<rparr>) st
      in if sb_active_objects (slab_at st i) = 0 then slab_list_add c i KMEM_SLAB_STATE_EMPTY st
         else if previous_state = KMEM_SLAB_STATE_FULL then slab_list_add c i KMEM_SLAB_STATE_PARTIAL st
         else st)"

definition count_invalid_free :: "nat \<Rightarrow> slab_state \<Rightarrow> slab_state" where
  "count_invalid_free c st =
     (let st = put_cache c (\<lambda>e. e\<lparr>sc_invalid_frees := sc_invalid_frees e + 1\<rparr>) st
      in st\<lparr>sl_invalid_frees := sl_invalid_frees st + 1\<rparr>)"

definition count_double_free :: "nat \<Rightarrow> slab_state \<Rightarrow> slab_state" where
  "count_double_free c st =
     (let st = put_cache c (\<lambda>e. e\<lparr>sc_double_frees := sc_double_frees e + 1\<rparr>) st
      in st\<lparr>sl_double_frees := sl_double_frees st + 1\<rparr>)"

definition kmem_cache_free :: "slab_state \<Rightarrow> nat option \<Rightarrow> u32 \<Rightarrow> slab_state" where
  "kmem_cache_free st cache object =
     (if \<not> sl_initialized st \<or> \<not> slab_cache_registered st cache \<or> object = 0
      then st\<lparr>sl_invalid_frees := sl_invalid_frees st + 1\<rparr>
      else
        let c = the cache in
        case slab_object_location st cache object of
          None \<Rightarrow> count_invalid_free c st
        | Some (i, k) \<Rightarrow>
            if sb_active_objects (slab_at st i) = 0 \<or>
               sb_active_objects (slab_at st i) > sb_object_count (slab_at st i)
            then count_invalid_free c st
            else if \<not> slab_bit_is_set (slab_at st i) k then count_double_free c st
            else give_object c i k st)"

definition destroy_slab :: "nat \<Rightarrow> nat \<Rightarrow> slab_state \<Rightarrow> slab_state" where
  "destroy_slab c index st =
     (let slab = slab_at st index in
      if \<not> sb_used slab \<or> sb_owner slab \<noteq> Some c then st
      else
        let st = slab_list_remove c index st;
            st = st\<lparr>sl_pmm := pmm_free_pages (sl_pmm st) (sb_memory slab) (unat (sb_pages slab))\<rparr>;
            st = put_slab index (\<lambda>_. kmem_slab_zero) st
        in st\<lparr>sl_slab_count := sl_slab_count st - 1\<rparr>)"

definition kmem_cache_destroy :: "slab_state \<Rightarrow> nat option \<Rightarrow> status \<times> slab_state" where
  "kmem_cache_destroy st cache =
     (if \<not> sl_initialized st \<or> \<not> slab_cache_registered st cache then (ERR_INVALID, st)
      else if sc_active_objects (cache_at st (the cache)) \<noteq> 0 then (ERR_STATE, st)
      else
        let st = fold (destroy_slab (the cache)) [0..<KMEM_SLAB_MAX] st;
            st = put_cache (the cache) (\<lambda>_. kmem_cache_zero) st
        in (OK, st\<lparr>sl_cache_count := sl_cache_count st - 1\<rparr>))"

section \<open>Queries\<close>

record kmem_cache_info =
  ki_name :: string
  ki_object_size :: u32
  ki_alignment :: u32
  ki_object_stride :: u32
  ki_objects_per_slab :: u32
  ki_active_objects :: u32
  ki_capacity :: u32
  ki_slabs :: u32
  ki_pages :: u32
  ki_allocation_failures :: u32
  ki_invalid_frees :: u32
  ki_double_frees :: u32
  ki_initialized :: bool

definition kmem_cache_info_zero :: kmem_cache_info where
  "kmem_cache_info_zero = \<lparr>ki_name = '''', ki_object_size = 0, ki_alignment = 0, ki_object_stride = 0,
     ki_objects_per_slab = 0, ki_active_objects = 0, ki_capacity = 0, ki_slabs = 0, ki_pages = 0,
     ki_allocation_failures = 0, ki_invalid_frees = 0, ki_double_frees = 0, ki_initialized = False\<rparr>"

definition slab_copy_info :: "kmem_cache \<Rightarrow> kmem_cache_info" where
  "slab_copy_info e = \<lparr>ki_name = slab_copy_text KMEM_CACHE_NAME_LENGTH (sc_name e),
     ki_object_size = sc_object_size e, ki_alignment = sc_alignment e,
     ki_object_stride = sc_object_stride e, ki_objects_per_slab = sc_objects_per_slab e,
     ki_active_objects = sc_active_objects e, ki_capacity = sc_capacity e, ki_slabs = sc_slab_count e,
     ki_pages = sc_slab_count e * sc_slab_pages e, ki_allocation_failures = sc_allocation_failures e,
     ki_invalid_frees = sc_invalid_frees e, ki_double_frees = sc_double_frees e, ki_initialized = sc_used e\<rparr>"

definition kmem_cache_get_info :: "slab_state \<Rightarrow> nat option \<Rightarrow> bool \<Rightarrow> status \<times> kmem_cache_info option" where
  "kmem_cache_get_info st cache has_info =
     (if \<not> has_info then (ERR_NULL, None)
      else if \<not> slab_cache_registered st cache then (ERR_INVALID, None)
      else (OK, Some (slab_copy_info (cache_at st (the cache)))))"

definition kmem_cache_get_info_at :: "slab_state \<Rightarrow> nat \<Rightarrow> bool \<Rightarrow> status \<times> kmem_cache_info option" where
  "kmem_cache_get_info_at st index has_info =
     (if index \<ge> KMEM_CACHE_MAX then (ERR_INVALID, None)
      else if \<not> has_info then (ERR_NULL, None)
      else if \<not> sc_used (cache_at st index) then (OK, Some kmem_cache_info_zero)
      else (OK, Some (slab_copy_info (cache_at st index))))"

definition kmem_cache_get_count :: "slab_state \<Rightarrow> u32" where
  "kmem_cache_get_count st = sl_cache_count st"

definition kmem_cache_owns :: "slab_state \<Rightarrow> nat option \<Rightarrow> u32 \<Rightarrow> bool" where
  "kmem_cache_owns st cache object \<longleftrightarrow>
     slab_cache_registered st cache \<and> object \<noteq> 0 \<and> slab_object_location st cache object \<noteq> None"

record kmem_slab_stats =
  kt_caches :: u32
  kt_slabs :: u32
  kt_pages :: u32
  kt_active_objects :: u32
  kt_capacity :: u32
  kt_allocation_failures :: u32
  kt_invalid_frees :: u32
  kt_double_frees :: u32
  kt_initialized :: bool
  kt_valid :: bool

definition kmem_cache_get_stats :: "slab_state \<Rightarrow> bool \<Rightarrow> kmem_slab_stats option" where
  "kmem_cache_get_stats st has_stats =
     (if \<not> has_stats then None
      else Some (fold (\<lambda>e s. if \<not> sc_used e then s
                             else s\<lparr>kt_active_objects := kt_active_objects s + sc_active_objects e,
                                    kt_capacity := kt_capacity s + sc_capacity e,
                                    kt_pages := kt_pages s + sc_slab_count e * sc_slab_pages e\<rparr>)
                  (sl_caches st)
                  \<lparr>kt_caches = sl_cache_count st, kt_slabs = sl_slab_count st, kt_pages = 0,
                   kt_active_objects = 0, kt_capacity = 0,
                   kt_allocation_failures = sl_allocation_failures st,
                   kt_invalid_frees = sl_invalid_frees st, kt_double_frees = sl_double_frees st,
                   kt_initialized = sl_initialized st,
                   kt_valid = (sl_initialized st \<and> kmem_cache_validate st = OK)\<rparr>))"

end
