(* ===== verification/Chains.thy ===== *)
theory Chains
  imports Prelude
begin

text \<open>
  Linked lists threaded through an array. \<open>chain nx pv h p xs\<close> says that from head \<open>h\<close> the
  forward links \<open>nx\<close> run through the indices \<open>xs\<close> in order and end, and that the backward
  links \<open>pv\<close> run the other way, \<open>p\<close> being what precedes the head. \<open>path\<close> is the singly
  linked list that ends in a sentinel. The lemmas give the effect of unlinking an element
  and of pushing one in front.
\<close>

section \<open>Doubly linked lists\<close>

fun chain :: "(nat \<Rightarrow> nat option) \<Rightarrow> (nat \<Rightarrow> nat option) \<Rightarrow> nat option \<Rightarrow> nat option \<Rightarrow> nat list \<Rightarrow> bool" where
  "chain nx pv h p [] \<longleftrightarrow> h = None"
| "chain nx pv h p (x # xs) \<longleftrightarrow> h = Some x \<and> pv x = p \<and> chain nx pv (nx x) (Some x) xs"

definition unlink_next :: "(nat \<Rightarrow> nat option) \<Rightarrow> (nat \<Rightarrow> nat option) \<Rightarrow> nat \<Rightarrow> nat \<Rightarrow> nat option" where
  "unlink_next nx pv x = (case pv x of Some p \<Rightarrow> nx(p := nx x) | None \<Rightarrow> nx)(x := None)"

definition unlink_prev :: "(nat \<Rightarrow> nat option) \<Rightarrow> (nat \<Rightarrow> nat option) \<Rightarrow> nat \<Rightarrow> nat \<Rightarrow> nat option" where
  "unlink_prev nx pv x = (case nx x of Some n \<Rightarrow> pv(n := pv x) | None \<Rightarrow> pv)(x := None)"

definition push_prev :: "(nat \<Rightarrow> nat option) \<Rightarrow> nat option \<Rightarrow> nat \<Rightarrow> nat \<Rightarrow> nat option" where
  "push_prev pv h x = (case h of Some y \<Rightarrow> (pv(x := None))(y := Some x) | None \<Rightarrow> pv(x := None))"

lemma chain_cong:
  "(\<And>x. x \<in> set xs \<Longrightarrow> nx' x = nx x \<and> pv' x = pv x) \<Longrightarrow> chain nx' pv' h p xs = chain nx pv h p xs"
  by (induction xs arbitrary: h p) auto

lemma chain_head: "chain nx pv h p xs \<Longrightarrow> h = (case xs of [] \<Rightarrow> None | x # _ \<Rightarrow> Some x)"
  by (cases xs) auto

lemma chain_next_in: "chain nx pv h p xs \<Longrightarrow> x \<in> set xs \<Longrightarrow> nx x = Some n \<Longrightarrow> n \<in> set xs"
proof (induction xs arbitrary: h p)
  case (Cons y ys)
  then show ?case using chain_head [of nx pv "nx y" "Some y" ys] by (cases ys) auto
qed simp

lemma chain_next_tail:
  "chain nx pv h p (y # ys) \<Longrightarrow> distinct (y # ys) \<Longrightarrow> x \<in> set (y # ys) \<Longrightarrow> nx x = Some n \<Longrightarrow> n \<noteq> y"
proof -
  assume a: "chain nx pv h p (y # ys)" "distinct (y # ys)" "x \<in> set (y # ys)" "nx x = Some n"
  have "n \<in> set ys"
  proof (cases "x = y")
    case True
    then show ?thesis using a chain_head [of nx pv "nx y" "Some y" ys] by (cases ys) auto
  next
    case False
    then show ?thesis using a chain_next_in [of nx pv "nx y" "Some y" ys x n] by auto
  qed
  then show ?thesis using a by auto
qed

lemma chain_prev_head:
  "chain nx pv h p (y # ys) \<Longrightarrow> x \<in> set ys \<Longrightarrow> distinct (y # ys) \<Longrightarrow> pv x = Some y \<longleftrightarrow> hd ys = x"
proof (induction ys arbitrary: h p y)
  case (Cons z zs)
  show ?case
  proof (cases "x = z")
    case True
    then show ?thesis using Cons.prems by simp
  next
    case False
    have "pv x \<in> Some ` set (z # zs)"
    proof -
      have "chain nx pv h p xs \<Longrightarrow> x \<in> set (tl xs) \<Longrightarrow> pv x \<in> Some ` set xs" for h p xs
        by (induction xs arbitrary: h p) (auto split: list.splits, case_tac xs, auto)
      from this [of "nx y" "Some y" "z # zs"] show ?thesis using Cons.prems False by simp
    qed
    then have "pv x \<noteq> Some y" using Cons.prems by auto
    then show ?thesis using False by simp
  qed
qed simp

lemma chain_prev_in: "chain nx pv h p xs \<Longrightarrow> x \<in> set xs \<Longrightarrow> pv x = p \<or> (\<exists>y \<in> set xs. pv x = Some y)"
proof (induction xs arbitrary: h p)
  case (Cons y ys)
  then show ?case by fastforce
qed simp

lemma chain_no_loop:
  "chain nx pv h p xs \<Longrightarrow> distinct xs \<Longrightarrow> x \<in> set xs \<Longrightarrow> (\<And>q. p = Some q \<Longrightarrow> q \<notin> set xs) \<Longrightarrow>
   nx x \<noteq> Some x \<and> pv x \<noteq> Some x"
proof (induction xs arbitrary: h p)
  case (Cons y ys)
  show ?case
  proof (cases "x = y")
    case True
    then show ?thesis using Cons.prems chain_head [of nx pv "nx y" "Some y" ys] by (cases ys) auto
  next
    case False
    then show ?thesis using Cons.IH [of "nx y" "Some y"] Cons.prems by auto
  qed
qed simp

lemma chain_unlink_from:
  "chain nx pv h p xs \<Longrightarrow> distinct xs \<Longrightarrow> x \<in> set xs \<Longrightarrow> (\<And>q. p = Some q \<Longrightarrow> q \<notin> set xs) \<Longrightarrow>
   chain (unlink_next nx pv x) (unlink_prev nx pv x) (if hd xs = x then nx x else h) p (remove1 x xs)"
proof (induction xs arbitrary: h p)
  case (Cons y ys)
  show ?case
  proof (cases "y = x")
    case True
    show ?thesis
    proof (cases ys)
      case Nil
      then show ?thesis using True Cons.prems by simp
    next
      case (Cons z zs)
      have z: "z \<noteq> x" "pv z = Some x" "nx x = Some z" "pv x = p"
        using Cons.prems \<open>ys = z # zs\<close> True by auto
      have "chain (unlink_next nx pv x) (unlink_prev nx pv x) (nx z) (Some z) zs"
        using Cons.prems \<open>ys = z # zs\<close> True z
        by (subst chain_cong [of zs _ nx _ pv]) (auto simp: unlink_next_def unlink_prev_def split: option.splits)
      moreover have "unlink_next nx pv x z = nx z" "unlink_prev nx pv x z = p"
        using \<open>ys = z # zs\<close> True z Cons.prems
        by (auto simp: unlink_next_def unlink_prev_def split: option.splits)
      ultimately show ?thesis using \<open>ys = z # zs\<close> True z by simp
    qed
  next
    case False
    then have x: "x \<in> set ys" using Cons.prems by simp
    have "chain (unlink_next nx pv x) (unlink_prev nx pv x) (if hd ys = x then nx x else nx y) (Some y) (remove1 x ys)"
      using Cons.IH [of "nx y" "Some y"] Cons.prems x by auto
    moreover have "unlink_next nx pv x y = (if hd ys = x then nx x else nx y)"
      using chain_prev_head [OF Cons.prems(1) x Cons.prems(2)] False
      by (auto simp: unlink_next_def split: option.splits)
    moreover have "unlink_prev nx pv x y = p"
      using chain_next_tail [OF Cons.prems(1,2), of x] Cons.prems x False
      by (auto simp: unlink_prev_def split: option.splits)
    ultimately show ?thesis using False Cons.prems by simp
  qed
qed simp

lemma chain_first_prev:
  assumes "chain nx pv h None xs" and "distinct xs" and "x \<in> set xs"
  shows "pv x = None \<longleftrightarrow> hd xs = x"
proof (cases xs)
  case (Cons y ys)
  show ?thesis
  proof (cases "x = y")
    case False
    then have "x \<in> set ys" using assms Cons by simp
    moreover have "chain nx pv (nx y) (Some y) ys" using assms Cons by simp
    ultimately have "pv x \<noteq> None" using chain_prev_in [of nx pv "nx y" "Some y" ys x] by auto
    then show ?thesis using False Cons by simp
  qed (use assms Cons in simp)
qed (use assms in simp)

lemma chain_unlink:
  assumes "chain nx pv h None xs" and "distinct xs" and "x \<in> set xs"
  shows "chain (unlink_next nx pv x) (unlink_prev nx pv x) (case pv x of None \<Rightarrow> nx x | Some _ \<Rightarrow> h) None (remove1 x xs)"
proof -
  have "(case pv x of None \<Rightarrow> nx x | Some _ \<Rightarrow> h) = (if hd xs = x then nx x else h)"
    using chain_first_prev [OF assms] by (cases "pv x") auto
  then show ?thesis using chain_unlink_from [OF assms] by simp
qed

text \<open>A chain that the element is not on is left alone.\<close>

lemma chain_unlink_other:
  assumes "chain nx pv h None xs" and "distinct xs" and "x \<in> set xs"
    and "chain nx pv h' None ys" and "set xs \<inter> set ys = {}"
  shows "chain (unlink_next nx pv x) (unlink_prev nx pv x) h' None ys"
proof -
  have "y \<noteq> x \<and> pv x \<noteq> Some y \<and> nx x \<noteq> Some y" if "y \<in> set ys" for y
    using that assms chain_next_in [OF assms(1,3)] chain_prev_in [OF assms(1,3)] by fastforce
  then show ?thesis
    using assms(4) by (subst chain_cong [of ys _ nx _ pv]) (auto simp: unlink_next_def unlink_prev_def split: option.splits)
qed

lemma chain_push:
  assumes "chain nx pv h None xs" and "x \<notin> set xs" and "distinct xs"
  shows "chain (nx(x := h)) (push_prev pv h x) (Some x) None (x # xs)"
proof (cases xs)
  case Nil
  then show ?thesis using assms by (auto simp: push_prev_def)
next
  case (Cons y ys)
  then have "chain (nx(x := h)) (push_prev pv h x) (nx y) (Some y) ys"
    using assms by (subst chain_cong [of ys _ nx _ pv]) (auto simp: push_prev_def split: option.splits)
  then show ?thesis using assms Cons by (auto simp: push_prev_def split: option.splits)
qed

lemma chain_push_other:
  assumes "chain nx pv h None xs" and "chain nx pv h' None ys" and "x \<notin> set ys" and "set xs \<inter> set ys = {}"
  shows "chain (nx(x := h)) (push_prev pv h x) h' None ys"
proof -
  have "h \<noteq> Some y" if "y \<in> set ys" for y using chain_head [OF assms(1)] that assms(4) by (cases xs) auto
  then show ?thesis
    using assms by (subst chain_cong [of ys _ nx _ pv]) (auto simp: push_prev_def split: option.splits)
qed

section \<open>Lists that end in a sentinel\<close>

fun path :: "nat \<Rightarrow> nat list \<Rightarrow> nat \<Rightarrow> nat list \<Rightarrow> bool" where
  "path stop links h [] \<longleftrightarrow> h = stop"
| "path stop links h (x # xs) \<longleftrightarrow> h = x \<and> x \<noteq> stop \<and> path stop links (links ! x) xs"

lemma path_update: "k \<notin> set xs \<Longrightarrow> path stop (links[k := v]) h xs = path stop links h xs"
  by (induction xs arbitrary: h) auto

lemma path_push:
  "path stop links h xs \<Longrightarrow> k \<notin> set xs \<Longrightarrow> k \<noteq> stop \<Longrightarrow> k < length links \<Longrightarrow>
   path stop (links[k := h]) k (k # xs)"
  by (simp add: path_update)

end
