(* ===== verification/Slab_Correct.thy ===== *)
theory Slab_Correct
  imports Slab Chains Pmm_Correct
begin

text \<open>
  Correctness of the slab allocator. From the inside out: bit words, one slab with its
  freelist and bitmap, the doubly linked lists of all caches, the invariant that ties them to
  the counters and to the pages of the physical allocator, and that it passes the kernel's
  own \<^verbatim>\<open>kmem_cache_validate\<close>. Then each operation is shown to keep the invariant and to
  take, give back or create exactly the objects it should.
\<close>

section \<open>Bit words\<close>

definition words_put :: "nat \<Rightarrow> bool \<Rightarrow> u32 list \<Rightarrow> u32 list" where
  "words_put i v ws = (if v then words_set ws i else words_clear ws i)"

lemma words_bit_eq: "words_bit ws i = bit (ws ! (i div 32)) (i mod 32)"
  by (simp add: words_bit_def bit_iff_and_push_bit_not_eq_0)

lemma bit_push_1_u32: "n < 32 \<Longrightarrow> bit (push_bit n (1 :: u32)) k \<longleftrightarrow> k = n"
  by (auto simp: bit_push_bit_iff bit_1_iff simp del: push_bit_of_1)

lemma div_mod_32_eq: "k div 32 = p div 32 \<Longrightarrow> k mod 32 = p mod 32 \<longleftrightarrow> k = p" for k p :: nat
  by (metis div_mult_mod_eq)

interpretation words: packed_array words_bit words_put "\<lambda>ws. 32 * length ws" "\<lambda>_. True"
proof
  fix i j v and m :: "u32 list"
  show "32 * length (words_put i v m) = 32 * length m"
    by (simp add: words_put_def words_set_def words_clear_def)
  assume i: "i < 32 * length m" and j: "j < 32 * length m"
  then have "i div 32 < length m" by (simp add: less_mult_imp_div_less mult.commute)
  moreover have "bit (1 :: u32) 0" by simp
  ultimately show "words_bit (words_put i v m) j = (if j = i then v else words_bit m j)"
    using div_mod_32_eq [of j i]
    by (auto simp: words_bit_eq words_put_def words_set_def words_clear_def nth_list_update bit_or_iff
        bit_and_iff bit_not_iff bit_push_1_u32 simp del: push_bit_of_1)
qed

lemma words_lengths [simp]:
  "length (words_set ws i) = length ws" "length (words_clear ws i) = length ws"
  by (simp_all add: words_set_def words_clear_def)

lemma words_bit_set: "i < 32 * length ws \<Longrightarrow> j < 32 * length ws \<Longrightarrow> words_bit (words_set ws i) j \<longleftrightarrow> j = i \<or> words_bit ws j"
  using words.get_put [of i ws j True] by (simp add: words_put_def)

lemma words_bit_clear: "i < 32 * length ws \<Longrightarrow> j < 32 * length ws \<Longrightarrow> words_bit (words_clear ws i) j \<longleftrightarrow> j \<noteq> i \<and> words_bit ws j"
  using words.get_put [of i ws j False] by (simp add: words_put_def)

section \<open>One slab\<close>

definition slab_level :: "nat \<Rightarrow> nat \<Rightarrow> u8" where
  "slab_level active count =
     (if active = 0 then KMEM_SLAB_STATE_EMPTY
      else if active < count then KMEM_SLAB_STATE_PARTIAL else KMEM_SLAB_STATE_FULL)"

definition taken :: "kmem_slab \<Rightarrow> nat set" where
  "taken s = {k. k < sb_object_count s \<and> slab_bit_is_set s k}"

text \<open>Everything about a slab but its place in a list and its level.\<close>

definition slab_body :: "kmem_slab \<Rightarrow> bool" where
  "slab_body s \<longleftrightarrow>
     sb_owner s \<noteq> None \<and> sb_memory s \<noteq> 0 \<and> sb_pages s \<noteq> 0 \<and>
     KMEM_SLAB_MIN_OBJECTS \<le> sb_object_count s \<and> sb_object_count s \<le> KMEM_SLAB_MAX_OBJECTS \<and>
     length (sb_bitmap s) = KMEM_SLAB_BITMAP_WORDS \<and> length (sb_free_next s) = KMEM_SLAB_MAX_OBJECTS \<and>
     (\<exists>fl. path KMEM_SLAB_MAX_OBJECTS (sb_free_next s) (sb_free_head s) fl \<and> distinct fl \<and>
        set fl = {0..<sb_object_count s} - taken s) \<and>
     sb_active_objects s = card (taken s)"

definition slab_ok :: "kmem_slab \<Rightarrow> bool" where
  "slab_ok s \<longleftrightarrow> slab_body s \<and> sb_state s = slab_level (sb_active_objects s) (sb_object_count s)"

lemma taken_finite [simp]: "finite (taken s)"
  by (simp add: taken_def)

lemma taken_subset: "taken s \<subseteq> {0..<sb_object_count s}"
  by (auto simp: taken_def)

lemma card_taken_le: "card (taken s) \<le> sb_object_count s"
  using card_mono [OF _ taken_subset [of s]] by simp

lemma free_walk_path:
  "path KMEM_SLAB_MAX_OBJECTS (sb_free_next s) h fl \<Longrightarrow> distinct fl \<Longrightarrow>
   set fl \<subseteq> {0..<sb_object_count s} - taken s \<Longrightarrow> sb_object_count s \<le> 128 \<Longrightarrow> length seen = 4 \<Longrightarrow>
   (\<forall>k \<in> set fl. \<not> words_bit seen k) \<Longrightarrow> n + length fl \<le> sb_object_count s \<Longrightarrow>
   \<exists>seen'. free_walk s h n seen = Some (KMEM_SLAB_MAX_OBJECTS, n + length fl, seen') \<and>
     (\<forall>k < 128. words_bit seen' k \<longleftrightarrow> words_bit seen k \<or> k \<in> set fl)"
proof (induction fl arbitrary: h n seen)
  case Nil
  then show ?case by (simp add: free_walk.simps [of s KMEM_SLAB_MAX_OBJECTS])
next
  case (Cons x fl)
  have x: "h = x" "x \<noteq> KMEM_SLAB_MAX_OBJECTS" "x < sb_object_count s" "\<not> slab_bit_is_set s x"
    using Cons.prems by (auto simp: taken_def)
  have seen: "words_bit (words_set seen x) k \<longleftrightarrow> k = x \<or> words_bit seen k" if "k < 128" for k
    using that x(3) Cons.prems(4,5) by (intro words_bit_set) simp_all
  have inx: "k < 128" if "k \<in> set fl" for k using that Cons.prems(3,4) by auto
  have "\<exists>seen'. free_walk s (sb_free_next s ! x) (Suc n) (words_set seen x) =
      Some (KMEM_SLAB_MAX_OBJECTS, Suc n + length fl, seen') \<and>
      (\<forall>k < 128. words_bit seen' k \<longleftrightarrow> words_bit (words_set seen x) k \<or> k \<in> set fl)"
    using Cons.prems x seen inx by (intro Cons.IH) auto
  then show ?case
    using x Cons.prems seen unfolding x(1) by (auto simp: free_walk.simps [of s x n seen])
qed

lemma length_filter_taken: "length (filter (slab_bit_is_set s) [0..<sb_object_count s]) = card (taken s)"
proof -
  have "card (taken s) = card (set (filter (slab_bit_is_set s) [0..<sb_object_count s]))"
    by (rule arg_cong [where f = card]) (auto simp: taken_def)
  also have "\<dots> = length (filter (slab_bit_is_set s) [0..<sb_object_count s])"
    by (rule distinct_card) simp
  finally show ?thesis by simp
qed

lemma slab_ok_validates:
  assumes "slab_ok s" and "sb_used s"
  shows "slab_validate_slab s"
proof -
  from assms(1) obtain fl where fl: "path KMEM_SLAB_MAX_OBJECTS (sb_free_next s) (sb_free_head s) fl" "distinct fl"
      "set fl = {0..<sb_object_count s} - taken s"
    and b: "sb_owner s \<noteq> None" "sb_memory s \<noteq> 0" "sb_pages s \<noteq> 0" "KMEM_SLAB_MIN_OBJECTS \<le> sb_object_count s"
      "sb_object_count s \<le> KMEM_SLAB_MAX_OBJECTS" "sb_active_objects s = card (taken s)"
      "sb_state s = slab_level (sb_active_objects s) (sb_object_count s)"
    by (auto simp: slab_ok_def slab_body_def)
  have len: "length fl = sb_object_count s - card (taken s)"
    using fl(2,3) taken_subset by (metis card_Diff_subset card_atLeastLessThan distinct_card minus_nat.diff_0 taken_finite)
  have "words_bit (replicate KMEM_SLAB_BITMAP_WORDS 0) k = False" if "k < 128" for k
    using that by (auto simp: words_bit_eq slab_limits less_mult_imp_div_less)
  then obtain seen where seen: "free_walk s (sb_free_head s) 0 (replicate KMEM_SLAB_BITMAP_WORDS 0) =
      Some (KMEM_SLAB_MAX_OBJECTS, length fl, seen)" "\<forall>k < 128. words_bit seen k \<longleftrightarrow> k \<in> set fl"
    using free_walk_path [OF fl(1,2), of "replicate KMEM_SLAB_BITMAP_WORDS 0" 0] fl(3) b(5) len
    by (auto simp: slab_limits)
  have cover: "\<not> list_ex (\<lambda>k. \<not> slab_bit_is_set s k \<and> \<not> words_bit seen k) [0..<sb_object_count s]"
    using seen(2) fl(3) b(5) by (auto simp: list_ex_iff slab_limits taken_def)
  show ?thesis
    using assms(2) b seen(1) cover len card_taken_le [of s]
    unfolding slab_validate_slab_def Let_def length_filter_taken
    by (auto simp: slab_level_def slab_states slab_limits split: if_splits)
qed

text \<open>A fresh slab, taking the head of the freelist, giving an object back.\<close>

lemma initial_free_next_len [simp]: "length (initial_free_next n) = KMEM_SLAB_MAX_OBJECTS"
proof -
  have "length (fold (\<lambda>i fs. fs[i := f i]) is xs) = length xs" for f :: "nat \<Rightarrow> nat" and "is" xs
    by (induction "is" arbitrary: xs) simp_all
  then show ?thesis by (simp add: initial_free_next_def)
qed

lemma initial_free_next_nth:
  assumes "n \<le> KMEM_SLAB_MAX_OBJECTS" and "k < n"
  shows "initial_free_next n ! k = (if k + 1 < n then k + 1 else KMEM_SLAB_MAX_OBJECTS)"
proof -
  have "m \<le> length xs \<Longrightarrow> fold (\<lambda>i fs. fs[i := f i]) [0..<m] xs ! k = (if k < m then f k else xs ! k)" for f :: "nat \<Rightarrow> nat" and m xs
  proof (induction m)
    case (Suc m)
    have "length (fold (\<lambda>i fs. fs[i := f i]) is ys) = length ys" for "is" ys
      by (induction "is" arbitrary: ys) simp_all
    then show ?case using Suc by (auto simp: nth_list_update less_Suc_eq)
  qed simp
  then show ?thesis using assms by (simp add: initial_free_next_def)
qed

lemma initial_path:
  assumes "n \<le> KMEM_SLAB_MAX_OBJECTS"
  shows "k \<le> n \<Longrightarrow> path KMEM_SLAB_MAX_OBJECTS (initial_free_next n) (if k < n then k else KMEM_SLAB_MAX_OBJECTS) [k..<n]"
proof (induction "n - k" arbitrary: k)
  case (Suc d)
  then have k: "k < n" by simp
  have "path KMEM_SLAB_MAX_OBJECTS (initial_free_next n) (if Suc k < n then Suc k else KMEM_SLAB_MAX_OBJECTS) [Suc k..<n]"
    using Suc by (intro Suc.hyps) simp_all
  moreover have "initial_free_next n ! k = (if Suc k < n then Suc k else KMEM_SLAB_MAX_OBJECTS)"
    using initial_free_next_nth [OF assms k] by simp
  ultimately show ?case using k assms unfolding upt_conv_Cons [OF k] by auto
qed simp

lemma take_body:
  assumes "slab_body s" and "sb_free_head s < sb_object_count s"
  defines "k \<equiv> sb_free_head s"
  defines "t \<equiv> (slab_set_bit k True (s\<lparr>sb_free_head := sb_free_next s ! k\<rparr>))\<lparr>sb_active_objects := sb_active_objects s + 1\<rparr>"
  shows "slab_body t" and "taken t = insert k (taken s)" and "k \<notin> taken s"
proof -
  from assms(1) obtain fl where fl: "path KMEM_SLAB_MAX_OBJECTS (sb_free_next s) (sb_free_head s) fl" "distinct fl"
      "set fl = {0..<sb_object_count s} - taken s" by (auto simp: slab_body_def)
  have lim: "sb_object_count s \<le> 128" "length (sb_bitmap s) = 4"
    using assms(1) by (auto simp: slab_body_def slab_limits)
  have "fl \<noteq> []" using fl(1) assms(2) lim(1) by (auto simp: slab_limits)
  then obtain rest where rest: "fl = k # rest" using fl(1) by (cases fl) (auto simp: k_def)
  show new: "k \<notin> taken s" using fl(3) rest by auto
  have bits: "slab_bit_is_set t j \<longleftrightarrow> j = k \<or> slab_bit_is_set s j" if "j < sb_object_count s" for j
    using that lim assms(2) unfolding t_def slab_set_bit_def slab_bit_is_set_def k_def
    by (simp add: words_bit_set)
  show tk: "taken t = insert k (taken s)"
    using bits assms(2) by (auto simp: taken_def t_def slab_set_bit_def k_def)
  have "path KMEM_SLAB_MAX_OBJECTS (sb_free_next t) (sb_free_head t) rest"
    using fl(1) rest by (simp add: t_def slab_set_bit_def)
  moreover have "set rest = {0..<sb_object_count t} - taken t" "distinct rest"
    using fl rest tk by (auto simp: t_def slab_set_bit_def)
  ultimately have "\<exists>fl. path KMEM_SLAB_MAX_OBJECTS (sb_free_next t) (sb_free_head t) fl \<and> distinct fl \<and>
        set fl = {0..<sb_object_count t} - taken t" by blast
  then show "slab_body t"
    using assms(1) new tk unfolding slab_body_def by (simp add: t_def slab_set_bit_def)
qed

lemma give_body:
  assumes "slab_body s" and "k \<in> taken s"
  defines "t \<equiv> (slab_set_bit k False s)\<lparr>sb_free_next := (sb_free_next s)[k := sb_free_head s], sb_free_head := k,
     sb_active_objects := sb_active_objects s - 1\<rparr>"
  shows "slab_body t" and "taken t = taken s - {k}"
proof -
  from assms(1) obtain fl where fl: "path KMEM_SLAB_MAX_OBJECTS (sb_free_next s) (sb_free_head s) fl" "distinct fl"
      "set fl = {0..<sb_object_count s} - taken s" by (auto simp: slab_body_def)
  have lim: "sb_object_count s \<le> 128" "length (sb_bitmap s) = 4" "length (sb_free_next s) = 128"
    using assms(1) by (auto simp: slab_body_def slab_limits)
  have k: "k < sb_object_count s" using assms(2) by (simp add: taken_def)
  have t: "sb_object_count t = sb_object_count s" "sb_owner t = sb_owner s" "sb_memory t = sb_memory s"
      "sb_pages t = sb_pages s" "sb_bitmap t = words_clear (sb_bitmap s) k"
      "sb_free_next t = (sb_free_next s)[k := sb_free_head s]" "sb_free_head t = k"
      "sb_active_objects t = sb_active_objects s - 1"
    by (simp_all add: t_def slab_set_bit_def)
  have bits: "slab_bit_is_set t j \<longleftrightarrow> j \<noteq> k \<and> slab_bit_is_set s j" if "j < sb_object_count s" for j
    using that lim k by (simp add: slab_bit_is_set_def t words_bit_clear)
  show tk: "taken t = taken s - {k}"
    using bits by (auto simp: taken_def t)
  have "k \<notin> set fl" using fl(3) assms(2) by simp
  then have "path KMEM_SLAB_MAX_OBJECTS (sb_free_next t) (sb_free_head t) (k # fl)"
    using path_push [OF fl(1)] k lim unfolding t by (simp add: KMEM_SLAB_MAX_OBJECTS_def)
  moreover have "set (k # fl) = {0..<sb_object_count t} - taken t" "distinct (k # fl)"
    using fl(2) \<open>k \<notin> set fl\<close> k assms(2) unfolding tk t(1) by (auto simp: fl(3))
  ultimately have "\<exists>fl. path KMEM_SLAB_MAX_OBJECTS (sb_free_next t) (sb_free_head t) fl \<and> distinct fl \<and>
        set fl = {0..<sb_object_count t} - taken t" by blast
  moreover have "sb_active_objects t = card (taken t)"
    using assms(1,2) by (simp add: t tk slab_body_def)
  ultimately show "slab_body t"
    using assms(1) unfolding slab_body_def by (simp add: t)
qed

section \<open>Slab lists\<close>

definition nexts :: "slab_state \<Rightarrow> nat \<Rightarrow> nat option" where
  "nexts st i = sb_next (slab_at st i)"

definition prevs :: "slab_state \<Rightarrow> nat \<Rightarrow> nat option" where
  "prevs st i = sb_previous (slab_at st i)"

definition levels :: "u8 set" where
  "levels = {KMEM_SLAB_STATE_EMPTY, KMEM_SLAB_STATE_PARTIAL, KMEM_SLAB_STATE_FULL}"

text \<open>A state without the links: what the list operations do not change.\<close>

definition slab_core :: "kmem_slab \<Rightarrow> kmem_slab" where
  "slab_core s = s\<lparr>sb_next := None, sb_previous := None\<rparr>"

definition cache_core :: "kmem_cache \<Rightarrow> kmem_cache" where
  "cache_core e = e\<lparr>sc_full_head := None, sc_partial_head := None, sc_empty_head := None\<rparr>"

definition core :: "slab_state \<Rightarrow> slab_state" where
  "core st = st\<lparr>sl_slabs := map slab_core (sl_slabs st), sl_caches := map cache_core (sl_caches st)\<rparr>"

lemma put_simps [simp]:
  "sl_slabs (put_slab i f st) = (sl_slabs st)[i := f (slab_at st i)]"
  "sl_caches (put_slab i f st) = sl_caches st"
  "sl_caches (put_cache c g st) = (sl_caches st)[c := g (cache_at st c)]"
  "sl_slabs (put_cache c g st) = sl_slabs st"
  "sl_cache_count (put_slab i f st) = sl_cache_count st" "sl_cache_count (put_cache c g st) = sl_cache_count st"
  "sl_slab_count (put_slab i f st) = sl_slab_count st" "sl_slab_count (put_cache c g st) = sl_slab_count st"
  "sl_initialized (put_slab i f st) = sl_initialized st" "sl_initialized (put_cache c g st) = sl_initialized st"
  "sl_pmm (put_slab i f st) = sl_pmm st" "sl_pmm (put_cache c g st) = sl_pmm st"
  "sl_memory (put_slab i f st) = sl_memory st" "sl_memory (put_cache c g st) = sl_memory st"
  "sl_paging_ready (put_slab i f st) = sl_paging_ready st" "sl_paging_ready (put_cache c g st) = sl_paging_ready st"
  by (simp_all add: put_slab_def put_cache_def)

lemma nexts_put:
  "i < length (sl_slabs st) \<Longrightarrow> nexts (put_slab i f st) = (nexts st)(i := sb_next (f (slab_at st i)))"
  "i < length (sl_slabs st) \<Longrightarrow> prevs (put_slab i f st) = (prevs st)(i := sb_previous (f (slab_at st i)))"
  "nexts (put_cache c g st) = nexts st" "prevs (put_cache c g st) = prevs st"
  by (auto simp: nexts_def prevs_def fun_eq_iff nth_list_update)

lemma cache_core_idem: "cache_core (g (cache_at st c)) = cache_core (cache_at st c) \<Longrightarrow> core (put_cache c g st) = core st"
  by (cases "c < length (sl_caches st)") (simp_all add: core_def put_cache_def map_update list_update_same_conv list_update_beyond)

lemma slab_core_put: "slab_core (f (slab_at st i)) = slab_core (slab_at st i) \<Longrightarrow> core (put_slab i f st) = core st"
  by (cases "i < length (sl_slabs st)") (simp_all add: core_def put_slab_def map_update list_update_same_conv list_update_beyond)

lemma cache_core_set_head [simp]: "cache_core (set_head s h e) = cache_core e"
  by (simp add: cache_core_def set_head_def)

lemma head_of_set_head:
  "s \<in> levels \<Longrightarrow> s' \<in> levels \<Longrightarrow> head_of s (set_head s' h e) = (if s = s' then h else head_of s e)"
  by (auto simp: levels_def head_of_def set_head_def slab_states)

lemma core_remove [simp]: "core (slab_list_remove c i st) = core st"
  by (simp add: slab_list_remove_def Let_def slab_core_put slab_core_def cache_core_idem split: option.split)

lemma core_add: "core (slab_list_add c i s st) = core (put_slab i (\<lambda>x. x\<lparr>sb_state := s\<rparr>) st)"
proof -
  have "core (case head_of s (cache_at t c) of Some h \<Rightarrow> put_slab h (\<lambda>x. x\<lparr>sb_previous := Some i\<rparr>) u | None \<Rightarrow> u) = core u" for t u
    by (simp add: slab_core_put slab_core_def split: option.split)
  then show ?thesis
    by (simp add: slab_list_add_def Let_def cache_core_idem slab_core_put slab_core_def)
qed

text \<open>Reading through the core.\<close>

lemma core_eqD:
  assumes "core st' = core st"
  shows "length (sl_slabs st') = length (sl_slabs st)" "length (sl_caches st') = length (sl_caches st)"
    "i < length (sl_slabs st) \<Longrightarrow> slab_core (slab_at st' i) = slab_core (slab_at st i)"
    "c < length (sl_caches st) \<Longrightarrow> cache_core (cache_at st' c) = cache_core (cache_at st c)"
    "sl_cache_count st' = sl_cache_count st" "sl_slab_count st' = sl_slab_count st"
    "sl_initialized st' = sl_initialized st" "sl_pmm st' = sl_pmm st" "sl_memory st' = sl_memory st"
    "sl_paging_ready st' = sl_paging_ready st" "sl_allocation_failures st' = sl_allocation_failures st"
proof -
  have s: "map slab_core (sl_slabs st') = map slab_core (sl_slabs st)"
    and c: "map cache_core (sl_caches st') = map cache_core (sl_caches st)"
    using arg_cong [OF assms, of sl_slabs] arg_cong [OF assms, of sl_caches] by (simp_all add: core_def)
  show l: "length (sl_slabs st') = length (sl_slabs st)" "length (sl_caches st') = length (sl_caches st)"
    using map_eq_imp_length_eq [OF s] map_eq_imp_length_eq [OF c] by simp_all
  show "i < length (sl_slabs st) \<Longrightarrow> slab_core (slab_at st' i) = slab_core (slab_at st i)"
    using arg_cong [OF s, of "\<lambda>xs. xs ! i"] l by simp
  show "c < length (sl_caches st) \<Longrightarrow> cache_core (cache_at st' c) = cache_core (cache_at st c)"
    using arg_cong [OF c, of "\<lambda>xs. xs ! c"] l by simp
  show "sl_cache_count st' = sl_cache_count st" "sl_slab_count st' = sl_slab_count st"
    "sl_initialized st' = sl_initialized st" "sl_pmm st' = sl_pmm st" "sl_memory st' = sl_memory st"
    "sl_paging_ready st' = sl_paging_ready st" "sl_allocation_failures st' = sl_allocation_failures st"
    using arg_cong [OF assms, of sl_cache_count] arg_cong [OF assms, of sl_slab_count]
      arg_cong [OF assms, of sl_initialized] arg_cong [OF assms, of sl_pmm] arg_cong [OF assms, of sl_memory]
      arg_cong [OF assms, of sl_paging_ready] arg_cong [OF assms, of sl_allocation_failures]
    by (simp_all add: core_def)
qed

lemma slab_core_fields:
  assumes "slab_core s = slab_core t"
  shows "sb_owner s = sb_owner t" "sb_memory s = sb_memory t" "sb_pages s = sb_pages t"
    "sb_object_count s = sb_object_count t" "sb_active_objects s = sb_active_objects t"
    "sb_free_head s = sb_free_head t" "sb_state s = sb_state t" "sb_used s = sb_used t"
    "sb_bitmap s = sb_bitmap t" "sb_free_next s = sb_free_next t"
  using assms by (simp_all add: slab_core_def kmem_slab.defs) (cases s; cases t; simp)+

lemma cache_core_fields:
  assumes "cache_core d = cache_core e"
  shows "sc_name d = sc_name e" "sc_object_size d = sc_object_size e" "sc_alignment d = sc_alignment e"
    "sc_object_stride d = sc_object_stride e" "sc_objects_per_slab d = sc_objects_per_slab e"
    "sc_slab_pages d = sc_slab_pages e" "sc_active_objects d = sc_active_objects e"
    "sc_capacity d = sc_capacity e" "sc_slab_count d = sc_slab_count e" "sc_used d = sc_used e"
  using assms by (cases d; cases e; simp add: cache_core_def)+

text \<open>The links and heads after the two list operations.\<close>

lemma remove_links:
  assumes i: "i < length (sl_slabs st)" and c: "c < length (sl_caches st)"
    and p: "\<And>p. prevs st i = Some p \<Longrightarrow> p < length (sl_slabs st) \<and> p \<noteq> i"
    and n: "\<And>n. nexts st i = Some n \<Longrightarrow> n < length (sl_slabs st) \<and> n \<noteq> i"
  shows "nexts (slab_list_remove c i st) = unlink_next (nexts st) (prevs st) i"
    and "prevs (slab_list_remove c i st) = unlink_prev (nexts st) (prevs st) i"
    and "sl_caches (slab_list_remove c i st) = (case prevs st i of
      None \<Rightarrow> (sl_caches st)[c := set_head (sb_state (slab_at st i)) (nexts st i) (cache_at st c)] | Some _ \<Rightarrow> sl_caches st)"
proof -
  define st1 where "st1 = (case prevs st i of
      Some p \<Rightarrow> put_slab p (\<lambda>s. s\<lparr>sb_next := nexts st i\<rparr>) st
    | None \<Rightarrow> put_cache c (set_head (sb_state (slab_at st i)) (nexts st i)) st)"
  have s1: "slab_at st1 i = slab_at st i" "length (sl_slabs st1) = length (sl_slabs st)"
    "nexts st1 = (case prevs st i of Some p \<Rightarrow> (nexts st)(p := nexts st i) | None \<Rightarrow> nexts st)"
    "prevs st1 = prevs st"
    "sl_caches st1 = (case prevs st i of
      None \<Rightarrow> (sl_caches st)[c := set_head (sb_state (slab_at st i)) (nexts st i) (cache_at st c)] | Some _ \<Rightarrow> sl_caches st)"
    using p by (auto simp: st1_def nexts_put prevs_def split: option.split)
  define st2 where "st2 = (case nexts st i of
      Some n \<Rightarrow> put_slab n (\<lambda>s. s\<lparr>sb_previous := prevs st i\<rparr>) st1 | None \<Rightarrow> st1)"
  have s2: "length (sl_slabs st2) = length (sl_slabs st)" "sl_caches st2 = sl_caches st1" "nexts st2 = nexts st1"
    "prevs st2 = (case nexts st i of Some n \<Rightarrow> (prevs st)(n := prevs st i) | None \<Rightarrow> prevs st)"
    using n s1 by (auto simp: st2_def nexts_put nexts_def [symmetric] split: option.split)
  have eq: "slab_list_remove c i st = put_slab i (\<lambda>s. s\<lparr>sb_next := None, sb_previous := None\<rparr>) st2"
  proof -
    have "slab_list_remove c i st = (let slab = slab_at st1 i;
        st = (case sb_next slab of Some n \<Rightarrow> put_slab n (\<lambda>s. s\<lparr>sb_previous := sb_previous slab\<rparr>) st1 | None \<Rightarrow> st1)
      in put_slab i (\<lambda>s. s\<lparr>sb_next := None, sb_previous := None\<rparr>) st)"
      unfolding slab_list_remove_def st1_def nexts_def prevs_def Let_def ..
    then show ?thesis unfolding st2_def nexts_def prevs_def Let_def s1(1) .
  qed
  show "nexts (slab_list_remove c i st) = unlink_next (nexts st) (prevs st) i"
    "prevs (slab_list_remove c i st) = unlink_prev (nexts st) (prevs st) i"
    using i s1 s2 by (auto simp: eq nexts_put unlink_next_def unlink_prev_def split: option.split)
  show "sl_caches (slab_list_remove c i st) = (case prevs st i of
      None \<Rightarrow> (sl_caches st)[c := set_head (sb_state (slab_at st i)) (nexts st i) (cache_at st c)] | Some _ \<Rightarrow> sl_caches st)"
    using s1(5) s2(2) by (simp add: eq)
qed

lemma add_links:
  assumes i: "i < length (sl_slabs st)" and c: "c < length (sl_caches st)"
    and h: "\<And>h. head_of s (cache_at st c) = Some h \<Longrightarrow> h < length (sl_slabs st) \<and> h \<noteq> i"
  shows "nexts (slab_list_add c i s st) = (nexts st)(i := head_of s (cache_at st c))"
    and "prevs (slab_list_add c i s st) = push_prev (prevs st) (head_of s (cache_at st c)) i"
    and "sl_caches (slab_list_add c i s st) = (sl_caches st)[c := set_head s (Some i) (cache_at st c)]"
proof -
  define st1 where "st1 = put_slab i (\<lambda>x. x\<lparr>sb_previous := None, sb_next := head_of s (cache_at st c)\<rparr>)
    (put_slab i (\<lambda>x. x\<lparr>sb_state := s\<rparr>) st)"
  have s1: "length (sl_slabs st1) = length (sl_slabs st)" "sl_caches st1 = sl_caches st"
    "nexts st1 = (nexts st)(i := head_of s (cache_at st c))" "prevs st1 = (prevs st)(i := None)"
    using i by (auto simp: st1_def nexts_put)
  define st2 where "st2 = (case head_of s (cache_at st c) of
      Some h \<Rightarrow> put_slab h (\<lambda>x. x\<lparr>sb_previous := Some i\<rparr>) st1 | None \<Rightarrow> st1)"
  have s2: "sl_caches st2 = sl_caches st" "nexts st2 = nexts st1" "prevs st2 = push_prev (prevs st) (head_of s (cache_at st c)) i"
    using h s1 by (auto simp: st2_def nexts_put push_prev_def nexts_def [symmetric] split: option.split)
  have eq: "slab_list_add c i s st = put_cache c (set_head s (Some i)) st2"
    by (simp add: slab_list_add_def Let_def st2_def st1_def split: option.split)
  show "nexts (slab_list_add c i s st) = (nexts st)(i := head_of s (cache_at st c))"
    "prevs (slab_list_add c i s st) = push_prev (prevs st) (head_of s (cache_at st c)) i"
    "sl_caches (slab_list_add c i s st) = (sl_caches st)[c := set_head s (Some i) (cache_at st c)]"
    using s1 s2 by (simp_all add: eq nexts_put)
qed

text \<open>
  The lists of all caches at once: \<open>ls c s\<close> is the list of cache \<open>c\<close> for level \<open>s\<close>.
\<close>

abbreviation list_of :: "slab_state \<Rightarrow> nat \<Rightarrow> u8 \<Rightarrow> bool" where
  "list_of st c s \<equiv> c < KMEM_CACHE_MAX \<and> sc_used (cache_at st c) \<and> s \<in> levels"

definition links_ok :: "slab_state \<Rightarrow> (nat \<Rightarrow> u8 \<Rightarrow> nat list) \<Rightarrow> bool" where
  "links_ok st ls \<longleftrightarrow>
     length (sl_slabs st) = KMEM_SLAB_MAX \<and> length (sl_caches st) = KMEM_CACHE_MAX \<and>
     (\<forall>c s. list_of st c s \<longrightarrow> chain (nexts st) (prevs st) (head_of s (cache_at st c)) None (ls c s) \<and>
        distinct (ls c s) \<and> set (ls c s) \<subseteq> {0..<KMEM_SLAB_MAX}) \<and>
     (\<forall>c s c' s'. list_of st c s \<and> list_of st c' s' \<and> (c, s) \<noteq> (c', s') \<longrightarrow>
        disjnt (set (ls c s)) (set (ls c' s')))"

definition ls_put :: "(nat \<Rightarrow> u8 \<Rightarrow> nat list) \<Rightarrow> nat \<Rightarrow> u8 \<Rightarrow> nat list \<Rightarrow> nat \<Rightarrow> u8 \<Rightarrow> nat list" where
  "ls_put ls c s xs = ls(c := (ls c)(s := xs))"

lemma ls_put_apply: "ls_put ls c s xs c' s' = (if c' = c \<and> s' = s then xs else ls c' s')"
  by (simp add: ls_put_def)

lemma links_okD:
  assumes "links_ok st ls"
  shows "length (sl_slabs st) = KMEM_SLAB_MAX" "length (sl_caches st) = KMEM_CACHE_MAX"
    "list_of st c s \<Longrightarrow> chain (nexts st) (prevs st) (head_of s (cache_at st c)) None (ls c s)"
    "list_of st c s \<Longrightarrow> distinct (ls c s)" "list_of st c s \<Longrightarrow> i \<in> set (ls c s) \<Longrightarrow> i < KMEM_SLAB_MAX"
    "list_of st c s \<Longrightarrow> list_of st c' s' \<Longrightarrow> (c, s) \<noteq> (c', s') \<Longrightarrow> set (ls c s) \<inter> set (ls c' s') = {}"
  using assms by (auto simp: links_ok_def disjnt_def subset_iff)

lemma links_okI:
  assumes "length (sl_slabs st) = KMEM_SLAB_MAX" "length (sl_caches st) = KMEM_CACHE_MAX"
    and "\<And>c s. list_of st c s \<Longrightarrow> chain (nexts st) (prevs st) (head_of s (cache_at st c)) None (ls c s)"
    and "\<And>c s. list_of st c s \<Longrightarrow> distinct (ls c s)"
    and "\<And>c s i. list_of st c s \<Longrightarrow> i \<in> set (ls c s) \<Longrightarrow> i < KMEM_SLAB_MAX"
    and "\<And>c s c' s' i. list_of st c s \<Longrightarrow> list_of st c' s' \<Longrightarrow> i \<in> set (ls c s) \<Longrightarrow> i \<in> set (ls c' s') \<Longrightarrow> c = c' \<and> s = s'"
  shows "links_ok st ls"
  unfolding links_ok_def disjnt_def
  using assms(1-5) assms(6) by (auto simp: subset_iff)

lemma links_ok_cong:
  assumes "links_ok st ls" and "length (sl_slabs st') = length (sl_slabs st)" "length (sl_caches st') = length (sl_caches st)"
    and "nexts st' = nexts st" "prevs st' = prevs st"
    and "\<And>c. c < KMEM_CACHE_MAX \<Longrightarrow> sc_used (cache_at st' c) = sc_used (cache_at st c)"
    and "\<And>c s. c < KMEM_CACHE_MAX \<Longrightarrow> head_of s (cache_at st' c) = head_of s (cache_at st c)"
  shows "links_ok st' ls"
proof -
  have l: "list_of st' c s \<longleftrightarrow> list_of st c s" for c s using assms(6) by auto
  show ?thesis
  proof (rule links_okI)
    show "length (sl_slabs st') = KMEM_SLAB_MAX" "length (sl_caches st') = KMEM_CACHE_MAX"
      using links_okD(1,2) [OF assms(1)] assms(2,3) by simp_all
  next
    fix c s assume "list_of st' c s"
    then have l': "list_of st c s" using l by simp
    show "chain (nexts st') (prevs st') (head_of s (cache_at st' c)) None (ls c s)"
      using links_okD(3) [OF assms(1) l'] assms(4,5) assms(7) [of c s] l' by simp
    show "distinct (ls c s)" by (rule links_okD(4) [OF assms(1) l'])
    show "i < KMEM_SLAB_MAX" if "i \<in> set (ls c s)" for i by (rule links_okD(5) [OF assms(1) l' that])
  next
    fix c s c' s' i
    assume "list_of st' c s" "list_of st' c' s'" "i \<in> set (ls c s)" "i \<in> set (ls c' s')"
    then show "c = c' \<and> s = s'" using links_okD(6) [OF assms(1), of c s c' s'] l [of c s] l [of c' s'] by blast
  qed
qed

lemma used_set_head [simp]: "sc_used (set_head s h e) = sc_used e"
  by (simp add: set_head_def)

lemma links_remove:
  assumes ok: "links_ok st ls" and l: "list_of st c s" and i: "i \<in> set (ls c s)" and s: "sb_state (slab_at st i) = s"
  shows "links_ok (slab_list_remove c i st) (ls_put ls c s (remove1 i (ls c s)))"
proof -
  let ?st = "slab_list_remove c i st"
  note d = links_okD [OF ok]
  have len: "i < length (sl_slabs st)" "c < length (sl_caches st)" using d(1,2) d(5) [OF l i] l by simp_all
  have p: "p < length (sl_slabs st) \<and> p \<noteq> i" if "prevs st i = Some p" for p
    using chain_prev_in [OF d(3) [OF l] i] that d(1) d(5) [OF l] chain_no_loop [OF d(3) [OF l] d(4) [OF l] i] by auto
  have n: "n < length (sl_slabs st) \<and> n \<noteq> i" if "nexts st i = Some n" for n
    using chain_next_in [OF d(3) [OF l] i that] that d(1) d(5) [OF l] chain_no_loop [OF d(3) [OF l] d(4) [OF l] i] by auto
  note r = remove_links [OF len p n]
  have used: "sc_used (cache_at ?st c') = sc_used (cache_at st c')" for c'
    using len by (simp add: r(3) nth_list_update split: option.split)
  have head: "head_of s' (cache_at ?st c') =
      (if c' = c \<and> s' = s then (case prevs st i of None \<Rightarrow> nexts st i | Some _ \<Rightarrow> head_of s (cache_at st c))
       else head_of s' (cache_at st c'))" if "s' \<in> levels" for c' s'
    using len l that by (auto simp: r(3) s nth_list_update head_of_set_head split: option.split)
  show ?thesis
  proof (rule links_okI)
    show "length (sl_slabs ?st) = KMEM_SLAB_MAX" "length (sl_caches ?st) = KMEM_CACHE_MAX"
      using d(1,2) core_eqD(1,2) [OF core_remove] by simp_all
  next
    fix c' s' assume l': "list_of ?st c' s'"
    then have l'': "list_of st c' s'" using used by simp
    show "chain (nexts ?st) (prevs ?st) (head_of s' (cache_at ?st c')) None (ls_put ls c s (remove1 i (ls c s)) c' s')"
    proof (cases "c' = c \<and> s' = s")
      case True
      then show ?thesis
        using chain_unlink [OF d(3) [OF l] d(4) [OF l] i] l by (simp add: ls_put_apply head r(1,2))
    next
      case False
      then have "set (ls c s) \<inter> set (ls c' s') = {}" using d(6) [OF l l''] by auto
      then show ?thesis
        using False chain_unlink_other [OF d(3) [OF l] d(4) [OF l] i d(3) [OF l'']] l''
        by (auto simp: ls_put_apply head r(1,2))
    qed
    show "distinct (ls_put ls c s (remove1 i (ls c s)) c' s')"
      using d(4) [OF l''] d(4) [OF l] by (simp add: ls_put_apply)
    show "j < KMEM_SLAB_MAX" if "j \<in> set (ls_put ls c s (remove1 i (ls c s)) c' s')" for j
      using that d(5) [OF l'', of j] d(5) [OF l, of j] set_remove1_subset [of i "ls c s"] by (auto simp: ls_put_apply split: if_splits)
  next
    fix c1 s1 c2 s2 j
    assume "list_of ?st c1 s1" "list_of ?st c2 s2"
      and j: "j \<in> set (ls_put ls c s (remove1 i (ls c s)) c1 s1)" "j \<in> set (ls_put ls c s (remove1 i (ls c s)) c2 s2)"
    then have "list_of st c1 s1" "list_of st c2 s2" using used by simp_all
    moreover have "j \<in> set (ls c1 s1)" "j \<in> set (ls c2 s2)"
      using j set_remove1_subset [of i "ls c s"] by (auto simp: ls_put_apply split: if_splits)
    ultimately show "c1 = c2 \<and> s1 = s2" using d(6) [of c1 s1 c2 s2] by blast
  qed
qed

lemma links_add:
  assumes ok: "links_ok st ls" and l: "list_of st c s" and i: "i < KMEM_SLAB_MAX"
    and fresh: "\<And>c s. list_of st c s \<Longrightarrow> i \<notin> set (ls c s)"
  shows "links_ok (slab_list_add c i s st) (ls_put ls c s (i # ls c s))"
proof -
  let ?st = "slab_list_add c i s st"
  note d = links_okD [OF ok]
  have len: "i < length (sl_slabs st)" "c < length (sl_caches st)" using d(1,2) i l by simp_all
  have h: "h < length (sl_slabs st) \<and> h \<noteq> i" if "head_of s (cache_at st c) = Some h" for h
    using chain_head [OF d(3) [OF l]] that d(1) d(5) [OF l, of h] fresh [OF l] by (cases "ls c s") auto
  note r = add_links [OF len h]
  have used: "sc_used (cache_at ?st c') = sc_used (cache_at st c')" for c'
    using len by (simp add: r(3) nth_list_update)
  have head: "head_of s' (cache_at ?st c') = (if c' = c \<and> s' = s then Some i else head_of s' (cache_at st c'))"
    if "s' \<in> levels" for c' s'
    using len l that by (auto simp: r(3) nth_list_update head_of_set_head)
  show ?thesis
  proof (rule links_okI)
    show "length (sl_slabs ?st) = KMEM_SLAB_MAX" "length (sl_caches ?st) = KMEM_CACHE_MAX"
      using d(1,2) core_eqD(1,2) [OF core_add] by simp_all
  next
    fix c' s' assume l': "list_of ?st c' s'"
    then have l'': "list_of st c' s'" using used by simp
    show "chain (nexts ?st) (prevs ?st) (head_of s' (cache_at ?st c')) None (ls_put ls c s (i # ls c s) c' s')"
    proof (cases "c' = c \<and> s' = s")
      case True
      then show ?thesis
        using chain_push [OF d(3) [OF l] fresh [OF l] d(4) [OF l]] l by (simp add: ls_put_apply head r(1,2))
    next
      case False
      then have "set (ls c s) \<inter> set (ls c' s') = {}" using d(6) [OF l l''] by auto
      then show ?thesis
        using False chain_push_other [OF d(3) [OF l] d(3) [OF l''] fresh [OF l'']] l''
        by (auto simp: ls_put_apply head r(1,2))
    qed
    show "distinct (ls_put ls c s (i # ls c s) c' s')"
      using d(4) [OF l''] d(4) [OF l] fresh [OF l] by (simp add: ls_put_apply)
    show "j < KMEM_SLAB_MAX" if "j \<in> set (ls_put ls c s (i # ls c s) c' s')" for j
      using that d(5) [OF l'', of j] d(5) [OF l, of j] i by (auto simp: ls_put_apply split: if_splits)
  next
    fix c1 s1 c2 s2 j
    assume "list_of ?st c1 s1" "list_of ?st c2 s2"
      and j: "j \<in> set (ls_put ls c s (i # ls c s) c1 s1)" "j \<in> set (ls_put ls c s (i # ls c s) c2 s2)"
    then have l12: "list_of st c1 s1" "list_of st c2 s2" using used by simp_all
    show "c1 = c2 \<and> s1 = s2"
      using j d(6) [OF l12] fresh [OF l12(1)] fresh [OF l12(2)] by (auto simp: ls_put_apply split: if_splits)
  qed
qed

section \<open>The invariant\<close>

definition owned_slabs :: "slab_state \<Rightarrow> nat \<Rightarrow> nat set" where
  "owned_slabs st c = {j. j < KMEM_SLAB_MAX \<and> sb_used (slab_at st j) \<and> sb_owner (slab_at st j) = Some c}"

definition members :: "slab_state \<Rightarrow> nat \<Rightarrow> u8 \<Rightarrow> nat set" where
  "members st c s = {j \<in> owned_slabs st c. sb_state (slab_at st j) = s}"

definition used_slabs :: "slab_state \<Rightarrow> nat set" where
  "used_slabs st = {j. j < KMEM_SLAB_MAX \<and> sb_used (slab_at st j)}"

definition used_caches :: "slab_state \<Rightarrow> nat set" where
  "used_caches st = {c. c < KMEM_CACHE_MAX \<and> sc_used (cache_at st c)}"

definition cache_geometry :: "kmem_cache \<Rightarrow> bool" where
  "cache_geometry e \<longleftrightarrow>
     sc_object_stride e \<noteq> 0 \<and> sc_object_size e \<le> sc_object_stride e \<and>
     (\<exists>k \<le> 12. unat (sc_alignment e) = 2 ^ k) \<and> unat (sc_alignment e) dvd unat (sc_object_stride e) \<and>
     KMEM_SLAB_MIN_OBJECTS \<le> unat (sc_objects_per_slab e) \<and> unat (sc_objects_per_slab e) \<le> KMEM_SLAB_MAX_OBJECTS \<and>
     unat (sc_objects_per_slab e) * unat (sc_object_stride e) \<le> unat (sc_slab_pages e) * PAGE_SIZE \<and>
     sc_slab_pages e \<noteq> 0"

definition slab_fits :: "slab_state \<Rightarrow> kmem_slab \<Rightarrow> bool" where
  "slab_fits st s \<longleftrightarrow>
     (\<exists>c \<in> used_caches st. sb_owner s = Some c \<and> sb_object_count s = unat (sc_objects_per_slab (cache_at st c)) \<and>
        sb_pages s = sc_slab_pages (cache_at st c))"

definition cache_totals :: "slab_state \<Rightarrow> nat \<Rightarrow> bool" where
  "cache_totals st c \<longleftrightarrow>
     sc_active_objects (cache_at st c) = word_of_nat (\<Sum>j \<in> owned_slabs st c. sb_active_objects (slab_at st j)) \<and>
     sc_capacity (cache_at st c) = word_of_nat (\<Sum>j \<in> owned_slabs st c. sb_object_count (slab_at st j)) \<and>
     sc_slab_count (cache_at st c) = word_of_nat (card (owned_slabs st c))"

definition slab_runs :: "slab_state \<Rightarrow> nat \<Rightarrow> (u32 \<times> nat) option" where
  "slab_runs st i =
     (if i \<in> used_slabs st then Some (sb_memory (slab_at st i), unat (sb_pages (slab_at st i))) else None)"

definition body_inv :: "slab_state \<Rightarrow> bool" where
  "body_inv st \<longleftrightarrow>
     sl_initialized st \<and>
     (\<forall>i \<in> used_slabs st. slab_ok (slab_at st i) \<and> slab_fits st (slab_at st i)) \<and>
     (\<forall>c \<in> used_caches st. cache_geometry (cache_at st c) \<and> cache_totals st c) \<and>
     sl_cache_count st = word_of_nat (card (used_caches st)) \<and>
     sl_slab_count st = word_of_nat (card (used_slabs st)) \<and>
     pmm_inv (sl_pmm st) \<and> holds_runs (owned_set (sl_pmm st)) (slab_runs st)"

definition list_inv :: "slab_state \<Rightarrow> bool" where
  "list_inv st \<longleftrightarrow> (\<exists>ls. links_ok st ls \<and> (\<forall>c s. list_of st c s \<longrightarrow> set (ls c s) = members st c s))"

definition slab_inv :: "slab_state \<Rightarrow> bool" where
  "slab_inv st \<longleftrightarrow> body_inv st \<and> list_inv st"

lemma finite_slab_sets [simp]:
  "finite (owned_slabs st c)" "finite (members st c s)" "finite (used_slabs st)" "finite (used_caches st)"
  by (simp_all add: owned_slabs_def members_def used_slabs_def used_caches_def)

lemma list_inv_lengths:
  "list_inv st \<Longrightarrow> length (sl_slabs st) = KMEM_SLAB_MAX" "list_inv st \<Longrightarrow> length (sl_caches st) = KMEM_CACHE_MAX"
  by (auto simp: list_inv_def links_ok_def)

section \<open>The invariant passes validation\<close>

lemma sum_filter_nth:
  fixes f :: "'a \<Rightarrow> nat"
  shows "sum_list (map f (filter P xs)) = (\<Sum>j | j < length xs \<and> P (xs ! j). f (xs ! j))"
proof (induction xs rule: rev_induct)
  case (snoc x xs)
  have eq: "{j. j < length (xs @ [x]) \<and> P ((xs @ [x]) ! j)} =
      {j. j < length xs \<and> P (xs ! j)} \<union> (if P x then {length xs} else {})"
    by (auto simp: nth_append less_Suc_eq)
  have "(\<Sum>j | j < length xs \<and> P (xs ! j). f ((xs @ [x]) ! j)) = (\<Sum>j | j < length xs \<and> P (xs ! j). f (xs ! j))"
    by (rule sum.cong) (auto simp: nth_append)
  then show ?case unfolding eq by (subst sum.union_disjoint) (auto simp: snoc)
qed simp

lemma length_filter_nth: "length (filter P xs) = card {j. j < length xs \<and> P (xs ! j)}"
  by (rule length_filter_conv_card)

lemma tally_loop_eq:
  assumes "\<forall>s \<in> set ss. sb_used s \<and> sb_owner s = Some c \<longrightarrow> sb_state s \<in> levels"
  shows "tally_loop c ss t = Some \<lparr>
     ty_active = ty_active t + word_of_nat (sum_list (map sb_active_objects (filter (\<lambda>s. sb_used s \<and> sb_owner s = Some c) ss))),
     ty_capacity = ty_capacity t + word_of_nat (sum_list (map sb_object_count (filter (\<lambda>s. sb_used s \<and> sb_owner s = Some c) ss))),
     ty_slabs = ty_slabs t + word_of_nat (length (filter (\<lambda>s. sb_used s \<and> sb_owner s = Some c) ss)),
     ty_full = ty_full t + word_of_nat (length (filter (\<lambda>s. (sb_used s \<and> sb_owner s = Some c) \<and> sb_state s = KMEM_SLAB_STATE_FULL) ss)),
     ty_partial = ty_partial t + word_of_nat (length (filter (\<lambda>s. (sb_used s \<and> sb_owner s = Some c) \<and> sb_state s = KMEM_SLAB_STATE_PARTIAL) ss)),
     ty_empty = ty_empty t + word_of_nat (length (filter (\<lambda>s. (sb_used s \<and> sb_owner s = Some c) \<and> sb_state s = KMEM_SLAB_STATE_EMPTY) ss))\<rparr>"
  using assms
proof (induction ss arbitrary: t)
  case (Cons s ss)
  show ?case
  proof (cases "sb_used s \<and> sb_owner s = Some c")
    case True
    then have "sb_state s \<in> levels" using Cons.prems by simp
    then consider "sb_state s = KMEM_SLAB_STATE_FULL" | "sb_state s = KMEM_SLAB_STATE_PARTIAL" | "sb_state s = KMEM_SLAB_STATE_EMPTY"
      by (auto simp: levels_def)
    then show ?thesis
      by cases (use True Cons in \<open>simp_all add: slab_states\<close>)
  next
    case False
    then show ?thesis using Cons by auto
  qed
qed simp

lemma validate_list_chain:
  assumes "\<And>j. j \<in> set xs \<Longrightarrow> j \<in> members st c s"
  shows "chain (nexts st) (prevs st) h p xs \<Longrightarrow> n + length xs \<le> KMEM_SLAB_MAX \<Longrightarrow>
    slab_validate_list st c h p s n expected \<longleftrightarrow> word_of_nat (n + length xs) = expected"
  using assms
proof (induction xs arbitrary: h p n)
  case Nil
  then show ?case by (simp add: slab_validate_list.simps [of st c None])
next
  case (Cons x xs)
  have x: "x < KMEM_SLAB_MAX" "sb_used (slab_at st x)" "sb_owner (slab_at st x) = Some c" "sb_state (slab_at st x) = s"
    using Cons.prems(3) [of x] by (auto simp: members_def owned_slabs_def)
  have "slab_validate_list st c (nexts st x) (Some x) s (Suc n) expected \<longleftrightarrow> word_of_nat (Suc n + length xs) = expected"
    using Cons.prems by (intro Cons.IH) auto
  then show ?case
    using x Cons.prems by (simp add: slab_validate_list.simps [of st c "Some x"] Let_def nexts_def prevs_def)
qed

lemma validate_list_ok:
  assumes "list_inv st" and "list_of st c s"
  shows "slab_validate_list st c (head_of s (cache_at st c)) None s 0 (word_of_nat (card (members st c s)))"
proof -
  obtain ls where ls: "links_ok st ls" "set (ls c s) = members st c s" using assms by (auto simp: list_inv_def)
  note d = links_okD [OF ls(1)]
  have n: "length (ls c s) = card (members st c s)" using distinct_card [OF d(4) [OF assms(2)]] ls(2) by simp
  have "members st c s \<subseteq> {0..<KMEM_SLAB_MAX}" by (auto simp: members_def owned_slabs_def)
  from card_mono [OF _ this] have "length (ls c s) \<le> KMEM_SLAB_MAX" using n by simp
  then show ?thesis
    using validate_list_chain [of "ls c s" st c s, OF _ d(3) [OF assms(2)], of 0 "word_of_nat (card (members st c s))"]
      ls(2) n by simp
qed

lemma slab_state_level:
  assumes "body_inv st" and "j \<in> owned_slabs st c"
  shows "sb_state (slab_at st j) \<in> levels"
proof -
  have "j \<in> used_slabs st" using assms(2) by (simp add: owned_slabs_def used_slabs_def)
  then have "slab_ok (slab_at st j)" using assms(1) by (auto simp: body_inv_def)
  then show ?thesis by (auto simp: slab_ok_def slab_level_def levels_def)
qed

lemma inv_tally:
  assumes b: "body_inv st" and l: "list_inv st" and c: "c \<in> used_caches st"
  shows "\<exists>t. tally_loop c (sl_slabs st) slab_tally_zero = Some t \<and> validate_cache st c t \<and>
    ty_slabs t = word_of_nat (card (owned_slabs st c))"
proof -
  let ?P = "\<lambda>s. sb_used s \<and> sb_owner s = Some c"
  have len: "length (sl_slabs st) = KMEM_SLAB_MAX" by (rule list_inv_lengths(1) [OF l])
  have own: "{j. j < length (sl_slabs st) \<and> ?P (sl_slabs st ! j)} = owned_slabs st c"
    by (simp add: owned_slabs_def len)
  have mem: "{j. j < length (sl_slabs st) \<and> ?P (sl_slabs st ! j) \<and> sb_state (sl_slabs st ! j) = s} = members st c s" for s
    by (auto simp: members_def owned_slabs_def len)
  have lev: "\<forall>s \<in> set (sl_slabs st). ?P s \<longrightarrow> sb_state s \<in> levels"
    using slab_state_level [OF b, of _ c] by (auto simp: in_set_conv_nth owned_slabs_def len)
  have tot: "cache_totals st c" using b c by (auto simp: body_inv_def)
  have lo: "list_of st c s" if "s \<in> levels" for s using c that by (auto simp: used_caches_def)
  have h: "head_of KMEM_SLAB_STATE_FULL e = sc_full_head e" "head_of KMEM_SLAB_STATE_PARTIAL e = sc_partial_head e"
    "head_of KMEM_SLAB_STATE_EMPTY e = sc_empty_head e" for e by (simp_all add: head_of_def slab_states)
  have "KMEM_SLAB_STATE_FULL \<in> levels" "KMEM_SLAB_STATE_PARTIAL \<in> levels" "KMEM_SLAB_STATE_EMPTY \<in> levels"
    by (simp_all add: levels_def)
  note v = this [THEN lo, THEN validate_list_ok [OF l], unfolded h]
  show ?thesis
    unfolding tally_loop_eq [OF lev] sum_filter_nth length_filter_nth own mem
    using v tot by (auto simp: validate_cache_def cache_totals_def slab_tally_zero_def)
qed

lemma validate_caches_ok:
  assumes b: "body_inv st" and l: "list_inv st" and "set cs \<subseteq> {0..<KMEM_CACHE_MAX}"
  shows "validate_caches st cs a n = Some (a + word_of_nat (length (filter (\<lambda>c. sc_used (cache_at st c)) cs)),
     n + word_of_nat (sum_list (map (\<lambda>c. card (owned_slabs st c)) (filter (\<lambda>c. sc_used (cache_at st c)) cs))))"
  using assms(3)
proof (induction cs arbitrary: a n)
  case (Cons c cs)
  show ?case
  proof (cases "sc_used (cache_at st c)")
    case True
    then have "c \<in> used_caches st" using Cons.prems by (simp add: used_caches_def)
    from inv_tally [OF b l this] show ?thesis using True Cons by auto
  qed (use Cons in simp)
qed simp

lemma used_slabs_split:
  assumes "body_inv st"
  shows "card (used_slabs st) = (\<Sum>c \<in> used_caches st. card (owned_slabs st c))"
proof -
  have "used_slabs st = (\<Union>c \<in> used_caches st. owned_slabs st c)"
    using assms by (force simp: body_inv_def slab_fits_def used_slabs_def owned_slabs_def)
  moreover have "card (\<Union>c \<in> used_caches st. owned_slabs st c) = (\<Sum>c \<in> used_caches st. card (owned_slabs st c))"
    by (rule card_UN_disjoint) (auto simp: owned_slabs_def)
  ultimately show ?thesis by simp
qed

lemma slab_inv_validates:
  assumes "slab_inv st"
  shows "kmem_cache_validate st = OK"
proof -
  have b: "body_inv st" and l: "list_inv st" using assms by (simp_all add: slab_inv_def)
  have len: "length (sl_slabs st) = KMEM_SLAB_MAX" by (rule list_inv_lengths(1) [OF l])
  have "\<not> list_ex (\<lambda>s. sb_used s \<and> \<not> slab_validate_slab s) (sl_slabs st)"
    using b slab_ok_validates by (auto simp: list_ex_iff in_set_conv_nth len body_inv_def used_slabs_def)
  moreover have uc: "set (filter (\<lambda>c. sc_used (cache_at st c)) [0..<KMEM_CACHE_MAX]) = used_caches st"
    by (auto simp: used_caches_def)
  have "length (filter (\<lambda>c. sc_used (cache_at st c)) [0..<KMEM_CACHE_MAX]) = card (used_caches st)"
    using distinct_card [of "filter (\<lambda>c. sc_used (cache_at st c)) [0..<KMEM_CACHE_MAX]"] uc by simp
  moreover have "sum_list (map (\<lambda>c. card (owned_slabs st c)) (filter (\<lambda>c. sc_used (cache_at st c)) [0..<KMEM_CACHE_MAX]))
      = card (used_slabs st)"
    unfolding used_slabs_split [OF b] uc [symmetric] by (rule sum_list_distinct_conv_sum_set) simp
  ultimately show ?thesis
    using b validate_caches_ok [OF b l, of "[0..<KMEM_CACHE_MAX]" 0 0]
    by (simp add: kmem_cache_validate_def body_inv_def)
qed

section \<open>Lists while one slab is off them\<close>

definition lists_but :: "nat \<Rightarrow> slab_state \<Rightarrow> bool" where
  "lists_but i st \<longleftrightarrow> (\<exists>ls. links_ok st ls \<and> (\<forall>c s. list_of st c s \<longrightarrow> set (ls c s) = members st c s - {i}))"

lemma lists_but_lengths:
  "lists_but i st \<Longrightarrow> length (sl_slabs st) = KMEM_SLAB_MAX" "lists_but i st \<Longrightarrow> length (sl_caches st) = KMEM_CACHE_MAX"
  by (auto simp: lists_but_def links_ok_def)

lemma core_sets:
  assumes "core st' = core st" and "length (sl_slabs st) = KMEM_SLAB_MAX" "length (sl_caches st) = KMEM_CACHE_MAX"
  shows "owned_slabs st' c = owned_slabs st c" "members st' c s = members st c s" "used_slabs st' = used_slabs st"
    "used_caches st' = used_caches st" "list_of st' c s \<longleftrightarrow> list_of st c s" "slab_runs st' = slab_runs st"
proof -
  have s: "sb_used (slab_at st' j) = sb_used (slab_at st j) \<and> sb_owner (slab_at st' j) = sb_owner (slab_at st j) \<and>
      sb_state (slab_at st' j) = sb_state (slab_at st j) \<and> sb_memory (slab_at st' j) = sb_memory (slab_at st j) \<and>
      sb_pages (slab_at st' j) = sb_pages (slab_at st j)" if "j < KMEM_SLAB_MAX" for j
    using slab_core_fields [OF core_eqD(3) [OF assms(1)]] that assms(2) by simp
  have c: "sc_used (cache_at st' d) = sc_used (cache_at st d)" if "d < KMEM_CACHE_MAX" for d
    using cache_core_fields(10) [OF core_eqD(4) [OF assms(1)]] that assms(3) by simp
  show own: "owned_slabs st' c = owned_slabs st c" using s by (auto simp: owned_slabs_def)
  show "members st' c s = members st c s" using s unfolding members_def own by (auto simp: owned_slabs_def)
  show us: "used_slabs st' = used_slabs st" using s by (auto simp: used_slabs_def)
  show "used_caches st' = used_caches st" using c by (auto simp: used_caches_def)
  show "list_of st' c s \<longleftrightarrow> list_of st c s" using c by auto
  show "slab_runs st' = slab_runs st" using s unfolding slab_runs_def us by (auto simp: used_slabs_def)
qed

lemma lists_remove:
  assumes "list_inv st" and "list_of st c s" and "i \<in> members st c s"
  shows "lists_but i (slab_list_remove c i st)"
proof -
  obtain ls where ls: "links_ok st ls" "\<And>c s. list_of st c s \<Longrightarrow> set (ls c s) = members st c s"
    using assms(1) by (auto simp: list_inv_def)
  note d = links_okD [OF ls(1)]
  note cs = core_sets [OF core_remove d(1,2)]
  have i: "i \<in> set (ls c s)" "sb_state (slab_at st i) = s" using ls(2) [OF assms(2)] assms(3) by (auto simp: members_def)
  have "set (ls_put ls c s (remove1 i (ls c s)) c' s') = members st c' s' - {i}" if l: "list_of st c' s'" for c' s'
  proof (cases "c' = c \<and> s' = s")
    case True
    then show ?thesis using ls(2) [OF assms(2)] d(4) [OF assms(2)] by (simp add: ls_put_apply)
  next
    case False
    then have "i \<notin> set (ls c' s')" using d(6) [OF assms(2) l] i by auto
    then show ?thesis using ls(2) [OF l] False by (auto simp: ls_put_apply)
  qed
  then show ?thesis
    unfolding lists_but_def using links_remove [OF ls(1) assms(2) i] cs by metis
qed

lemma lists_put_slab:
  assumes "lists_but i st" and i: "i < KMEM_SLAB_MAX"
  shows "lists_but i (put_slab i f st)"
proof -
  obtain ls where ls: "links_ok st ls" "\<And>c s. list_of st c s \<Longrightarrow> set (ls c s) = members st c s - {i}"
    using assms(1) by (auto simp: lists_but_def)
  note d = links_okD [OF ls(1)]
  have off: "i \<notin> set (ls c s)" if "list_of st c s" for c s using ls(2) [OF that] by simp
  have il: "i < length (sl_slabs st)" using d(1) i by simp
  have "links_ok (put_slab i f st) ls"
  proof (rule links_okI)
    fix c s assume "list_of (put_slab i f st) c s"
    then have l: "list_of st c s" by simp
    have eq: "nexts (put_slab i f st) j = nexts st j \<and> prevs (put_slab i f st) j = prevs st j" if "j \<in> set (ls c s)" for j
      using off [OF l] that il by (auto simp: nexts_put)
    show "chain (nexts (put_slab i f st)) (prevs (put_slab i f st)) (head_of s (cache_at (put_slab i f st) c)) None (ls c s)"
      using d(3) [OF l] chain_cong [OF eq] by simp
    show "distinct (ls c s)" by (rule d(4) [OF l])
    show "j < KMEM_SLAB_MAX" if "j \<in> set (ls c s)" for j by (rule d(5) [OF l that])
  next
    fix c s c' s' j
    assume "list_of (put_slab i f st) c s" "list_of (put_slab i f st) c' s'" "j \<in> set (ls c s)" "j \<in> set (ls c' s')"
    then show "c = c' \<and> s = s'" using d(6) [of c s c' s'] by auto
  qed (use d in simp_all)
  moreover have "members (put_slab i f st) c s - {i} = members st c s - {i}" for c s
    by (auto simp: members_def owned_slabs_def)
  ultimately show ?thesis unfolding lists_but_def using ls(2) by auto
qed

lemma put_cache_lists:
  assumes "links_ok st ls" and "sc_used (g (cache_at st c)) = sc_used (cache_at st c)"
    and "\<And>s. head_of s (g (cache_at st c)) = head_of s (cache_at st c)"
  shows "links_ok (put_cache c g st) ls" and "list_of (put_cache c g st) d s \<longleftrightarrow> list_of st d s"
    and "members (put_cache c g st) d s = members st d s"
proof -
  have at: "sc_used (cache_at (put_cache c g st) d) = sc_used (cache_at st d) \<and>
      head_of s (cache_at (put_cache c g st) d) = head_of s (cache_at st d)" if "d < KMEM_CACHE_MAX" for d s
    using that assms links_okD(2) [OF assms(1)] by (cases "d = c") simp_all
  show "links_ok (put_cache c g st) ls"
    using at by (intro links_ok_cong [OF assms(1)]) (simp_all add: nexts_put)
  show "list_of (put_cache c g st) d s \<longleftrightarrow> list_of st d s" using at [of d s] by auto
  show "members (put_cache c g st) d s = members st d s" by (simp add: members_def owned_slabs_def)
qed

lemma lists_put_cache:
  assumes "sc_used (g (cache_at st c)) = sc_used (cache_at st c)"
    and "\<And>s. head_of s (g (cache_at st c)) = head_of s (cache_at st c)"
  shows "lists_but i st \<Longrightarrow> lists_but i (put_cache c g st)" and "list_inv st \<Longrightarrow> list_inv (put_cache c g st)"
  unfolding lists_but_def list_inv_def
  using put_cache_lists [where g = g and c = c and st = st, OF _ assms] by metis+

lemma lists_add:
  assumes "lists_but i st" and "list_of st c s" and "i \<in> owned_slabs st c"
  shows "list_inv (slab_list_add c i s st)"
proof -
  obtain ls where ls: "links_ok st ls" "\<And>c s. list_of st c s \<Longrightarrow> set (ls c s) = members st c s - {i}"
    using assms(1) by (auto simp: lists_but_def)
  note d = links_okD [OF ls(1)]
  have i: "i < KMEM_SLAB_MAX" using assms(3) by (simp add: owned_slabs_def)
  let ?st = "put_slab i (\<lambda>x. x\<lparr>sb_state := s\<rparr>) st"
  have cs: "members (slab_list_add c i s st) c' s' = members ?st c' s'"
      "list_of (slab_list_add c i s st) c' s' \<longleftrightarrow> list_of ?st c' s'" for c' s'
    using core_sets(2,5) [OF core_add [of c i s st]] d(1,2) by simp_all
  have mem: "members ?st c' s' = (members st c' s' - {i}) \<union> (if c' = c \<and> s' = s then {i} else {})" for c' s'
    using assms(3) i d(1) by (auto simp: members_def owned_slabs_def nth_list_update split: if_splits)
  have "links_ok (slab_list_add c i s st) (ls_put ls c s (i # ls c s))"
    using ls(2) by (intro links_add [OF ls(1) assms(2) i]) simp
  moreover have "set (ls_put ls c s (i # ls c s) c' s') = members ?st c' s'" if l: "list_of st c' s'" for c' s'
    using ls(2) [OF l] ls(2) [OF assms(2)] by (auto simp: mem ls_put_apply)
  ultimately show ?thesis unfolding list_inv_def using cs by auto
qed

lemma lists_but_unused:
  assumes "\<not> sb_used (slab_at st i)"
  shows "lists_but i st \<longleftrightarrow> list_inv st"
proof -
  have "i \<notin> members st c s" for c s using assms by (simp add: members_def owned_slabs_def)
  then show ?thesis by (auto simp: lists_but_def list_inv_def)
qed

text \<open>A body change that keeps list, level, owner and use of a slab.\<close>

lemma lists_put_same:
  assumes "list_inv st" and "i < KMEM_SLAB_MAX"
    and "sb_next (f (slab_at st i)) = sb_next (slab_at st i)" "sb_previous (f (slab_at st i)) = sb_previous (slab_at st i)"
      "sb_state (f (slab_at st i)) = sb_state (slab_at st i)" "sb_owner (f (slab_at st i)) = sb_owner (slab_at st i)"
      "sb_used (f (slab_at st i)) = sb_used (slab_at st i)"
  shows "list_inv (put_slab i f st)"
proof -
  obtain ls where ls: "links_ok st ls" "\<And>c s. list_of st c s \<Longrightarrow> set (ls c s) = members st c s"
    using assms(1) by (auto simp: list_inv_def)
  have il: "i < length (sl_slabs st)" using links_okD(1) [OF ls(1)] assms(2) by simp
  have "nexts (put_slab i f st) = nexts st" "prevs (put_slab i f st) = prevs st"
    using il assms(3,4) by (simp_all add: nexts_put) (simp_all add: nexts_def prevs_def fun_eq_iff)
  then have "links_ok (put_slab i f st) ls" by (intro links_ok_cong [OF ls(1)]) simp_all
  moreover have "members (put_slab i f st) c s = members st c s" for c s
    using il assms(5-7) by (auto simp: members_def owned_slabs_def nth_list_update)
  ultimately show ?thesis unfolding list_inv_def using ls(2) by auto
qed

section \<open>Bodies\<close>

lemma slab_ok_core: "slab_ok (slab_core s) = slab_ok s"
  by (simp add: slab_ok_def slab_body_def slab_core_def taken_def slab_bit_is_set_def)

lemma body_inv_core:
  assumes "core st' = core st" and "length (sl_slabs st) = KMEM_SLAB_MAX" "length (sl_caches st) = KMEM_CACHE_MAX"
    and "body_inv st"
  shows "body_inv st'"
proof -
  note cs = core_sets [OF assms(1-3)]
  note e = core_eqD [OF assms(1)]
  have s: "slab_core (slab_at st' j) = slab_core (slab_at st j)" if "j < KMEM_SLAB_MAX" for j using e(3) that assms(2) by simp
  have c: "cache_core (cache_at st' d) = cache_core (cache_at st d)" if "d < KMEM_CACHE_MAX" for d using e(4) that assms(3) by simp
  have sums: "(\<Sum>j \<in> owned_slabs st d. sb_active_objects (slab_at st' j)) = (\<Sum>j \<in> owned_slabs st d. sb_active_objects (slab_at st j))"
      "(\<Sum>j \<in> owned_slabs st d. sb_object_count (slab_at st' j)) = (\<Sum>j \<in> owned_slabs st d. sb_object_count (slab_at st j))" for d
    using s [THEN slab_core_fields(4)] s [THEN slab_core_fields(5)] by (auto simp: owned_slabs_def intro: sum.cong)
  have ok: "slab_ok (slab_at st' j) \<and> slab_fits st' (slab_at st' j)" if "j \<in> used_slabs st" for j
  proof -
    have j: "j < KMEM_SLAB_MAX" "slab_ok (slab_at st j)" "slab_fits st (slab_at st j)"
      using that assms(4) by (auto simp: used_slabs_def body_inv_def)
    have "slab_ok (slab_at st' j)" using j(2) slab_ok_core s [OF j(1)] by metis
    moreover have "slab_fits st' (slab_at st' j)"
      using j(3) slab_core_fields(1,3,4) [OF s [OF j(1)]] cache_core_fields(5,6) [OF c]
      unfolding slab_fits_def cs(4) by (auto simp: used_caches_def)
    ultimately show ?thesis ..
  qed
  have ge: "cache_geometry (cache_at st' d) \<and> cache_totals st' d" if "d \<in> used_caches st" for d
  proof -
    have d: "d < KMEM_CACHE_MAX" "cache_geometry (cache_at st d)" "cache_totals st d"
      using that assms(4) by (auto simp: used_caches_def body_inv_def)
    show ?thesis
      using d(2,3) unfolding cache_geometry_def cache_totals_def cs(1) sums cache_core_fields [OF c [OF d(1)]] by simp
  qed
  show ?thesis using assms(4) ok ge unfolding body_inv_def cs e(5-8) by simp
qed

text \<open>Replacing the body of one slab and moving its cache's counter with it.\<close>

lemma body_update:
  assumes b: "body_inv st" and len: "length (sl_slabs st) = KMEM_SLAB_MAX" "length (sl_caches st) = KMEM_CACHE_MAX"
    and i: "i \<in> owned_slabs st c" and c: "c \<in> used_caches st" and ok: "slab_ok s'"
    and same: "sb_used s' = sb_used (slab_at st i)" "sb_owner s' = sb_owner (slab_at st i)"
      "sb_memory s' = sb_memory (slab_at st i)" "sb_pages s' = sb_pages (slab_at st i)"
      "sb_object_count s' = sb_object_count (slab_at st i)"
    and a: "word_of_nat (sb_active_objects s') = word_of_nat (sb_active_objects (slab_at st i)) + (a :: u32)"
  shows "body_inv (put_cache c (\<lambda>e. e\<lparr>sc_active_objects := sc_active_objects e + a\<rparr>) (put_slab i (\<lambda>_. s') st))"
    (is "body_inv ?st")
proof -
  have il: "i < KMEM_SLAB_MAX" "i \<in> used_slabs st" using i by (auto simp: owned_slabs_def used_slabs_def)
  have cl: "c < KMEM_CACHE_MAX" using c by (simp add: used_caches_def)
  have sl: "slab_at ?st j = (if j = i then s' else slab_at st j)" for j using il len by (simp add: nth_list_update)
  have ca: "cache_at ?st d = (if d = c then (cache_at st c)\<lparr>sc_active_objects := sc_active_objects (cache_at st c) + a\<rparr>
      else cache_at st d)" for d using cl len by (simp add: nth_list_update)
  have own: "owned_slabs ?st d = owned_slabs st d" for d
    unfolding owned_slabs_def sl using same by auto
  have us: "used_slabs ?st = used_slabs st" unfolding used_slabs_def sl using same by auto
  have uc: "used_caches ?st = used_caches st" unfolding used_caches_def ca by auto
  have runs: "slab_runs ?st = slab_runs st" unfolding slab_runs_def us sl using same by auto
  have fits: "slab_ok (slab_at ?st j) \<and> slab_fits ?st (slab_at ?st j)" if "j \<in> used_slabs st" for j
  proof -
    have "slab_fits st (slab_at st j)" "slab_ok (slab_at st j)" using b that by (auto simp: body_inv_def)
    then show ?thesis unfolding slab_fits_def uc ca sl using ok same by auto
  qed
  have tot: "cache_geometry (cache_at ?st d) \<and> cache_totals ?st d" if "d \<in> used_caches st" for d
  proof -
    have d: "cache_geometry (cache_at st d)" "cache_totals st d" using b that by (auto simp: body_inv_def)
    have g: "cache_geometry (cache_at ?st d)" using d(1) unfolding ca by (cases "d = c") (simp_all add: cache_geometry_def)
    have cnt: "(\<Sum>j \<in> owned_slabs st d. sb_object_count (slab_at ?st j)) = (\<Sum>j \<in> owned_slabs st d. sb_object_count (slab_at st j))"
      by (rule sum.cong) (unfold sl, auto simp: same)
    have "sc_active_objects (cache_at ?st d) = word_of_nat (\<Sum>j \<in> owned_slabs st d. sb_active_objects (slab_at ?st j))"
    proof (cases "d = c")
      case True
      have "(\<Sum>j \<in> owned_slabs st c - {i}. sb_active_objects (slab_at ?st j)) = (\<Sum>j \<in> owned_slabs st c - {i}. sb_active_objects (slab_at st j))"
        by (rule sum.cong) (unfold sl, auto)
      then show ?thesis
        using True d(2) a i
          sum.remove [OF finite_slab_sets(1) i, of "\<lambda>j. sb_active_objects (slab_at ?st j)"]
          sum.remove [OF finite_slab_sets(1) i, of "\<lambda>j. sb_active_objects (slab_at st j)"]
        by (simp only: cache_totals_def sl ca if_True of_nat_add) simp
    next
      case False
      then have "i \<notin> owned_slabs st d" using i by (simp add: owned_slabs_def)
      then have "(\<Sum>j \<in> owned_slabs st d. sb_active_objects (slab_at ?st j)) = (\<Sum>j \<in> owned_slabs st d. sb_active_objects (slab_at st j))"
        by (intro sum.cong) (unfold sl, auto)
      then show ?thesis using False d(2) by (simp only: cache_totals_def ca if_False)
    qed
    then show ?thesis using g d(2) cnt unfolding cache_totals_def own ca by (cases "d = c") simp_all
  qed
  show ?thesis
    using b fits tot unfolding body_inv_def us uc runs by simp
qed

section \<open>Taking and giving objects\<close>

lemma head_in_members:
  assumes "list_inv st" and "list_of st c s" and "head_of s (cache_at st c) = Some i"
  shows "i \<in> members st c s"
proof -
  obtain ls where ls: "links_ok st ls" "set (ls c s) = members st c s" using assms by (auto simp: list_inv_def)
  then show ?thesis using chain_head [OF links_okD(3) [OF ls(1) assms(2)]] assms(3) by (cases "ls c s") auto
qed

lemma head_none_members:
  assumes "list_inv st" and "list_of st c s" and "head_of s (cache_at st c) = None"
  shows "members st c s = {}"
proof -
  obtain ls where ls: "links_ok st ls" "set (ls c s) = members st c s" using assms by (auto simp: list_inv_def)
  then show ?thesis using chain_head [OF links_okD(3) [OF ls(1) assms(2)]] assms(3) by (cases "ls c s") auto
qed

lemma free_head_in_range:
  assumes "slab_ok s" and "sb_state s \<noteq> KMEM_SLAB_STATE_FULL"
  shows "sb_free_head s < sb_object_count s"
proof -
  obtain fl where fl: "path KMEM_SLAB_MAX_OBJECTS (sb_free_next s) (sb_free_head s) fl" "set fl = {0..<sb_object_count s} - taken s"
    using assms(1) by (auto simp: slab_ok_def slab_body_def)
  have "card (taken s) \<noteq> sb_object_count s"
    using assms by (auto simp: slab_ok_def slab_level_def slab_body_def slab_limits split: if_splits)
  then have "taken s \<noteq> {0..<sb_object_count s}" by force
  then have "fl \<noteq> []" using fl(2) taken_subset [of s] by auto
  then have "sb_free_head s \<in> set fl" using fl(1) by (cases fl) auto
  then show ?thesis using fl(2) by auto
qed

definition object_at :: "slab_state \<Rightarrow> nat \<Rightarrow> nat \<Rightarrow> nat \<Rightarrow> u32" where
  "object_at st c i k = sb_memory (slab_at st i) + word_of_nat k * sc_object_stride (cache_at st c)"

text \<open>
  \<open>take_slab\<close> and \<open>give_slab\<close> are the slab after the change, with its new level.
\<close>

definition take_slab :: "kmem_slab \<Rightarrow> kmem_slab" where
  "take_slab s =
     (let k = sb_free_head s;
          t = (slab_set_bit k True (s\<lparr>sb_free_head := sb_free_next s ! k\<rparr>))\<lparr>sb_active_objects := sb_active_objects s + 1\<rparr>
      in t\<lparr>sb_state := slab_level (sb_active_objects t) (sb_object_count t)\<rparr>)"

definition give_slab :: "nat \<Rightarrow> kmem_slab \<Rightarrow> kmem_slab" where
  "give_slab k s =
     (let t = (slab_set_bit k False s)\<lparr>sb_free_next := (sb_free_next s)[k := sb_free_head s], sb_free_head := k,
            sb_active_objects := sb_active_objects s - 1\<rparr>
      in t\<lparr>sb_state := slab_level (sb_active_objects t) (sb_object_count t)\<rparr>)"

lemma slab_body_state [simp]: "slab_body (s\<lparr>sb_state := x\<rparr>) = slab_body s" "taken (s\<lparr>sb_state := x\<rparr>) = taken s"
  by (simp_all add: slab_body_def taken_def slab_bit_is_set_def)

lemma take_slab_ok:
  assumes "slab_ok s" and "sb_state s \<noteq> KMEM_SLAB_STATE_FULL"
  shows "slab_ok (take_slab s)" and "taken (take_slab s) = insert (sb_free_head s) (taken s)"
    and "sb_free_head s \<notin> taken s" and "sb_active_objects (take_slab s) = sb_active_objects s + 1"
    and "sb_used (take_slab s) = sb_used s" "sb_owner (take_slab s) = sb_owner s" "sb_memory (take_slab s) = sb_memory s"
      "sb_pages (take_slab s) = sb_pages s" "sb_object_count (take_slab s) = sb_object_count s"
  using take_body [OF _ free_head_in_range [OF assms]] assms(1)
  by (simp_all add: slab_ok_def take_slab_def Let_def slab_set_bit_def)

lemma give_slab_ok:
  assumes "slab_ok s" and "k \<in> taken s"
  shows "slab_ok (give_slab k s)" and "taken (give_slab k s) = taken s - {k}"
    and "sb_active_objects (give_slab k s) = sb_active_objects s - 1" and "0 < sb_active_objects s"
    and "sb_used (give_slab k s) = sb_used s" "sb_owner (give_slab k s) = sb_owner s" "sb_memory (give_slab k s) = sb_memory s"
      "sb_pages (give_slab k s) = sb_pages s" "sb_object_count (give_slab k s) = sb_object_count s"
proof -
  have b: "slab_body s" using assms(1) by (simp add: slab_ok_def)
  note g = give_body [OF b assms(2)]
  show "slab_ok (give_slab k s)" "taken (give_slab k s) = taken s - {k}"
    using g by (simp_all add: slab_ok_def give_slab_def Let_def slab_set_bit_def)
  show "0 < sb_active_objects s" using b assms(2) by (auto simp: slab_body_def card_gt_0_iff)
qed (simp_all add: give_slab_def Let_def slab_set_bit_def)

lemma slab_inv_ext:
  assumes "sl_slabs st' = sl_slabs st" "sl_caches st' = sl_caches st" "sl_cache_count st' = sl_cache_count st"
    "sl_slab_count st' = sl_slab_count st" "sl_initialized st' = sl_initialized st" "sl_pmm st' = sl_pmm st"
  shows "slab_inv st' \<longleftrightarrow> slab_inv st"
proof -
  have n: "nexts st' = nexts st" "prevs st' = prevs st" by (simp_all add: nexts_def prevs_def fun_eq_iff assms)
  have s: "owned_slabs st' = owned_slabs st" "members st' = members st" "used_slabs st' = used_slabs st"
    "used_caches st' = used_caches st" "slab_runs st' = slab_runs st"
    by (simp_all add: fun_eq_iff owned_slabs_def members_def used_slabs_def used_caches_def slab_runs_def assms)
  have t: "slab_fits st' = slab_fits st" "cache_totals st' = cache_totals st"
    by (simp_all add: fun_eq_iff slab_fits_def cache_totals_def s assms)
  have "links_ok st' ls = links_ok st ls" for ls by (simp add: links_ok_def n assms)
  then have "list_inv st' = list_inv st" by (simp add: list_inv_def s assms)
  moreover have "body_inv st' = body_inv st" by (simp add: body_inv_def s t assms)
  ultimately show ?thesis by (simp add: slab_inv_def)
qed

lemma slab_core_state: "(slab_core t)\<lparr>sb_state := s\<rparr> = slab_core (t\<lparr>sb_state := s\<rparr>)"
  by (cases t) (simp add: slab_core_def)

lemma core_state_put:
  "i < length (sl_slabs st) \<Longrightarrow> core (put_slab i (\<lambda>x. x\<lparr>sb_state := s\<rparr>) st) = put_slab i (\<lambda>x. x\<lparr>sb_state := s\<rparr>) (core st)"
  by (cases st) (simp add: core_def put_slab_def map_update slab_core_state)

lemma relevel:
  assumes l: "list_inv st" and "list_of st c s" and "list_of st c old" and i: "i \<in> members st c old"
  shows "list_inv (slab_list_add c i s (slab_list_remove c i st))"
    and "core (slab_list_add c i s (slab_list_remove c i st)) = put_slab i (\<lambda>x. x\<lparr>sb_state := s\<rparr>) (core st)"
proof -
  have len: "length (sl_slabs st) = KMEM_SLAB_MAX" "length (sl_caches st) = KMEM_CACHE_MAX"
    using list_inv_lengths [OF l] by simp_all
  have il: "i < KMEM_SLAB_MAX" using i by (simp add: members_def owned_slabs_def)
  note cs = core_sets [OF core_remove len]
  show "list_inv (slab_list_add c i s (slab_list_remove c i st))"
  proof (rule lists_add [OF lists_remove [OF l assms(3) i]])
    show "list_of (slab_list_remove c i st) c s" using core_sets(5) [OF core_remove [of c i st] len, of c s] assms(2) by blast
    show "i \<in> owned_slabs (slab_list_remove c i st) c" using cs(1) i by (simp add: members_def)
  qed
  let ?r = "slab_list_remove c i st"
  have "core (put_slab i (\<lambda>x. x\<lparr>sb_state := s\<rparr>) ?r) = put_slab i (\<lambda>x. x\<lparr>sb_state := s\<rparr>) (core ?r)"
    using il len core_eqD(1) [OF core_remove [of c i st]] by (intro core_state_put) simp
  then show "core (slab_list_add c i s ?r) = put_slab i (\<lambda>x. x\<lparr>sb_state := s\<rparr>) (core st)"
    by (simp add: core_add)
qed

lemma core_put_state:
  assumes "i < length (sl_slabs st)"
  shows "put_slab i (\<lambda>x. x\<lparr>sb_state := s\<rparr>) (core (put_cache c g (put_slab i (\<lambda>_. t) st))) =
    core (put_cache c g (put_slab i (\<lambda>_. t\<lparr>sb_state := s\<rparr>) st))"
  using assms by (cases st) (simp add: core_def put_slab_def put_cache_def map_update slab_core_state)

lemma put_slab_twice: "i < length (sl_slabs st) \<Longrightarrow> put_slab i f (put_slab i g st) = put_slab i (\<lambda>_. f (g (slab_at st i))) st"
  by (simp add: put_slab_def)

lemma put_slab_const: "put_slab i f st = put_slab i (\<lambda>_. f (slab_at st i)) st"
  by (simp add: put_slab_def)

lemma put_state_same: "sb_state (slab_at st i) = s \<Longrightarrow> put_slab i (\<lambda>x. x\<lparr>sb_state := s\<rparr>) st = st"
proof -
  assume "sb_state (slab_at st i) = s"
  then have "(slab_at st i)\<lparr>sb_state := s\<rparr> = slab_at st i" by (cases "slab_at st i") simp
  then show ?thesis by (cases st) (simp add: put_slab_def)
qed

abbreviation bump_active :: "u32 \<Rightarrow> kmem_cache \<Rightarrow> kmem_cache" where
  "bump_active a e \<equiv> e\<lparr>sc_active_objects := sc_active_objects e + a\<rparr>"


lemma core_state_at:
  assumes "core st' = put_slab i (\<lambda>x. x\<lparr>sb_state := s\<rparr>) (core st)" and "i < length (sl_slabs st)"
  shows "slab_core (slab_at st' i) = slab_core ((slab_at st i)\<lparr>sb_state := s\<rparr>)"
proof -
  have eq: "map slab_core (sl_slabs st') = (map slab_core (sl_slabs st))[i := (slab_core (slab_at st i))\<lparr>sb_state := s\<rparr>]"
    using arg_cong [OF assms(1), of sl_slabs] assms(2) by (simp add: core_def)
  from arg_cong [OF eq, of length] have "length (sl_slabs st') = length (sl_slabs st)" by simp
  with arg_cong [OF eq, of "\<lambda>xs. xs ! i"] assms(2) show ?thesis by (simp add: slab_core_def)
qed

lemma relist_taken_result:
  assumes l: "list_inv st" and c: "c < KMEM_CACHE_MAX" "sc_used (cache_at st c)"
    and n: "n = sb_active_objects (slab_at st i)" "0 < n" "n \<le> m" and m: "m = sb_object_count (slab_at st i)" "2 \<le> m"
    and i: "i \<in> members st c (slab_level (n - 1) m)"
  shows "list_inv (relist_taken c i st)"
    and "core (relist_taken c i st) = put_slab i (\<lambda>x. x\<lparr>sb_state := slab_level n m\<rparr>) (core st)"
proof -
  have il: "i < length (sl_slabs st)" using i list_inv_lengths(1) [OF l] by (simp add: members_def owned_slabs_def)
  have lv: "slab_level a b \<in> levels" for a b by (simp add: slab_level_def levels_def)
  have rl: "list_inv (slab_list_add c i s (slab_list_remove c i st)) \<and>
      core (slab_list_add c i s (slab_list_remove c i st)) = put_slab i (\<lambda>x. x\<lparr>sb_state := s\<rparr>) (core st)" if "s \<in> levels" for s
    using relevel [OF l _ _ i, of s] c that lv by blast
  have P: "KMEM_SLAB_STATE_PARTIAL \<in> levels" and F: "KMEM_SLAB_STATE_FULL \<in> levels" by (simp_all add: levels_def)
  have "list_inv (relist_taken c i st) \<and>
    core (relist_taken c i st) = put_slab i (\<lambda>x. x\<lparr>sb_state := slab_level n m\<rparr>) (core st)"
  proof (cases "n = 1")
    case True
    let ?st = "slab_list_add c i KMEM_SLAB_STATE_PARTIAL (slab_list_remove c i st)"
    have "slab_core (slab_at ?st i) = slab_core ((slab_at st i)\<lparr>sb_state := KMEM_SLAB_STATE_PARTIAL\<rparr>)"
      using rl [OF P] il by (intro core_state_at) simp_all
    from slab_core_fields(4,5) [OF this] have "sb_active_objects (slab_at ?st i) = 1" "sb_object_count (slab_at ?st i) = m"
      using n(1) m(1) True by simp_all
    then have "relist_taken c i st = ?st" using n(1) True m(2) by (simp add: relist_taken_def)
    moreover have "slab_level n m = KMEM_SLAB_STATE_PARTIAL" using True m(2) by (simp add: slab_level_def)
    ultimately show ?thesis using rl [OF P] by simp
  next
    case False
    show ?thesis
    proof (cases "n = m")
      case True
      have "relist_taken c i st = slab_list_add c i KMEM_SLAB_STATE_FULL (slab_list_remove c i st)"
        using False True n(1) m(1) by (simp add: relist_taken_def)
      moreover have "slab_level n m = KMEM_SLAB_STATE_FULL" using True n(2) by (simp add: slab_level_def)
      ultimately show ?thesis using rl [OF F] by simp
    next
      case nm: False
      have "relist_taken c i st = st" using False nm n(1) m(1) by (simp add: relist_taken_def)
      moreover have "slab_level n m = slab_level (n - 1) m" using False nm n(2,3) by (auto simp: slab_level_def)
      moreover have "sb_state (slab_at (core st) i) = slab_level (n - 1) m"
        using i il by (simp add: core_def slab_core_def members_def)
      ultimately show ?thesis using l by (simp add: put_state_same)
    qed
  qed
  then show "list_inv (relist_taken c i st)"
    "core (relist_taken c i st) = put_slab i (\<lambda>x. x\<lparr>sb_state := slab_level n m\<rparr>) (core st)" by simp_all
qed

text \<open>A slab of a cache, with what the invariant says about it.\<close>

lemma owned_slab:
  assumes "slab_inv st" and "i \<in> owned_slabs st c"
  shows "slab_ok (slab_at st i)" "c \<in> used_caches st" "c < KMEM_CACHE_MAX" "sc_used (cache_at st c)"
    "i < length (sl_slabs st)" "c < length (sl_caches st)" "cache_geometry (cache_at st c)"
    "sb_object_count (slab_at st i) = unat (sc_objects_per_slab (cache_at st c))"
    "sb_pages (slab_at st i) = sc_slab_pages (cache_at st c)" "i \<in> used_slabs st"
    "length (sl_slabs st) = KMEM_SLAB_MAX" "length (sl_caches st) = KMEM_CACHE_MAX"
    "8 \<le> sb_object_count (slab_at st i)" "sb_object_count (slab_at st i) \<le> 128"
proof -
  have b: "body_inv st" and l: "list_inv st" using assms by (simp_all add: slab_inv_def)
  show u: "i \<in> used_slabs st" using assms(2) by (simp add: owned_slabs_def used_slabs_def)
  then have f: "slab_ok (slab_at st i)" "slab_fits st (slab_at st i)" using b by (auto simp: body_inv_def)
  show "slab_ok (slab_at st i)" by (rule f)
  show c: "c \<in> used_caches st" "sb_object_count (slab_at st i) = unat (sc_objects_per_slab (cache_at st c))"
    "sb_pages (slab_at st i) = sc_slab_pages (cache_at st c)"
    using f(2) assms(2) by (auto simp: slab_fits_def owned_slabs_def)
  then show "c < KMEM_CACHE_MAX" "sc_used (cache_at st c)" by (simp_all add: used_caches_def)
  show "cache_geometry (cache_at st c)" using b c(1) by (auto simp: body_inv_def)
  show "length (sl_slabs st) = KMEM_SLAB_MAX" "length (sl_caches st) = KMEM_CACHE_MAX"
    using list_inv_lengths [OF l] by simp_all
  then show "i < length (sl_slabs st)" "c < length (sl_caches st)"
    using u \<open>c < KMEM_CACHE_MAX\<close> by (simp_all add: used_slabs_def)
  show "8 \<le> sb_object_count (slab_at st i)" "sb_object_count (slab_at st i) \<le> 128"
    using f(1) by (simp_all add: slab_ok_def slab_body_def slab_limits)
qed

lemma take_object_result:
  assumes inv: "slab_inv st" and i: "i \<in> owned_slabs st c" and nf: "sb_state (slab_at st i) \<noteq> KMEM_SLAB_STATE_FULL"
  defines "a \<equiv> object_at st c i (sb_free_head (slab_at st i))"
  obtains st' where
    "take_object c i st = (a, st'\<lparr>sl_memory := zero_object a (sc_object_size (cache_at st c)) (sl_memory st)\<rparr>)"
    and "core st' = core (put_cache c (bump_active 1) (put_slab i take_slab st))" and "slab_inv st'"
proof -
  note o = owned_slab [OF inv i]
  have b: "body_inv st" and l: "list_inv st" using inv by (simp_all add: slab_inv_def)
  note tk = take_slab_ok [OF o(1) nf]
  let ?s = "slab_at st i" and ?k = "sb_free_head (slab_at st i)"
  let ?n = "sb_active_objects ?s + 1" and ?m = "sb_object_count ?s"
  define t where "t = (slab_set_bit ?k True (?s\<lparr>sb_free_head := sb_free_next ?s ! ?k\<rparr>))\<lparr>sb_active_objects := ?n\<rparr>"
  have tf: "sb_state t = sb_state ?s" "sb_next t = sb_next ?s" "sb_previous t = sb_previous ?s" "sb_owner t = sb_owner ?s"
    "sb_used t = sb_used ?s" "sb_active_objects t = ?n" "sb_object_count t = ?m"
    by (simp_all add: t_def slab_set_bit_def)
  have tl: "take_slab ?s = t\<lparr>sb_state := slab_level ?n ?m\<rparr>"
    using tf(6,7) by (simp add: take_slab_def Let_def t_def slab_set_bit_def)
  define st1 where "st1 = put_cache c (bump_active 1) (put_slab i (\<lambda>_. t) st)"
  have st1: "slab_at st1 i = t" "sc_used (cache_at st1 c)" using o by (simp_all add: st1_def)
  have l1: "list_inv st1"
    unfolding st1_def
    by (rule lists_put_cache(2) [OF _ _ lists_put_same [OF l]]) (use o tf in \<open>simp_all add: head_of_def\<close>)
  have "sb_state ?s = slab_level (?n - 1) ?m" using o(1) by (simp add: slab_ok_def)
  then have m1: "i \<in> members st1 c (slab_level (?n - 1) ?m)"
    using i tf st1(1) by (simp add: members_def owned_slabs_def)
  have "?n = card (taken (take_slab ?s))" using tk(1,4) by (auto simp: slab_ok_def slab_body_def)
  then have nm: "?n \<le> ?m" using card_taken_le [of "take_slab ?s"] tk(9) by simp
  note rt = relist_taken_result [OF l1 o(3) st1(2), of ?n i ?m, unfolded st1(1) tf, OF _ _ nm _ _ m1]
  let ?st = "relist_taken c i st1"
  have core3: "core ?st = core (put_cache c (bump_active 1) (put_slab i (\<lambda>_. take_slab ?s) st))"
    using rt(2) o(13) core_put_state [OF o(5), of "slab_level ?n ?m" c "bump_active 1" t] tl by (simp add: st1_def)
  have "body_inv (put_cache c (bump_active 1) (put_slab i (\<lambda>_. take_slab ?s) st))"
    using tk by (intro body_update [OF b o(11,12) i o(2)]) simp_all
  then have "body_inv ?st" by (intro body_inv_core [OF core3]) (use o in simp_all)
  then have inv3: "slab_inv ?st" using rt(1) o(13) by (simp add: slab_inv_def)
  have m3: "sb_memory (slab_at ?st i) = sb_memory ?s" "sc_object_stride (cache_at ?st c) = sc_object_stride (cache_at st c)"
    "sc_object_size (cache_at ?st c) = sc_object_size (cache_at st c)" "sl_memory ?st = sl_memory st"
    using core_eqD(3,4,9) [OF core3] o tk(7) slab_core_fields(2) [of "slab_at ?st i" "take_slab ?s"]
      cache_core_fields(2,4) [of "cache_at ?st c" "bump_active 1 (cache_at st c)"] by simp_all
  have e1: "put_cache c (\<lambda>e. e\<lparr>sc_active_objects := sc_active_objects e + 1\<rparr>)
      (put_slab i (\<lambda>s. s\<lparr>sb_active_objects := sb_active_objects s + 1\<rparr>)
        (put_slab i (\<lambda>s. slab_set_bit ?k True (s\<lparr>sb_free_head := sb_free_next s ! ?k\<rparr>)) st)) = st1"
    by (simp add: st1_def put_slab_twice [OF o(5)] t_def slab_set_bit_def)
  have "take_object c i st = (a, ?st\<lparr>sl_memory := zero_object a (sc_object_size (cache_at st c)) (sl_memory st)\<rparr>)"
    using free_head_in_range [OF o(1) nf] unfolding take_object_def Let_def e1 m3 a_def object_at_def by simp
  then show ?thesis using core3 inv3 that [of ?st] by (simp add: put_slab_const [of i take_slab])
qed

lemma core_put_cong:
  assumes "core a = core b" and "\<And>x y. slab_core x = slab_core y \<Longrightarrow> slab_core (f x) = slab_core (f y)"
  shows "core (put_slab i f a) = core (put_slab i f b)"
proof (cases "i < length (sl_slabs b)")
  case True
  have len: "length (sl_slabs a) = length (sl_slabs b)" by (rule core_eqD(1) [OF assms(1)])
  have "slab_core (f (slab_at a i)) = slab_core (f (slab_at b i))"
    by (rule assms(2) [OF core_eqD(3) [OF assms(1) True]])
  then have "core (put_slab i f a) = (core a)\<lparr>sl_slabs := (sl_slabs (core a))[i := slab_core (f (slab_at b i))]\<rparr>"
    "core (put_slab i f b) = (core b)\<lparr>sl_slabs := (sl_slabs (core b))[i := slab_core (f (slab_at b i))]\<rparr>"
    by (simp_all add: core_def put_slab_def map_update)
  then show ?thesis using assms(1) by simp
next
  case False
  then show ?thesis using assms(1) core_eqD(1) [OF assms(1)] by (simp add: put_slab_def list_update_beyond)
qed

lemma core_put_cache_cong:
  assumes "core a = core b" and "\<And>x y. cache_core x = cache_core y \<Longrightarrow> cache_core (g x) = cache_core (g y)"
  shows "core (put_cache c g a) = core (put_cache c g b)"
proof (cases "c < length (sl_caches b)")
  case True
  have "cache_core (g (cache_at a c)) = cache_core (g (cache_at b c))"
    by (rule assms(2) [OF core_eqD(4) [OF assms(1) True]])
  then have "core (put_cache c g a) = (core a)\<lparr>sl_caches := (sl_caches (core a))[c := cache_core (g (cache_at b c))]\<rparr>"
    "core (put_cache c g b) = (core b)\<lparr>sl_caches := (sl_caches (core b))[c := cache_core (g (cache_at b c))]\<rparr>"
    by (simp_all add: core_def put_cache_def map_update)
  then show ?thesis using assms(1) by simp
next
  case False
  then show ?thesis using assms(1) core_eqD(2) [OF assms(1)] by (simp add: put_cache_def list_update_beyond)
qed

lemma cache_core_bump: "cache_core x = cache_core y \<Longrightarrow> cache_core (bump_active a x) = cache_core (bump_active a y)"
  by (cases x; cases y) (simp add: cache_core_def)

lemma slab_core_state_cong: "slab_core x = slab_core y \<Longrightarrow> slab_core (x\<lparr>sb_state := s\<rparr>) = slab_core (y\<lparr>sb_state := s\<rparr>)"
  by (cases x; cases y) (simp add: slab_core_def)

definition give_step :: "nat \<Rightarrow> kmem_slab \<Rightarrow> kmem_slab" where
  "give_step k s = (slab_set_bit k False s)\<lparr>sb_free_next := (sb_free_next s)[k := sb_free_head s], sb_free_head := k,
     sb_active_objects := sb_active_objects s - 1\<rparr>"

lemma give_step_core: "slab_core x = slab_core y \<Longrightarrow> slab_core (give_step k x) = slab_core (give_step k y)"
  by (cases x; cases y) (simp add: slab_core_def give_step_def slab_set_bit_def)

lemma give_step_fields [simp]:
  "sb_owner (give_step k s) = sb_owner s" "sb_used (give_step k s) = sb_used s" "sb_state (give_step k s) = sb_state s"
  "sb_next (give_step k s) = sb_next s" "sb_previous (give_step k s) = sb_previous s"
  "sb_active_objects (give_step k s) = sb_active_objects s - 1" "sb_object_count (give_step k s) = sb_object_count s"
  by (simp_all add: give_step_def slab_set_bit_def)

lemma give_slab_step: "give_slab k s = (give_step k s)\<lparr>sb_state := slab_level (sb_active_objects s - 1) (sb_object_count s)\<rparr>"
  by (simp add: give_slab_def give_step_def Let_def slab_set_bit_def)

lemma put_cache_slab: "put_slab i f (put_cache c g st) = put_cache c g (put_slab i f st)"
  by (cases st) (simp add: put_slab_def put_cache_def)

text \<open>The slab leaves its list, changes, and joins the list of its new level.\<close>

lemma leave_change_join:
  fixes a :: u32 and k :: nat
  assumes l: "list_inv st" and i: "i \<in> members st c old" and o: "list_of st c old" "list_of st c s"
  defines "st' \<equiv> slab_list_add c i s (put_cache c (bump_active a) (put_slab i (give_step k) (slab_list_remove c i st)))"
  shows "list_inv st'"
    and "core st' = core (put_cache c (bump_active a) (put_slab i (\<lambda>x. (give_step k x)\<lparr>sb_state := s\<rparr>) st))"
proof -
  have len: "length (sl_slabs st) = KMEM_SLAB_MAX" "length (sl_caches st) = KMEM_CACHE_MAX"
    using list_inv_lengths [OF l] by simp_all
  have il: "i < KMEM_SLAB_MAX" and own: "i \<in> owned_slabs st c" using i by (auto simp: members_def owned_slabs_def)
  let ?r = "slab_list_remove c i st"
  let ?m = "put_cache c (bump_active a) (put_slab i (give_step k) ?r)"
  note cs = core_sets [OF core_remove [of c i st] len]
  have rl: "length (sl_slabs ?r) = KMEM_SLAB_MAX" "length (sl_caches ?r) = KMEM_CACHE_MAX"
    using core_eqD(1,2) [OF core_remove [of c i st]] len by simp_all
  have "lists_but i ?m"
    by (intro lists_put_cache(1) lists_put_slab lists_remove [OF l o(1) i] il) (simp_all add: head_of_def)
  moreover have "list_of ?m c s" using cs(5) [of c s] o(2) rl by simp
  moreover have "i \<in> owned_slabs ?m c" using cs(1) [of c] own rl il by (auto simp: owned_slabs_def)
  ultimately show "list_inv st'" unfolding st'_def by (rule lists_add)
  have "core st' = core (put_slab i (\<lambda>x. x\<lparr>sb_state := s\<rparr>) ?m)" unfolding st'_def by (rule core_add)
  also have "\<dots> = core (put_cache c (bump_active a) (put_slab i (\<lambda>x. (give_step k x)\<lparr>sb_state := s\<rparr>) ?r))"
    using il rl by (simp add: put_cache_slab put_slab_twice put_slab_const [of i "\<lambda>x. (give_step k x)\<lparr>sb_state := s\<rparr>"])
  also have "\<dots> = core (put_cache c (bump_active a) (put_slab i (\<lambda>x. (give_step k x)\<lparr>sb_state := s\<rparr>) st))"
    by (intro core_put_cache_cong core_put_cong core_remove cache_core_bump slab_core_state_cong give_step_core)
  finally show "core st' = core (put_cache c (bump_active a) (put_slab i (\<lambda>x. (give_step k x)\<lparr>sb_state := s\<rparr>) st))" .
qed

lemma give_object_result:
  assumes inv: "slab_inv st" and i: "i \<in> owned_slabs st c" and k: "k \<in> taken (slab_at st i)"
  shows "slab_inv (give_object c i k st)"
    and "core (give_object c i k st) = core (put_cache c (bump_active (- 1)) (put_slab i (give_slab k) st))"
proof -
  note o = owned_slab [OF inv i]
  have b: "body_inv st" and l: "list_inv st" using inv by (simp_all add: slab_inv_def)
  note gv = give_slab_ok [OF o(1) k]
  let ?s = "slab_at st i" and ?n = "sb_active_objects (slab_at st i)" and ?m = "sb_object_count (slab_at st i)"
  have lev: "sb_state ?s = slab_level ?n ?m" using o(1) by (simp add: slab_ok_def)
  have n: "0 < ?n" "?n \<le> ?m" using gv(4) o(1) card_taken_le [of ?s] by (auto simp: slab_ok_def slab_body_def)
  let ?new = "slab_level (?n - 1) ?m"
  have lv: "slab_level x y \<in> levels" for x y by (simp add: slab_level_def levels_def)
  have mem: "i \<in> members st c (slab_level ?n ?m)" using i lev by (simp add: members_def)
  have lo: "list_of st c (slab_level x y)" for x y using o lv by simp
  note lcj = leave_change_join [OF l mem lo lo, of "?n - 1" ?m "- 1" k]
  have pm: "put_cache c (\<lambda>e. e\<lparr>sc_active_objects := sc_active_objects e - 1\<rparr>) = put_cache c (bump_active (- 1))"
    by simp
  have sl: "slab_at (put_cache c (bump_active (- 1)) (put_slab i (give_step k) (slab_list_remove c i st))) i =
      give_step k (slab_at (slab_list_remove c i st) i)"
    using o core_eqD(1) [OF core_remove [of c i st]] by simp
  have rc: "sb_active_objects (slab_at (slab_list_remove c i st) i) = ?n"
    using slab_core_fields(5) [OF core_eqD(3) [OF core_remove [of c i st]]] o(5) by simp
  have main: "list_inv (give_object c i k st) \<and>
      core (give_object c i k st) = core (put_cache c (bump_active (- 1)) (put_slab i (\<lambda>x. (give_step k x)\<lparr>sb_state := ?new\<rparr>) st))"
  proof (cases "?n = 1 \<or> ?n = ?m")
    case True
    have "give_object c i k st =
        slab_list_add c i ?new (put_cache c (bump_active (- 1)) (put_slab i (give_step k) (slab_list_remove c i st)))"
      using True n o(13) sl rc unfolding give_object_def Let_def pm lev give_step_def [symmetric]
      by (auto simp: slab_level_def slab_states)
    then show ?thesis using lcj by simp
  next
    case False
    have same: "?new = slab_level ?n ?m" using False n by (auto simp: slab_level_def)
    have eq: "give_object c i k st = put_cache c (bump_active (- 1)) (put_slab i (give_step k) st)"
      using False n o unfolding give_object_def Let_def pm lev give_step_def [symmetric]
      by (auto simp: slab_level_def slab_states)
    have "(give_step k ?s)\<lparr>sb_state := ?new\<rparr> = give_step k ?s"
      using lev same by (cases ?s) (simp add: give_step_def slab_set_bit_def)
    then have "put_slab i (\<lambda>x. (give_step k x)\<lparr>sb_state := ?new\<rparr>) st = put_slab i (give_step k) st"
      by (simp add: put_slab_def list_update_beyond)
    moreover have "list_inv (give_object c i k st)"
      unfolding eq by (rule lists_put_cache(2) [OF _ _ lists_put_same [OF l]]) (use o in \<open>simp_all add: head_of_def\<close>)
    ultimately show ?thesis using eq by simp
  qed
  have gs: "put_slab i (\<lambda>x. (give_step k x)\<lparr>sb_state := ?new\<rparr>) st = put_slab i (give_slab k) st"
    by (simp add: put_slab_def give_slab_step)
  show core': "core (give_object c i k st) = core (put_cache c (bump_active (- 1)) (put_slab i (give_slab k) st))"
    using main gs by simp
  have "word_of_nat (?n - 1) = word_of_nat ?n + (- 1 :: u32)" using n(1) by (simp add: of_nat_diff)
  then have "body_inv (put_cache c (bump_active (- 1)) (put_slab i (\<lambda>_. give_slab k ?s) st))"
    using gv by (intro body_update [OF b o(11,12) i o(2)]) simp_all
  then have "body_inv (give_object c i k st)"
    by (intro body_inv_core [OF core' [unfolded put_slab_const [of i "give_slab k"]]]) (use o in simp_all)
  then show "slab_inv (give_object c i k st)" using main by (simp add: slab_inv_def)
qed

section \<open>Addresses of objects\<close>

lemma cache_geometryD:
  assumes "cache_geometry e"
  shows "sc_object_stride e \<noteq> 0" "0 < unat (sc_object_stride e)"
    "unat (sc_objects_per_slab e) * unat (sc_object_stride e) \<le> unat (sc_slab_pages e) * PAGE_SIZE"
    "sc_object_size e \<le> sc_object_stride e"
proof -
  show "sc_object_stride e \<noteq> 0" using assms unfolding cache_geometry_def by blast
  then show "0 < unat (sc_object_stride e)" by (simp add: unat_gt_0)
  show "unat (sc_objects_per_slab e) * unat (sc_object_stride e) \<le> unat (sc_slab_pages e) * PAGE_SIZE"
    "sc_object_size e \<le> sc_object_stride e"
    using assms unfolding cache_geometry_def by blast+
qed

lemma slab_run:
  assumes "slab_inv st" and "i \<in> owned_slabs st c"
  shows "sb_memory (slab_at st i) \<noteq> 0" "PAGE_SIZE dvd unat (sb_memory (slab_at st i))"
    "unat (sb_memory (slab_at st i)) + sb_object_count (slab_at st i) * unat (sc_object_stride (cache_at st c))
       \<le> unat (sb_memory (slab_at st i)) + unat (sb_pages (slab_at st i)) * PAGE_SIZE"
    "unat (sb_memory (slab_at st i)) + unat (sb_pages (slab_at st i)) * PAGE_SIZE < 2 ^ 32"
proof -
  note o = owned_slab [OF assms]
  have runs: "slab_runs st i = Some (sb_memory (slab_at st i), unat (sb_pages (slab_at st i)))"
    using o(10) by (simp add: slab_runs_def)
  have holds: "holds_runs (owned_set (sl_pmm st)) (slab_runs st)" using assms(1) by (simp add: slab_inv_def body_inv_def)
  from holds_runsD(1) [OF holds runs] show "sb_memory (slab_at st i) \<noteq> 0" "PAGE_SIZE dvd unat (sb_memory (slab_at st i))"
    "unat (sb_memory (slab_at st i)) + unat (sb_pages (slab_at st i)) * PAGE_SIZE < 2 ^ 32"
    by (simp_all add: run_fits_def)
  show "unat (sb_memory (slab_at st i)) + sb_object_count (slab_at st i) * unat (sc_object_stride (cache_at st c))
       \<le> unat (sb_memory (slab_at st i)) + unat (sb_pages (slab_at st i)) * PAGE_SIZE"
    unfolding o(8,9) using cache_geometryD(3) [OF o(7)] by simp
qed

lemma unat_object_at:
  assumes "slab_inv st" and "i \<in> owned_slabs st c" and "k \<le> sb_object_count (slab_at st i)"
  shows "unat (object_at st c i k) = unat (sb_memory (slab_at st i)) + k * unat (sc_object_stride (cache_at st c))"
proof -
  note r = slab_run [OF assms(1,2)]
  have "k * unat (sc_object_stride (cache_at st c)) \<le> sb_object_count (slab_at st i) * unat (sc_object_stride (cache_at st c))"
    using assms(3) by simp
  then have lt: "unat (sb_memory (slab_at st i)) + k * unat (sc_object_stride (cache_at st c)) < 2 ^ 32"
    using r(3,4) by linarith
  moreover have "k < 2 ^ 32" using assms(3) owned_slab(14) [OF assms(1,2)] by simp
  ultimately show ?thesis
    by (simp add: object_at_def unat_word_ariths unat_of_nat_small)
qed

lemma object_page:
  assumes "slab_inv st" and "i \<in> owned_slabs st c"
    and "unat (sb_memory (slab_at st i)) \<le> x" and "x < unat (sb_memory (slab_at st i)) + unat (sb_pages (slab_at st i)) * PAGE_SIZE"
  shows "x div PAGE_SIZE \<in> page_run (sb_memory (slab_at st i)) (unat (sb_pages (slab_at st i)))"
proof -
  obtain q where q: "unat (sb_memory (slab_at st i)) = PAGE_SIZE * q" using slab_run(2) [OF assms(1,2)] by blast
  have "q \<le> x div PAGE_SIZE" using assms(3) q by (simp add: PAGE_SIZE_def less_eq_div_iff_mult_less_eq mult.commute)
  moreover have "x div PAGE_SIZE < q + unat (sb_pages (slab_at st i))"
    using assms(4) q by (simp add: div_less_iff_less_mult PAGE_SIZE_def algebra_simps)
  ultimately show ?thesis using q by (simp add: page_run_def PAGE_SIZE_def)
qed

text \<open>Two slabs never share an address, whichever caches they belong to.\<close>

lemma slab_ranges_disjoint:
  assumes inv: "slab_inv st" and "i \<in> owned_slabs st c" "j \<in> owned_slabs st d"
    and "unat (sb_memory (slab_at st i)) \<le> x" "x < unat (sb_memory (slab_at st i)) + unat (sb_pages (slab_at st i)) * PAGE_SIZE"
    and "unat (sb_memory (slab_at st j)) \<le> x" "x < unat (sb_memory (slab_at st j)) + unat (sb_pages (slab_at st j)) * PAGE_SIZE"
  shows "i = j"
proof (rule ccontr)
  assume "i \<noteq> j"
  have "holds_runs (owned_set (sl_pmm st)) (slab_runs st)" using inv by (simp add: slab_inv_def body_inv_def)
  then have "disjnt (page_run (sb_memory (slab_at st i)) (unat (sb_pages (slab_at st i))))
      (page_run (sb_memory (slab_at st j)) (unat (sb_pages (slab_at st j))))"
    using owned_slab(10) [OF inv assms(2)] owned_slab(10) [OF inv assms(3)] \<open>i \<noteq> j\<close>
    by (intro holds_runsD(2) [of _ "slab_runs st" i j]) (simp_all add: slab_runs_def)
  then show False using object_page [OF inv assms(2,4,5)] object_page [OF inv assms(3,6,7)] by (auto simp: disjnt_def)
qed

lemma object_at_range:
  assumes "slab_inv st" and "i \<in> owned_slabs st c" and "k < sb_object_count (slab_at st i)"
  shows "unat (sb_memory (slab_at st i)) \<le> unat (object_at st c i k)"
    and "unat (object_at st c i k) + unat (sc_object_stride (cache_at st c))
      \<le> unat (sb_memory (slab_at st i)) + sb_object_count (slab_at st i) * unat (sc_object_stride (cache_at st c))"
    and "unat (object_at st c i k) < unat (sb_memory (slab_at st i)) + unat (sb_pages (slab_at st i)) * PAGE_SIZE"
    and "object_at st c i k \<noteq> 0"
proof -
  let ?s = "unat (sc_object_stride (cache_at st c))"
  have u: "unat (object_at st c i k) = unat (sb_memory (slab_at st i)) + k * ?s"
    using unat_object_at [OF assms(1,2)] assms(3) by simp
  have "Suc k * ?s \<le> sb_object_count (slab_at st i) * ?s" using assms(3) by (intro mult_right_mono) simp_all
  then have le: "k * ?s + ?s \<le> sb_object_count (slab_at st i) * ?s" by simp
  have "0 < ?s" by (rule cache_geometryD(2) [OF owned_slab(7) [OF assms(1,2)]])
  then show "unat (sb_memory (slab_at st i)) \<le> unat (object_at st c i k)"
    "unat (object_at st c i k) + ?s \<le> unat (sb_memory (slab_at st i)) + sb_object_count (slab_at st i) * ?s"
    "unat (object_at st c i k) < unat (sb_memory (slab_at st i)) + unat (sb_pages (slab_at st i)) * PAGE_SIZE"
    using u le slab_run(3) [OF assms(1,2)] by linarith+
  have "unat (sb_memory (slab_at st i)) \<noteq> 0" using slab_run(1) [OF assms(1,2)] by (simp add: unat_eq_0)
  then show "object_at st c i k \<noteq> 0" using u by auto
qed

text \<open>Objects are told apart by their addresses, also across caches.\<close>

lemma object_at_inject:
  assumes inv: "slab_inv st" and "i \<in> owned_slabs st c" "k < sb_object_count (slab_at st i)"
    and "j \<in> owned_slabs st d" "l < sb_object_count (slab_at st j)" and eq: "object_at st c i k = object_at st d j l"
  shows "i = j \<and> c = d \<and> k = l"
proof -
  note r = object_at_range [OF inv assms(2,3)] object_at_range [OF inv assms(4,5)]
  have ij: "i = j"
    using slab_ranges_disjoint [OF inv assms(2,4), of "unat (object_at st c i k)"] r eq by simp
  then have cd: "c = d" using assms(2,4) by (simp add: owned_slabs_def)
  have "k * unat (sc_object_stride (cache_at st c)) = l * unat (sc_object_stride (cache_at st c))"
    using arg_cong [OF eq, of unat] unat_object_at [OF inv assms(2), of k] unat_object_at [OF inv assms(4), of l] assms(3,5) ij cd by auto
  moreover have "unat (sc_object_stride (cache_at st c)) \<noteq> 0"
    using cache_geometryD(2) [OF owned_slab(7) [OF inv assms(2)]] by simp
  ultimately show ?thesis using ij cd by simp
qed

lemma object_aligned:
  assumes "slab_inv st" and "i \<in> owned_slabs st c" and "k < sb_object_count (slab_at st i)"
  shows "unat (sc_alignment (cache_at st c)) dvd unat (object_at st c i k)"
proof -
  let ?al = "unat (sc_alignment (cache_at st c))"
  have g: "cache_geometry (cache_at st c)" by (rule owned_slab(7) [OF assms(1,2)])
  then obtain e where e: "e \<le> 12" "?al = 2 ^ e" by (auto simp: cache_geometry_def)
  then have "?al dvd PAGE_SIZE" using le_imp_power_dvd [OF e(1), of "2 :: nat"] by (simp add: PAGE_SIZE_def)
  then have "?al dvd unat (sb_memory (slab_at st i))" using slab_run(2) [OF assms(1,2)] dvd_trans by blast
  then show ?thesis using g unat_object_at [OF assms(1,2), of k] assms(3) by (simp add: cache_geometry_def)
qed

section \<open>Locating an object\<close>

lemma location_object:
  assumes inv: "slab_inv st" and i: "i \<in> owned_slabs st c" and k: "k < sb_object_count (slab_at st i)"
  shows "slab_object_location st (Some c) (object_at st c i k) = Some (i, k)"
proof -
  note o = owned_slab [OF inv i]
  let ?a = "object_at st c i k" and ?st = "sc_object_stride (cache_at st c)"
  let ?P = "\<lambda>s. sb_used s \<and> sb_owner s = Some c \<and>
     \<not> (?a < sb_memory s \<or> ?a \<ge> sb_memory s + ?st * word_of_nat (sb_object_count s))"
  have stop: "unat (sb_memory (slab_at st j) + ?st * word_of_nat (sb_object_count (slab_at st j))) =
      unat (sb_memory (slab_at st j)) + sb_object_count (slab_at st j) * unat ?st" if "j \<in> owned_slabs st c" for j
    using unat_object_at [OF inv that, of "sb_object_count (slab_at st j)"] by (simp add: object_at_def mult.commute)
  have P: "?P (slab_at st j) \<longleftrightarrow> j = i" if "j < length (sl_slabs st)" for j
  proof
    assume p: "?P (slab_at st j)"
    then have j: "j \<in> owned_slabs st c" using that o(11) by (simp add: owned_slabs_def)
    have "unat (sb_memory (slab_at st j)) \<le> unat ?a"
      "unat ?a < unat (sb_memory (slab_at st j)) + sb_object_count (slab_at st j) * unat ?st"
      using p stop [OF j] by (auto simp: word_le_nat_alt word_less_nat_alt)
    then show "j = i"
      using slab_ranges_disjoint [OF inv j i, of "unat ?a"] slab_run(3) [OF inv j] object_at_range(1,3) [OF inv i k] by linarith
  next
    assume "j = i"
    moreover have "0 < unat ?st" by (rule cache_geometryD(2) [OF o(7)])
    ultimately show "?P (slab_at st j)"
      using i object_at_range(1,2) [OF inv i k] stop [OF i] by (auto simp: owned_slabs_def word_le_nat_alt word_less_nat_alt)
  qed
  have "first_index ?P (sl_slabs st) = Some i"
  proof -
    obtain j where j: "first_index ?P (sl_slabs st) = Some j"
      using first_index_Some_ex [of "slab_at st i" "sl_slabs st" ?P] P [OF o(5)] o(5) by auto
    then show ?thesis using first_index_SomeD [OF j] P [of j] by auto
  qed
  moreover have "?a - sb_memory (slab_at st i) = word_of_nat k * ?st" by (simp add: object_at_def)
  moreover have off: "unat (word_of_nat k * ?st) = k * unat ?st"
  proof -
    have "k * unat ?st < 2 ^ 32"
      using unat_object_at [OF inv i, of k] k unsigned_less [of ?a, where ?'a = nat] by simp
    then show ?thesis using k o(14) by (simp add: unat_word_ariths unat_of_nat_small)
  qed
  moreover have "unat ((word_of_nat k * ?st) mod ?st) = 0" by (simp add: unat_mod_distrib off)
  moreover have "unat ((word_of_nat k * ?st) div ?st) = k"
    using cache_geometryD(2) [OF o(7)] by (simp add: unat_div_distrib off)
  moreover have "?st \<noteq> 0" by (rule cache_geometryD(1) [OF o(7)])
  ultimately show ?thesis
    using object_at_range(4) [OF inv i k] k by (simp add: slab_object_location_def Let_def unat_eq_0)
qed

lemma location_sound:
  assumes inv: "slab_inv st" and c: "c \<in> used_caches st" and loc: "slab_object_location st (Some c) a = Some (i, k)"
  shows "i \<in> owned_slabs st c" "k < sb_object_count (slab_at st i)" "a = object_at st c i k"
proof -
  let ?st = "sc_object_stride (cache_at st c)" and ?m = "sb_memory (slab_at st i)"
  have len: "length (sl_slabs st) = KMEM_SLAB_MAX" using inv list_inv_lengths(1) by (simp add: slab_inv_def)
  obtain f: "first_index (\<lambda>s. sb_used s \<and> sb_owner s = Some c \<and>
     \<not> (a < sb_memory s \<or> a \<ge> sb_memory s + ?st * word_of_nat (sb_object_count s))) (sl_slabs st) = Some i"
    and m: "(a - ?m) mod ?st = 0" and k: "k = unat ((a - ?m) div ?st)" "k < sb_object_count (slab_at st i)"
    using loc by (auto simp: slab_object_location_def Let_def split: option.splits if_splits)
  show i: "i \<in> owned_slabs st c" using first_index_SomeD [OF f] len by (auto simp: owned_slabs_def)
  show "k < sb_object_count (slab_at st i)" by (rule k)
  have "(a - ?m) div ?st * ?st + (a - ?m) mod ?st = a - ?m" by (rule div_mult_mod_eq)
  then have "word_of_nat k * ?st = a - ?m" using m k(1) by simp
  then show "a = object_at st c i k" by (simp add: object_at_def)
qed

section \<open>A fresh slab\<close>

definition fresh_slab :: "nat \<Rightarrow> kmem_cache \<Rightarrow> u32 \<Rightarrow> kmem_slab" where
  "fresh_slab c e memory = kmem_slab_zero\<lparr>sb_owner := Some c, sb_memory := memory,
     sb_pages := sc_slab_pages e, sb_object_count := unat (sc_objects_per_slab e),
     sb_free_head := 0, sb_next := None, sb_previous := None, sb_used := True,
     sb_free_next := initial_free_next (unat (sc_objects_per_slab e))\<rparr>"

lemma fresh_slab_fields [simp]:
  "sb_owner (fresh_slab c e a) = Some c" "sb_memory (fresh_slab c e a) = a" "sb_pages (fresh_slab c e a) = sc_slab_pages e"
  "sb_object_count (fresh_slab c e a) = unat (sc_objects_per_slab e)" "sb_used (fresh_slab c e a)"
  "sb_active_objects (fresh_slab c e a) = 0" "sb_state (fresh_slab c e a) = KMEM_SLAB_STATE_EMPTY"
  by (simp_all add: fresh_slab_def kmem_slab_zero_def KMEM_SLAB_STATE_EMPTY_def)

lemma taken_fresh [simp]: "cache_geometry e \<Longrightarrow> taken (fresh_slab c e a) = {}"
  by (auto simp: taken_def slab_bit_is_set_def fresh_slab_def kmem_slab_zero_def words_bit_eq cache_geometry_def
      slab_limits less_mult_imp_div_less)

lemma fresh_slab_ok:
  assumes g: "cache_geometry e" and "a \<noteq> 0"
  shows "slab_ok (fresh_slab c e a)"
proof -
  let ?n = "unat (sc_objects_per_slab e)"
  have n: "KMEM_SLAB_MIN_OBJECTS \<le> ?n" "?n \<le> KMEM_SLAB_MAX_OBJECTS" "sc_slab_pages e \<noteq> 0"
    using g unfolding cache_geometry_def by blast+
  then have "path KMEM_SLAB_MAX_OBJECTS (initial_free_next ?n) 0 [0..<?n]"
    using initial_path [OF n(2), of 0] by (simp add: slab_limits)
  then have "path KMEM_SLAB_MAX_OBJECTS (sb_free_next (fresh_slab c e a)) (sb_free_head (fresh_slab c e a)) [0..<?n]"
    by (simp add: fresh_slab_def)
  then have "\<exists>fl. path KMEM_SLAB_MAX_OBJECTS (sb_free_next (fresh_slab c e a)) (sb_free_head (fresh_slab c e a)) fl \<and>
      distinct fl \<and> set fl = {0..<sb_object_count (fresh_slab c e a)} - taken (fresh_slab c e a)"
    by (intro exI [of _ "[0..<?n]"]) (simp add: g)
  moreover have "length (sb_bitmap (fresh_slab c e a)) = KMEM_SLAB_BITMAP_WORDS"
    "length (sb_free_next (fresh_slab c e a)) = KMEM_SLAB_MAX_OBJECTS"
    by (simp_all add: fresh_slab_def kmem_slab_zero_def)
  ultimately show ?thesis
    using n assms unfolding slab_ok_def slab_body_def by (simp add: slab_level_def)
qed

lemma slab_inv_pmm:
  assumes "slab_inv st" and "pmm_inv pm" and "owned_set pm = owned_set (sl_pmm st)"
  shows "slab_inv (st\<lparr>sl_pmm := pm\<rparr>)"
proof -
  let ?st = "st\<lparr>sl_pmm := pm\<rparr>"
  have n: "nexts ?st = nexts st" "prevs ?st = prevs st" by (simp_all add: nexts_def prevs_def fun_eq_iff)
  have s: "owned_slabs ?st = owned_slabs st" "members ?st = members st" "used_slabs ?st = used_slabs st"
    "used_caches ?st = used_caches st" "slab_runs ?st = slab_runs st"
    by (simp_all add: fun_eq_iff owned_slabs_def members_def used_slabs_def used_caches_def slab_runs_def)
  have t: "slab_fits ?st = slab_fits st" "cache_totals ?st = cache_totals st"
    by (simp_all add: fun_eq_iff slab_fits_def cache_totals_def s)
  have "links_ok ?st ls = links_ok st ls" for ls by (simp add: links_ok_def n)
  then have "list_inv ?st = list_inv st" by (simp add: list_inv_def s)
  moreover have "body_inv ?st" using assms by (simp add: slab_inv_def body_inv_def s t)
  ultimately show ?thesis using assms(1) by (simp add: slab_inv_def)
qed

abbreviation count_slab :: "nat \<Rightarrow> kmem_cache \<Rightarrow> kmem_cache" where
  "count_slab n e \<equiv> e\<lparr>sc_slab_count := sc_slab_count e + 1, sc_capacity := sc_capacity e + word_of_nat n\<rparr>"

lemma body_new_slab:
  assumes b: "body_inv st" and len: "length (sl_slabs st) = KMEM_SLAB_MAX" "length (sl_caches st) = KMEM_CACHE_MAX"
    and c: "c \<in> used_caches st" and r: "r < KMEM_SLAB_MAX" "\<not> sb_used (slab_at st r)"
    and al: "pmm_alloc_pages_in_zone (sl_pmm st) (unat (sc_slab_pages (cache_at st c))) MEMORY_ZONE_SLAB = (a, pm)" "a \<noteq> 0"
  defines "e \<equiv> cache_at st c"
  shows "body_inv ((put_cache c (count_slab (unat (sc_objects_per_slab e))) (put_slab r (\<lambda>_. fresh_slab c e a) st))
     \<lparr>sl_pmm := pm, sl_slab_count := sl_slab_count st + 1\<rparr>)" (is "body_inv ?st")
proof -
  have cl: "c < KMEM_CACHE_MAX" using c by (simp add: used_caches_def)
  have g: "cache_geometry e" using b c by (auto simp: body_inv_def e_def)
  have sl: "slab_at ?st j = (if j = r then fresh_slab c e a else slab_at st j)" for j using r len by (simp add: nth_list_update)
  have ca: "cache_at ?st d = (if d = c then count_slab (unat (sc_objects_per_slab e)) e else cache_at st d)" for d
    using cl len by (simp add: nth_list_update e_def)
  have nr: "r \<notin> owned_slabs st d" "r \<notin> used_slabs st" for d using r by (simp_all add: owned_slabs_def used_slabs_def)
  have own: "owned_slabs ?st d = (if d = c then insert r (owned_slabs st c) else owned_slabs st d)" for d
    unfolding owned_slabs_def sl using r by auto
  have us: "used_slabs ?st = insert r (used_slabs st)" unfolding used_slabs_def sl using r by auto
  have uc: "used_caches ?st = used_caches st" unfolding used_caches_def ca by (auto simp: e_def)
  have runs: "slab_runs ?st = (slab_runs st)(r \<mapsto> (a, unat (sc_slab_pages e)))"
    unfolding slab_runs_def us sl by auto
  have pinv: "pmm_inv (sl_pmm st)" "holds_runs (owned_set (sl_pmm st)) (slab_runs st)" using b by (simp_all add: body_inv_def)
  have "holds_runs (owned_set pm) (slab_runs ?st)"
    unfolding runs unfolding e_def using nr(2) by (intro slab_pages.hold_take [OF pinv al]) (simp add: slab_runs_def)
  moreover have "pmm_inv pm" using pmm_alloc_inv [OF pinv(1), of "unat (sc_slab_pages (cache_at st c))" MEMORY_ZONE_SLAB] al(1) by simp
  moreover have "slab_ok (slab_at ?st j) \<and> slab_fits ?st (slab_at ?st j)" if "j \<in> insert r (used_slabs st)" for j
  proof (cases "j = r")
    case True
    have "slab_fits ?st (fresh_slab c e a)" unfolding slab_fits_def uc ca using c by auto
    then show ?thesis using True fresh_slab_ok [OF g al(2)] unfolding sl by simp
  next
    case False
    then have "slab_ok (slab_at st j)" "slab_fits st (slab_at st j)" using b that by (auto simp: body_inv_def)
    then show ?thesis using False unfolding slab_fits_def uc ca sl by (auto simp: e_def)
  qed
  moreover have "cache_geometry (cache_at ?st d) \<and> cache_totals ?st d" if "d \<in> used_caches st" for d
  proof -
    have d: "cache_geometry (cache_at st d)" "cache_totals st d" using b that by (auto simp: body_inv_def)
    have sums: "(\<Sum>j \<in> owned_slabs st d'. f (slab_at ?st j)) = (\<Sum>j \<in> owned_slabs st d'. f (slab_at st j))" for f :: "kmem_slab \<Rightarrow> nat" and d'
      by (rule sum.cong) (unfold sl, use nr in auto)
    have "cache_geometry (cache_at ?st d)" using d(1) unfolding ca by (cases "d = c") (simp_all add: cache_geometry_def e_def)
    moreover have "cache_totals ?st d"
    proof (cases "d = c")
      case True
      have ins: "(\<Sum>j \<in> insert r (owned_slabs st c). f (slab_at ?st j)) = f (fresh_slab c e a) + (\<Sum>j \<in> owned_slabs st c. f (slab_at st j))"
        for f :: "kmem_slab \<Rightarrow> nat"
        unfolding sum.insert [OF finite_slab_sets(1) nr(1)] sums unfolding sl by simp
      show ?thesis
        using d(2) True nr(1) unfolding cache_totals_def own ca ins [of sb_active_objects] ins [of sb_object_count] if_P [OF True]
        by (simp add: e_def)
    next
      case False
      show ?thesis
        using d(2) unfolding cache_totals_def own ca if_not_P [OF False] sums [of sb_active_objects] sums [of sb_object_count] .
    qed
    ultimately show ?thesis ..
  qed
  moreover have "card (insert r (used_slabs st)) = Suc (card (used_slabs st))" using nr(2) by simp
  ultimately show ?thesis
    using b unfolding body_inv_def us uc by simp
qed

section \<open>Objects in use\<close>

definition live_objects :: "slab_state \<Rightarrow> nat \<Rightarrow> u32 set" where
  "live_objects st c = {object_at st c i k | i k. i \<in> owned_slabs st c \<and> k \<in> taken (slab_at st i)}"

lemma taken_core: "slab_core s = slab_core t \<Longrightarrow> taken s = taken t"
  using slab_core_fields(4,9) [of s t] by (simp add: taken_def slab_bit_is_set_def)

text \<open>What \<open>live_objects\<close> reads of a state.\<close>

lemma live_objects_cong:
  assumes "owned_slabs st' c = owned_slabs st c"
    and "\<And>i. i \<in> owned_slabs st c \<Longrightarrow> sb_memory (slab_at st' i) = sb_memory (slab_at st i) \<and> taken (slab_at st' i) = taken (slab_at st i)"
    and "sc_object_stride (cache_at st' c) = sc_object_stride (cache_at st c)"
  shows "live_objects st' c = live_objects st c"
  unfolding live_objects_def object_at_def assms(1,3) using assms(2) by (intro Collect_cong) metis

lemma live_objects_core:
  assumes "core st' = core st" and "length (sl_slabs st) = KMEM_SLAB_MAX" "length (sl_caches st) = KMEM_CACHE_MAX" "c < KMEM_CACHE_MAX"
  shows "live_objects st' c = live_objects st c"
proof (rule live_objects_cong)
  show "owned_slabs st' c = owned_slabs st c" by (rule core_sets(1) [OF assms(1-3)])
  show "sc_object_stride (cache_at st' c) = sc_object_stride (cache_at st c)"
    using cache_core_fields(4) [OF core_eqD(4) [OF assms(1)]] assms(3,4) by simp
  fix i assume "i \<in> owned_slabs st c"
  then have "slab_core (slab_at st' i) = slab_core (slab_at st i)"
    using core_eqD(3) [OF assms(1)] assms(2) by (simp add: owned_slabs_def)
  then show "sb_memory (slab_at st' i) = sb_memory (slab_at st i) \<and> taken (slab_at st' i) = taken (slab_at st i)"
    using slab_core_fields(2) taken_core by blast
qed

lemma live_objects_put:
  fixes a :: u32
  assumes len: "length (sl_slabs st) = KMEM_SLAB_MAX" "length (sl_caches st) = KMEM_CACHE_MAX"
    and i: "i \<in> owned_slabs st c" and c: "c < KMEM_CACHE_MAX"
    and s: "sb_used s = sb_used (slab_at st i)" "sb_owner s = sb_owner (slab_at st i)" "sb_memory s = sb_memory (slab_at st i)"
  defines "st' \<equiv> put_cache c (bump_active a) (put_slab i (\<lambda>_. s) st)"
  shows "live_objects st' c = {object_at st c j k | j k. j \<in> owned_slabs st c \<and> k \<in> (if j = i then taken s else taken (slab_at st j))}"
    and "d \<noteq> c \<Longrightarrow> live_objects st' d = live_objects st d"
proof -
  have il: "i < KMEM_SLAB_MAX" using i by (simp add: owned_slabs_def)
  have sl: "slab_at st' j = (if j = i then s else slab_at st j)" for j using il len by (simp add: st'_def nth_list_update)
  have str: "sc_object_stride (cache_at st' d) = sc_object_stride (cache_at st d)" for d
    using c len by (simp add: st'_def nth_list_update)
  have own: "owned_slabs st' d = owned_slabs st d" for d unfolding owned_slabs_def sl using s by auto
  have ob: "object_at st' d j k = object_at st d j k" for d j k unfolding object_at_def str sl using s(3) by simp
  have tk: "taken (slab_at st' j) = (if j = i then taken s else taken (slab_at st j))" for j unfolding sl by simp
  show "live_objects st' c = {object_at st c j k | j k. j \<in> owned_slabs st c \<and> k \<in> (if j = i then taken s else taken (slab_at st j))}"
    unfolding live_objects_def own ob tk ..
  assume "d \<noteq> c"
  then have "i \<notin> owned_slabs st d" using i by (simp add: owned_slabs_def)
  then show "live_objects st' d = live_objects st d"
    by (intro live_objects_cong own str) (auto simp: sl)
qed

lemma live_in_range:
  "a \<in> live_objects st c \<Longrightarrow> \<exists>i k. a = object_at st c i k \<and> i \<in> owned_slabs st c \<and> k < sb_object_count (slab_at st i) \<and> k \<in> taken (slab_at st i)"
  by (auto simp: live_objects_def taken_def)

text \<open>An object of a slab is in use iff its bit says so.\<close>

lemma object_live_iff:
  assumes "slab_inv st" and "i \<in> owned_slabs st c" and "k < sb_object_count (slab_at st i)"
  shows "object_at st c i k \<in> live_objects st d \<longleftrightarrow> d = c \<and> k \<in> taken (slab_at st i)"
proof
  assume "object_at st c i k \<in> live_objects st d"
  then obtain j l where "object_at st c i k = object_at st d j l" "j \<in> owned_slabs st d" "l < sb_object_count (slab_at st j)" "l \<in> taken (slab_at st j)"
    using live_in_range by blast
  then show "d = c \<and> k \<in> taken (slab_at st i)" using object_at_inject [OF assms, of j d l] by auto
next
  assume "d = c \<and> k \<in> taken (slab_at st i)"
  then show "object_at st c i k \<in> live_objects st d" using assms(2) by (auto simp: live_objects_def)
qed

lemma live_take:
  assumes inv: "slab_inv st" and i: "i \<in> owned_slabs st c" and nf: "sb_state (slab_at st i) \<noteq> KMEM_SLAB_STATE_FULL"
    and core': "core st' = core (put_cache c (bump_active 1) (put_slab i take_slab st))" and d: "d < KMEM_CACHE_MAX"
  shows "live_objects st' d = (if d = c then insert (object_at st c i (sb_free_head (slab_at st i))) (live_objects st c) else live_objects st d)"
proof -
  note o = owned_slab [OF inv i]
  note tk = take_slab_ok [OF o(1) nf]
  let ?w = "put_cache c (bump_active 1) (put_slab i (\<lambda>_. take_slab (slab_at st i)) st)"
  have "live_objects st' d = live_objects ?w d"
    using core' o d by (intro live_objects_core) (simp_all add: put_slab_const [of i take_slab])
  moreover have "live_objects ?w c = insert (object_at st c i (sb_free_head (slab_at st i))) (live_objects st c)"
    unfolding live_objects_put(1) [OF o(11,12) i o(3) tk(5-7)] tk(2) unfolding live_objects_def using i by auto
  ultimately show ?thesis using live_objects_put(2) [OF o(11,12) i o(3) tk(5-7)] by auto
qed

lemma live_give:
  assumes inv: "slab_inv st" and i: "i \<in> owned_slabs st c" and k: "k \<in> taken (slab_at st i)"
    and core': "core st' = core (put_cache c (bump_active (- 1)) (put_slab i (give_slab k) st))" and d: "d < KMEM_CACHE_MAX"
  shows "live_objects st' d = (if d = c then live_objects st c - {object_at st c i k} else live_objects st d)"
proof -
  note o = owned_slab [OF inv i]
  note gv = give_slab_ok [OF o(1) k]
  let ?w = "put_cache c (bump_active (- 1)) (put_slab i (\<lambda>_. give_slab k (slab_at st i)) st)"
  have "live_objects st' d = live_objects ?w d"
    using core' o d by (intro live_objects_core) (simp_all add: put_slab_const [of i "give_slab k"])
  moreover have "live_objects ?w c = live_objects st c - {object_at st c i k}"
  proof -
    have kc: "k < sb_object_count (slab_at st i)" using k by (simp add: taken_def)
    have ne: "object_at st c j l \<noteq> object_at st c i k" if "j \<in> owned_slabs st c" "l \<in> taken (slab_at st j)" "j \<noteq> i \<or> l \<noteq> k" for j l
      using object_at_inject [OF inv that(1) _ i kc] that by (auto simp: taken_def)
    note w = live_objects_put(1) [OF o(11,12) i o(3) gv(5-7), of "- 1", unfolded gv(2)]
    show ?thesis
    proof (intro set_eqI iffI)
      fix x assume "x \<in> live_objects ?w c"
      then obtain j l where x: "x = object_at st c j l" "j \<in> owned_slabs st c"
          "l \<in> (if j = i then taken (slab_at st i) - {k} else taken (slab_at st j))"
        unfolding w by blast
      then have jl: "l \<in> taken (slab_at st j)" "j \<noteq> i \<or> l \<noteq> k" by (auto split: if_splits)
      then show "x \<in> live_objects st c - {object_at st c i k}"
        using ne [OF x(2) jl] x(1,2) by (auto simp: live_objects_def)
    next
      fix x assume "x \<in> live_objects st c - {object_at st c i k}"
      then obtain j l where x: "x = object_at st c j l" "j \<in> owned_slabs st c" "l \<in> taken (slab_at st j)" "j \<noteq> i \<or> l \<noteq> k"
        by (auto simp: live_objects_def)
      then have "l \<in> (if j = i then taken (slab_at st i) - {k} else taken (slab_at st j))" by auto
      with x(1,2) show "x \<in> live_objects ?w c" unfolding w by blast
    qed
  qed
  ultimately show ?thesis using live_objects_put(2) [OF o(11,12) i o(3) gv(5-7), of d "- 1"] by (cases "d = c") simp_all
qed

end
