(* ===== verification/Slab_Contract.thy ===== *)
theory Slab_Contract
  imports Slab_Correct
begin

text \<open>
  What the slab allocator promises its clients: the view of a cache as the set of the
  addresses in use, and for each operation how it changes the views and that it keeps the
  invariant of \<^verbatim>\<open>Slab_Correct\<close>. The reachable states and the properties follow.
\<close>

section \<open>The contract of the allocator\<close>

text \<open>
  What a client sees of a cache: the size and alignment of its objects and the addresses in use.
  An unused entry of the cache table has no view.
\<close>

record cache_view =
  cv_size :: u32
  cv_align :: u32
  cv_live :: "u32 set"

definition slab_view :: "slab_state \<Rightarrow> nat \<Rightarrow> cache_view option" where
  "slab_view st c =
     (if c \<in> used_caches st
      then Some \<lparr>cv_size = sc_object_size (cache_at st c), cv_align = sc_alignment (cache_at st c), cv_live = live_objects st c\<rparr>
      else None)"

lemma slab_view_cong:
  assumes "used_caches st' = used_caches st"
    and "\<And>c. c \<in> used_caches st \<Longrightarrow> sc_object_size (cache_at st' c) = sc_object_size (cache_at st c) \<and>
      sc_alignment (cache_at st' c) = sc_alignment (cache_at st c) \<and> live_objects st' c = live_objects st c"
  shows "slab_view st' = slab_view st"
  using assms by (auto simp: slab_view_def fun_eq_iff)

lemma slab_view_upd:
  assumes "used_caches st' = used_caches st" and "slab_view st c = Some v"
    and "\<And>d. d \<in> used_caches st \<Longrightarrow> sc_object_size (cache_at st' d) = sc_object_size (cache_at st d) \<and>
      sc_alignment (cache_at st' d) = sc_alignment (cache_at st d)"
    and "\<And>d. d \<in> used_caches st \<Longrightarrow> live_objects st' d = (if d = c then L else live_objects st d)"
  shows "slab_view st' = (slab_view st)(c \<mapsto> v\<lparr>cv_live := L\<rparr>)"
  using assms by (auto simp: slab_view_def fun_eq_iff split: if_splits)

lemma slab_view_core:
  assumes "core st' = core st" and "length (sl_slabs st) = KMEM_SLAB_MAX" "length (sl_caches st) = KMEM_CACHE_MAX"
  shows "slab_view st' = slab_view st"
proof (rule slab_view_cong)
  show "used_caches st' = used_caches st" by (rule core_sets(4) [OF assms])
  fix c assume "c \<in> used_caches st"
  then have c: "c < KMEM_CACHE_MAX" by (simp add: used_caches_def)
  then have "cache_core (cache_at st' c) = cache_core (cache_at st c)" using core_eqD(4) [OF assms(1)] assms(3) by simp
  then show "sc_object_size (cache_at st' c) = sc_object_size (cache_at st c) \<and>
      sc_alignment (cache_at st' c) = sc_alignment (cache_at st c) \<and> live_objects st' c = live_objects st c"
    using cache_core_fields(2,3) live_objects_core [OF assms c] by blast
qed

text \<open>Failure counters are no part of the contract.\<close>

definition uncounted :: "kmem_cache \<Rightarrow> kmem_cache" where
  "uncounted e = e\<lparr>sc_allocation_failures := 0, sc_invalid_frees := 0, sc_double_frees := 0\<rparr>"

lemma uncounted_fields:
  assumes "uncounted d = uncounted e"
  shows "sc_object_size d = sc_object_size e" "sc_alignment d = sc_alignment e"
    "sc_object_stride d = sc_object_stride e" "sc_objects_per_slab d = sc_objects_per_slab e"
    "sc_slab_pages d = sc_slab_pages e" "sc_active_objects d = sc_active_objects e" "sc_capacity d = sc_capacity e"
    "sc_slab_count d = sc_slab_count e" "sc_used d = sc_used e" "head_of s d = head_of s e"
  using assms by (simp_all add: uncounted_def kmem_cache.defs head_of_def) (cases d; cases e; simp)+

lemma slab_counters:
  assumes "sl_slabs st' = sl_slabs st" "map uncounted (sl_caches st') = map uncounted (sl_caches st)"
    "sl_cache_count st' = sl_cache_count st" "sl_slab_count st' = sl_slab_count st" "sl_initialized st' = sl_initialized st"
    "sl_pmm st' = sl_pmm st" and inv: "slab_inv st"
  shows "slab_inv st'" and "slab_view st' = slab_view st"
proof -
  have len: "length (sl_caches st) = KMEM_CACHE_MAX" using inv list_inv_lengths(2) by (simp add: slab_inv_def)
  have "uncounted (cache_at st' c) = uncounted (cache_at st c)" if "c < KMEM_CACHE_MAX" for c
    using arg_cong [OF assms(2), of "\<lambda>xs. xs ! c"] that len map_eq_imp_length_eq [OF assms(2)] by simp
  note f = uncounted_fields [OF this]
  have n: "nexts st' = nexts st" "prevs st' = prevs st" by (simp_all add: nexts_def prevs_def fun_eq_iff assms)
  have s: "owned_slabs st' = owned_slabs st" "members st' = members st" "used_slabs st' = used_slabs st"
    "slab_runs st' = slab_runs st" by (simp_all add: fun_eq_iff owned_slabs_def members_def used_slabs_def slab_runs_def assms)
  have u: "used_caches st' = used_caches st" using f(9) by (auto simp: used_caches_def)
  have uc: "c < KMEM_CACHE_MAX" if "c \<in> used_caches st" for c using that by (simp add: used_caches_def)
  have t: "slab_fits st' = slab_fits st"
    unfolding fun_eq_iff slab_fits_def u using f(4,5) uc by auto
  have g: "cache_geometry (cache_at st' c) = cache_geometry (cache_at st c)" "cache_totals st' c = cache_totals st c"
    if "c \<in> used_caches st" for c
    unfolding cache_geometry_def cache_totals_def f [OF uc [OF that]] s assms by simp_all
  have lo: "list_of st' c x = list_of st c x" for c x using f(9) by auto
  obtain ls where ls: "links_ok st ls" "\<And>c x. list_of st c x \<Longrightarrow> set (ls c x) = members st c x"
    using inv by (auto simp: slab_inv_def list_inv_def)
  have "links_ok st' ls"
    using f(9,10) map_eq_imp_length_eq [OF assms(2)] by (intro links_ok_cong [OF ls(1)]) (simp_all add: n assms)
  then have "list_inv st'" unfolding list_inv_def s lo using ls(2) by blast
  moreover have "body_inv st'" using inv g by (simp add: slab_inv_def body_inv_def s t u assms)
  ultimately show "slab_inv st'" by (simp add: slab_inv_def)
  show "slab_view st' = slab_view st"
    using f(1-3) uc by (intro slab_view_cong u) (simp add: live_objects_def object_at_def s assms)
qed

lemma uncounted_update:
  "uncounted (f (cache_at st c)) = uncounted (cache_at st c) \<Longrightarrow> map uncounted (sl_caches (put_cache c f st)) = map uncounted (sl_caches st)"
  by (cases "c < length (sl_caches st)") (simp_all add: map_update list_update_same_conv list_update_beyond)

lemma count_failures:
  assumes "slab_inv st"
  shows "slab_inv (count_alloc_failure c st)" "slab_view (count_alloc_failure c st) = slab_view st"
    "slab_inv (count_invalid_free c st)" "slab_view (count_invalid_free c st) = slab_view st"
    "slab_inv (count_double_free c st)" "slab_view (count_double_free c st) = slab_view st"
    "slab_inv (st\<lparr>sl_allocation_failures := n\<rparr>)" "slab_view (st\<lparr>sl_allocation_failures := n\<rparr>) = slab_view st"
    "slab_inv (st\<lparr>sl_invalid_frees := n\<rparr>)" "slab_view (st\<lparr>sl_invalid_frees := n\<rparr>) = slab_view st"
    "slab_inv (st\<lparr>sl_memory := m\<rparr>)" "slab_view (st\<lparr>sl_memory := m\<rparr>) = slab_view st"
  by (rule slab_counters [OF _ _ _ _ _ _ assms];
    simp add: count_alloc_failure_def count_invalid_free_def count_double_free_def Let_def uncounted_update [unfolded put_simps] uncounted_def)+

section \<open>Allocation\<close>

lemma count_slab_core: "cache_core x = cache_core y \<Longrightarrow> cache_core (count_slab n x) = cache_core (count_slab n y)"
  by (cases x, cases y) (simp add: cache_core_def)

lemma core_count: "core (st\<lparr>sl_slab_count := k\<rparr>) = (core st)\<lparr>sl_slab_count := k\<rparr>"
  by (cases st) (simp add: core_def)

lemma list_inv_ext:
  assumes "sl_slabs st' = sl_slabs st" "sl_caches st' = sl_caches st"
  shows "list_inv st' \<longleftrightarrow> list_inv st"
proof -
  have n: "nexts st' = nexts st" "prevs st' = prevs st" by (simp_all add: nexts_def prevs_def fun_eq_iff assms)
  have s: "members st' = members st" by (simp add: fun_eq_iff owned_slabs_def members_def assms)
  have "links_ok st' ls = links_ok st ls" for ls by (simp add: links_ok_def n assms)
  then show ?thesis by (simp add: list_inv_def s assms)
qed

lemma new_slab_lists:
  fixes pm :: pmm_state and k a :: u32
  assumes l: "list_inv st" and c: "c \<in> used_caches st" and r: "r < KMEM_SLAB_MAX" "\<not> sb_used (slab_at st r)"
  defines "e \<equiv> cache_at st c" and "n \<equiv> unat (sc_objects_per_slab (cache_at st c))"
  defines "st' \<equiv> (put_cache c (count_slab n) (slab_list_add c r KMEM_SLAB_STATE_EMPTY
      (put_slab r (\<lambda>_. fresh_slab c e a) (st\<lparr>sl_pmm := pm\<rparr>))))\<lparr>sl_slab_count := k\<rparr>"
  shows "list_inv st'" and "core st' = core ((put_cache c (count_slab n) (put_slab r (\<lambda>_. fresh_slab c e a) st))
      \<lparr>sl_pmm := pm, sl_slab_count := k\<rparr>)" (is "_ = core ?w")
    and "head_of KMEM_SLAB_STATE_EMPTY (cache_at st' c) = Some r"
proof -
  have len: "length (sl_slabs st) = KMEM_SLAB_MAX" "length (sl_caches st) = KMEM_CACHE_MAX"
    using list_inv_lengths [OF l] by simp_all
  have cl: "c < KMEM_CACHE_MAX" "sc_used (cache_at st c)" using c by (simp_all add: used_caches_def)
  let ?p = "st\<lparr>sl_pmm := pm\<rparr>"
  let ?q = "put_slab r (\<lambda>_. fresh_slab c e a) ?p"
  let ?a = "slab_list_add c r KMEM_SLAB_STATE_EMPTY ?q"
  have E: "KMEM_SLAB_STATE_EMPTY \<in> levels" by (simp add: levels_def)
  have "lists_but r ?p" using l r(2) list_inv_ext [of ?p st] lists_but_unused [of ?p r] by simp
  then have "lists_but r ?q" by (rule lists_put_slab [OF _ r(1)])
  then have la: "list_inv ?a"
    using cl E r len by (intro lists_add) (simp_all add: owned_slabs_def)
  have "list_inv (put_cache c (count_slab n) ?a)" by (rule lists_put_cache(2) [OF _ _ la]) (simp_all add: head_of_def)
  then show "list_inv st'" using list_inv_ext [of st' "put_cache c (count_slab n) ?a"] by (simp add: st'_def)
  have ca: "core ?a = core ?q" using r len by (simp add: core_add put_state_same)
  have "core (put_cache c (count_slab n) ?a) = core (put_cache c (count_slab n) ?q)"
    by (rule core_put_cache_cong [OF ca count_slab_core])
  then have "core st' = core ((put_cache c (count_slab n) ?q)\<lparr>sl_slab_count := k\<rparr>)" unfolding st'_def core_count by simp
  also have "(put_cache c (count_slab n) ?q)\<lparr>sl_slab_count := k\<rparr> = ?w" by (cases st) (simp add: put_cache_def put_slab_def)
  finally show "core st' = core ?w" .
  have "length (sl_caches ?a) = KMEM_CACHE_MAX" using core_eqD(2) [OF ca] len by simp
  moreover have "head_of KMEM_SLAB_STATE_EMPTY (cache_at ?a c) = Some r"
    using cl len E by (simp add: slab_list_add_def Let_def head_of_set_head split: option.split)
  ultimately show "head_of KMEM_SLAB_STATE_EMPTY (cache_at st' c) = Some r"
    using cl by (simp add: st'_def head_of_def slab_states)
qed

lemma new_slab_view:
  assumes inv: "slab_inv st" and c: "c \<in> used_caches st" and r: "r < KMEM_SLAB_MAX" "\<not> sb_used (slab_at st r)"
  defines "e \<equiv> cache_at st c" and "n \<equiv> unat (sc_objects_per_slab (cache_at st c))"
  shows "slab_view ((put_cache c (count_slab n) (put_slab r (\<lambda>_. fresh_slab c e a) st))\<lparr>sl_pmm := pm, sl_slab_count := k\<rparr>) = slab_view st"
    (is "slab_view ?w = _")
proof -
  have len: "length (sl_slabs st) = KMEM_SLAB_MAX" "length (sl_caches st) = KMEM_CACHE_MAX"
    using inv list_inv_lengths by (simp_all add: slab_inv_def)
  have cl: "c < KMEM_CACHE_MAX" using c by (simp add: used_caches_def)
  have g: "cache_geometry e" using inv c by (auto simp: slab_inv_def body_inv_def e_def)
  have sl: "slab_at ?w j = (if j = r then fresh_slab c e a else slab_at st j)" for j using r len by (simp add: nth_list_update)
  have ca: "cache_at ?w d = (if d = c then count_slab n e else cache_at st d)" for d using cl len by (simp add: nth_list_update e_def)
  have own: "owned_slabs ?w d = (if d = c then insert r (owned_slabs st d) else owned_slabs st d)" for d
    unfolding owned_slabs_def sl using r by auto
  have nr: "r \<notin> owned_slabs st d" for d using r by (simp add: owned_slabs_def)
  have str: "sc_object_stride (cache_at ?w d) = sc_object_stride (cache_at st d)" for d unfolding ca by (simp add: e_def)
  have ob: "object_at ?w d j k = object_at st d j k" if "j \<noteq> r" for d j k unfolding object_at_def str sl using that by simp
  have tk: "taken (slab_at ?w j) = (if j = r then {} else taken (slab_at st j))" for j unfolding sl using g by simp
  have live: "live_objects ?w d = live_objects st d" for d
  proof (intro set_eqI iffI)
    fix x assume "x \<in> live_objects ?w d"
    then obtain j k where x: "x = object_at ?w d j k" "j \<in> owned_slabs ?w d" "k \<in> taken (slab_at ?w j)"
      by (auto simp: live_objects_def)
    then have "j \<noteq> r" using tk [of j] by auto
    with x show "x \<in> live_objects st d" unfolding own tk using ob by (auto simp: live_objects_def split: if_splits)
  next
    fix x assume "x \<in> live_objects st d"
    then obtain j k where x: "x = object_at st d j k" "j \<in> owned_slabs st d" "k \<in> taken (slab_at st j)"
      by (auto simp: live_objects_def)
    then have "j \<noteq> r" using nr by auto
    then have "x = object_at ?w d j k" "j \<in> owned_slabs ?w d" "k \<in> taken (slab_at ?w j)"
      using x unfolding own tk by (auto simp: ob)
    then show "x \<in> live_objects ?w d" unfolding live_objects_def by blast
  qed
  show ?thesis
  proof (rule slab_view_cong)
    show "used_caches ?w = used_caches st" unfolding used_caches_def ca by (auto simp: e_def)
    show "sc_object_size (cache_at ?w d) = sc_object_size (cache_at st d) \<and>
      sc_alignment (cache_at ?w d) = sc_alignment (cache_at st d) \<and> live_objects ?w d = live_objects st d" for d
      unfolding ca live by (simp add: e_def)
  qed
qed

text \<open>When a cache can get one more slab, and what it then is.\<close>

definition can_grow :: "nat \<Rightarrow> slab_state \<Rightarrow> bool" where
  "can_grow c st \<longleftrightarrow> slab_find_free_record st \<noteq> None \<and>
     fst (pmm_alloc_pages_in_zone (sl_pmm st) (unat (sc_slab_pages (cache_at st c))) MEMORY_ZONE_SLAB) \<noteq> 0"

lemma prepare_fails:
  assumes inv: "slab_inv st" and "\<not> can_grow c st" and "slab_prepare_record c st = (r, st')"
  shows "r \<noteq> OK" "slab_inv st'" "slab_view st' = slab_view st" "sl_memory st' = sl_memory st"
proof -
  have pinv: "pmm_inv (sl_pmm st)" using inv by (simp add: slab_inv_def body_inv_def)
  obtain a pm where al: "pmm_alloc_pages_in_zone (sl_pmm st) (unat (sc_slab_pages (cache_at st c))) MEMORY_ZONE_SLAB = (a, pm)" by force
  have "r \<noteq> OK \<and> slab_inv st' \<and> slab_view st' = slab_view st \<and> sl_memory st' = sl_memory st"
  proof (cases "slab_find_free_record st")
    case None
    then show ?thesis using assms(3) inv by (auto simp: slab_prepare_record_def)
  next
    case (Some i)
    then have "a = 0" using assms(2) al by (simp add: can_grow_def)
    then have eq: "r = ERR_MEM" "st' = st\<lparr>sl_pmm := pm\<rparr>" using assms(3) Some al by (auto simp: slab_prepare_record_def)
    have "pmm_inv pm" using pmm_alloc_inv [OF pinv, of "unat (sc_slab_pages (cache_at st c))" MEMORY_ZONE_SLAB] al by simp
    moreover have "owned_set pm = owned_set (sl_pmm st)" using slab_pages.alloc_none [OF pinv] al \<open>a = 0\<close> by blast
    ultimately have "slab_inv st'" unfolding eq by (rule slab_inv_pmm [OF inv])
    moreover have "slab_view st' = slab_view st"
      unfolding eq by (rule slab_view_cong) (simp_all add: used_caches_def live_objects_def owned_slabs_def object_at_def)
    ultimately show ?thesis using eq by simp
  qed
  then show "r \<noteq> OK" "slab_inv st'" "slab_view st' = slab_view st" "sl_memory st' = sl_memory st" by simp_all
qed

lemma prepare_grows:
  assumes inv: "slab_inv st" and c: "c \<in> used_caches st" and g: "can_grow c st" and p: "slab_prepare_record c st = (res, st')"
  obtains r where "res = OK" "slab_inv st'" "slab_view st' = slab_view st" "sl_memory st' = sl_memory st"
    "sc_empty_head (cache_at st' c) = Some r" "r \<in> owned_slabs st' c" "sb_state (slab_at st' r) = KMEM_SLAB_STATE_EMPTY"
proof -
  have b: "body_inv st" and l: "list_inv st" using inv by (simp_all add: slab_inv_def)
  have len: "length (sl_slabs st) = KMEM_SLAB_MAX" "length (sl_caches st) = KMEM_CACHE_MAX"
    using list_inv_lengths [OF l] by simp_all
  obtain r where r0: "slab_find_free_record st = Some r" using g by (auto simp: can_grow_def)
  then have r: "r < KMEM_SLAB_MAX" "\<not> sb_used (slab_at st r)"
    using first_index_SomeD [of "\<lambda>s. \<not> sb_used s" "sl_slabs st" r] len by (auto simp: slab_find_free_record_def)
  obtain a pm where al: "pmm_alloc_pages_in_zone (sl_pmm st) (unat (sc_slab_pages (cache_at st c))) MEMORY_ZONE_SLAB = (a, pm)"
    "a \<noteq> 0" using g by (auto simp: can_grow_def split: prod.splits) (metis prod.collapse)
  let ?e = "cache_at st c" and ?n = "unat (sc_objects_per_slab (cache_at st c))"
  let ?w = "(put_cache c (count_slab ?n) (put_slab r (\<lambda>_. fresh_slab c ?e a) st))\<lparr>sl_pmm := pm, sl_slab_count := sl_slab_count st + 1\<rparr>"
  define st2 where "st2 = (put_cache c (count_slab ?n) (slab_list_add c r KMEM_SLAB_STATE_EMPTY
      (put_slab r (\<lambda>_. fresh_slab c ?e a) (st\<lparr>sl_pmm := pm\<rparr>))))\<lparr>sl_slab_count := sl_slab_count st + 1\<rparr>"
  note nl = new_slab_lists [OF l c r, where a = a and pm = pm and k = "sl_slab_count st + 1", folded st2_def]
  have "sl_slab_count (slab_list_add c r KMEM_SLAB_STATE_EMPTY (put_slab r (\<lambda>_. fresh_slab c ?e a) (st\<lparr>sl_pmm := pm\<rparr>))) = sl_slab_count st"
    using core_eqD(6) [OF core_add] by simp
  then have eq: "res = OK" "st' = st2"
    using p r0 al by (simp_all add: slab_prepare_record_def st2_def fresh_slab_def Let_def)
  have wl: "length (sl_slabs ?w) = KMEM_SLAB_MAX" "length (sl_caches ?w) = KMEM_CACHE_MAX" using len by simp_all
  have "body_inv st2" by (rule body_inv_core [OF nl(2) wl body_new_slab [OF b len c r al]])
  then have "slab_inv st'" using nl(1) eq by (simp add: slab_inv_def)
  moreover have "slab_view st' = slab_view st"
    unfolding eq slab_view_core [OF nl(2) wl] by (rule new_slab_view [OF inv c r])
  moreover have "sl_memory st' = sl_memory st" using core_eqD(9) [OF nl(2)] eq by simp
  moreover have h: "sc_empty_head (cache_at st' c) = Some r"
    using nl(3) eq by (simp add: head_of_def slab_states)
  moreover have "r \<in> members st' c KMEM_SLAB_STATE_EMPTY"
  proof (rule head_in_members)
    show "list_inv st'" using nl(1) eq by simp
    have "c \<in> used_caches st'" using core_sets(4) [OF nl(2) wl] c len eq by (auto simp: used_caches_def nth_list_update)
    then show "list_of st' c KMEM_SLAB_STATE_EMPTY" by (simp add: used_caches_def levels_def)
    show "head_of KMEM_SLAB_STATE_EMPTY (cache_at st' c) = Some r" using nl(3) eq by simp
  qed
  ultimately show ?thesis using that eq(1) by (simp add: members_def)
qed

lemma view_live: "slab_view st d = Some w \<Longrightarrow> cv_live w = live_objects st d \<and> cv_size w = sc_object_size (cache_at st d) \<and>
    cv_align w = sc_alignment (cache_at st d) \<and> d \<in> used_caches st"
  by (auto simp: slab_view_def split: if_splits)

lemma registered_iff: "slab_cache_registered st (Some c) \<longleftrightarrow> c \<in> used_caches st"
  by (auto simp: slab_cache_registered_def list_ex_iff used_caches_def)

text \<open>A successful allocation, as the client sees it.\<close>

definition handed_out :: "slab_state \<Rightarrow> nat \<Rightarrow> u32 \<Rightarrow> slab_state \<Rightarrow> bool" where
  "handed_out st c a st' \<longleftrightarrow>
     (\<exists>v. slab_view st c = Some v \<and> slab_view st' = (slab_view st)(c \<mapsto> v\<lparr>cv_live := insert a (cv_live v)\<rparr>) \<and>
        a \<noteq> 0 \<and> (\<forall>d w. slab_view st d = Some w \<longrightarrow> a \<notin> cv_live w) \<and> unat (cv_align v) dvd unat a \<and>
        sl_memory st' = zero_object a (cv_size v) (sl_memory st))"

lemma take_object_handed_out:
  assumes inv: "slab_inv st" and i: "i \<in> owned_slabs st c" and nf: "sb_state (slab_at st i) \<noteq> KMEM_SLAB_STATE_FULL"
    and t: "take_object c i st = (a, st')"
  shows "slab_inv st'" and "handed_out st c a st'"
proof -
  note o = owned_slab [OF inv i]
  let ?k = "sb_free_head (slab_at st i)"
  obtain s where s: "take_object c i st = (object_at st c i ?k,
      s\<lparr>sl_memory := zero_object (object_at st c i ?k) (sc_object_size (cache_at st c)) (sl_memory st)\<rparr>)"
    "core s = core (put_cache c (bump_active 1) (put_slab i take_slab st))" "slab_inv s"
    using take_object_result [OF inv i nf] by blast
  then have eq: "a = object_at st c i ?k" "st' = s\<lparr>sl_memory := zero_object a (sc_object_size (cache_at st c)) (sl_memory st)\<rparr>"
    using t by simp_all
  show "slab_inv st'" unfolding eq using count_failures(11) [OF s(3)] .
  have k: "?k < sb_object_count (slab_at st i)" by (rule free_head_in_range [OF o(1) nf])
  have nt: "?k \<notin> taken (slab_at st i)" by (rule take_slab_ok(3) [OF o(1) nf])
  have fresh: "a \<notin> live_objects st d" for d
    unfolding eq(1) object_live_iff [OF inv i k] using nt by simp
  let ?w = "put_cache c (bump_active 1) (put_slab i take_slab st)"
  have wl: "length (sl_slabs ?w) = KMEM_SLAB_MAX" "length (sl_caches ?w) = KMEM_CACHE_MAX" using o by simp_all
  have uc: "used_caches s = used_caches st"
    unfolding core_sets(4) [OF s(2) wl] using o by (auto simp: used_caches_def nth_list_update)
  obtain v where v: "slab_view st c = Some v" using o(2) by (simp add: slab_view_def)
  have cl: "cv_live v = live_objects st c" using view_live [OF v] by simp
  have "slab_view st' = slab_view s" unfolding eq(2) by (rule count_failures(12) [OF s(3)])
  also have "\<dots> = (slab_view st)(c \<mapsto> v\<lparr>cv_live := insert a (cv_live v)\<rparr>)"
  proof (rule slab_view_upd [OF uc v])
    fix d assume "d \<in> used_caches st"
    then have d: "d < KMEM_CACHE_MAX" by (simp add: used_caches_def)
    then have "cache_core (cache_at s d) = cache_core (cache_at ?w d)" using core_eqD(4) [OF s(2), of d] wl by simp
    then show "sc_object_size (cache_at s d) = sc_object_size (cache_at st d) \<and> sc_alignment (cache_at s d) = sc_alignment (cache_at st d)"
      using cache_core_fields(2,3) [of "cache_at s d" "cache_at ?w d"] o d by (auto simp: nth_list_update)
    show "live_objects s d = (if d = c then insert a (cv_live v) else live_objects st d)"
      unfolding live_take [OF inv i nf s(2) d] eq(1) cl by simp
  qed
  finally show "handed_out st c a st'"
    unfolding handed_out_def using v fresh view_live object_aligned [OF inv i k] object_at_range(4) [OF inv i k] eq
    by (intro exI [of _ v]) auto
qed

lemma handed_out_transfer:
  "slab_view s = slab_view st \<Longrightarrow> sl_memory s = sl_memory st \<Longrightarrow> handed_out s c a st' \<Longrightarrow> handed_out st c a st'"
  by (simp add: handed_out_def)

definition has_room :: "nat \<Rightarrow> slab_state \<Rightarrow> bool" where
  "has_room c st \<longleftrightarrow> (\<exists>i \<in> owned_slabs st c. sb_state (slab_at st i) \<noteq> KMEM_SLAB_STATE_FULL)"

text \<open>The slab \<^verbatim>\<open>kmem_cache_alloc\<close> starts from: the first partial one, else the first empty one.\<close>

lemma slab_choice:
  assumes inv: "slab_inv st" and c: "c \<in> used_caches st"
  defines "x \<equiv> if sc_partial_head (cache_at st c) = None then sc_empty_head (cache_at st c) else sc_partial_head (cache_at st c)"
  shows "x = None \<longleftrightarrow> \<not> has_room c st"
    and "x = Some i \<Longrightarrow> i \<in> owned_slabs st c \<and> i < KMEM_SLAB_MAX \<and> sb_state (slab_at st i) \<noteq> KMEM_SLAB_STATE_FULL"
proof -
  have l: "list_inv st" using inv by (simp add: slab_inv_def)
  have lo: "list_of st c KMEM_SLAB_STATE_PARTIAL" "list_of st c KMEM_SLAB_STATE_EMPTY"
    using c by (simp_all add: used_caches_def levels_def)
  have h: "head_of KMEM_SLAB_STATE_PARTIAL e = sc_partial_head e" "head_of KMEM_SLAB_STATE_EMPTY e = sc_empty_head e" for e
    by (simp_all add: head_of_def slab_states)
  note hm = head_in_members [OF l lo(1), unfolded h] head_in_members [OF l lo(2), unfolded h]
  have ne: "KMEM_SLAB_STATE_PARTIAL \<noteq> KMEM_SLAB_STATE_FULL" "KMEM_SLAB_STATE_EMPTY \<noteq> KMEM_SLAB_STATE_FULL"
    by (simp_all add: slab_states)
  show some: "i \<in> owned_slabs st c \<and> i < KMEM_SLAB_MAX \<and> sb_state (slab_at st i) \<noteq> KMEM_SLAB_STATE_FULL" if "x = Some i" for i
    using that hm ne by (auto simp: x_def members_def owned_slabs_def split: if_splits)
  show "x = None \<longleftrightarrow> \<not> has_room c st"
  proof
    assume "x = None"
    then have m: "members st c KMEM_SLAB_STATE_PARTIAL = {}" "members st c KMEM_SLAB_STATE_EMPTY = {}"
      using head_none_members [OF l lo(1), unfolded h] head_none_members [OF l lo(2), unfolded h]
      by (auto simp: x_def split: if_splits)
    show "\<not> has_room c st"
    proof
      assume "has_room c st"
      then obtain j where j: "j \<in> owned_slabs st c" "sb_state (slab_at st j) \<noteq> KMEM_SLAB_STATE_FULL" by (auto simp: has_room_def)
      have "sb_state (slab_at st j) = slab_level (sb_active_objects (slab_at st j)) (sb_object_count (slab_at st j))"
        using owned_slab(1) [OF inv j(1)] by (simp add: slab_ok_def)
      then show False using j m by (auto simp: members_def slab_level_def split: if_splits)
    qed
  next
    assume "\<not> has_room c st"
    then show "x = None" using some by (cases x) (auto simp: has_room_def)
  qed
qed

lemma alloc_cases:
  assumes inv: "slab_inv st" and al: "kmem_cache_alloc st cache = (a, st')"
  shows "slab_inv st'"
    and "(\<exists>c \<in> used_caches st. cache = Some c \<and> sl_paging_ready st \<and> (has_room c st \<or> can_grow c st) \<and> handed_out st c a st') \<or>
      (\<forall>c \<in> used_caches st. cache = Some c \<longrightarrow> \<not> (sl_paging_ready st \<and> (has_room c st \<or> can_grow c st))) \<and>
        a = 0 \<and> slab_view st' = slab_view st \<and> sl_memory st' = sl_memory st"
proof -
  have init: "sl_initialized st" using inv by (simp add: slab_inv_def body_inv_def)
  have mem: "sl_memory (count_alloc_failure c s) = sl_memory s" for c s by (simp add: count_alloc_failure_def Let_def)
  have "slab_inv st' \<and> ((\<exists>c \<in> used_caches st. cache = Some c \<and> sl_paging_ready st \<and> (has_room c st \<or> can_grow c st) \<and> handed_out st c a st') \<or>
      (\<forall>c \<in> used_caches st. cache = Some c \<longrightarrow> \<not> (sl_paging_ready st \<and> (has_room c st \<or> can_grow c st))) \<and>
        a = 0 \<and> slab_view st' = slab_view st \<and> sl_memory st' = sl_memory st)"
  proof (cases "slab_cache_registered st cache")
    case False
    then have "a = 0 \<and> st' = st\<lparr>sl_allocation_failures := sl_allocation_failures st + 1\<rparr>" "\<forall>c \<in> used_caches st. cache \<noteq> Some c"
      using al registered_iff by (auto simp: kmem_cache_alloc_def)
    then show ?thesis using count_failures(7,8) [OF inv] by auto
  next
    case reg: True
    then obtain c where c: "cache = Some c" "c \<in> used_caches st"
      using registered_iff by (cases cache) (auto simp: slab_cache_registered_def)
    show ?thesis
    proof (cases "sl_paging_ready st")
      case False
      then have "a = 0 \<and> st' = count_alloc_failure c st" using al reg c init by (auto simp: kmem_cache_alloc_def Let_def)
      then show ?thesis using False count_failures(1,2) [OF inv] mem c by auto
    next
      case pr: True
      define x where "x = (if sc_partial_head (cache_at st c) = None then sc_empty_head (cache_at st c) else sc_partial_head (cache_at st c))"
      note ch = slab_choice [OF inv c(2), folded x_def]
      have body: "(a, st') = (case if x = None then slab_prepare_record c st else (OK, st) of (r, s) \<Rightarrow>
          if r \<noteq> OK then (0, count_alloc_failure c s)
          else case (if x = None then sc_empty_head (cache_at s c) else x) of
            None \<Rightarrow> (0, count_alloc_failure c s)
          | Some i \<Rightarrow> if i \<ge> KMEM_SLAB_MAX then (0, count_alloc_failure c s) else take_object c i s)"
      proof -
        have cond: "\<not> (\<not> sl_initialized st \<or> \<not> slab_cache_registered st (Some c))" "\<not> \<not> sl_paging_ready st"
          using init reg c pr by simp_all
        show ?thesis
          using al unfolding kmem_cache_alloc_def Let_def c(1) option.sel if_not_P [OF cond(1)] if_not_P [OF cond(2)] x_def
          by (rule sym)
      qed
      show ?thesis
      proof (cases x)
        case (Some i)
        have i: "i \<in> owned_slabs st c" "i < KMEM_SLAB_MAX" "sb_state (slab_at st i) \<noteq> KMEM_SLAB_STATE_FULL"
          using ch(2) [OF Some] by auto
        then have "take_object c i st = (a, st')" using body Some by simp
        then show ?thesis using take_object_handed_out [OF inv i(1,3)] ch(1) Some c pr by auto
      next
        case None
        then have nr: "\<not> has_room c st" using ch(1) by simp
        obtain r s where p: "slab_prepare_record c st = (r, s)" by force
        show ?thesis
        proof (cases "can_grow c st")
          case False
          note pf = prepare_fails [OF inv False p]
          have "a = 0 \<and> st' = count_alloc_failure c s" using body None p pf(1) by simp
          then show ?thesis using False nr c pf count_failures(1,2) [OF pf(2)] mem by auto
        next
          case True
          then obtain i where i: "r = OK" "slab_inv s" "slab_view s = slab_view st" "sl_memory s = sl_memory st"
            "sc_empty_head (cache_at s c) = Some i" "i \<in> owned_slabs s c" "sb_state (slab_at s i) = KMEM_SLAB_STATE_EMPTY"
            using prepare_grows [OF inv c(2) True p] by blast
          have "\<not> KMEM_SLAB_MAX \<le> i" using i(6) by (simp add: owned_slabs_def)
          then have t: "take_object c i s = (a, st')" using body None p i(1,5) by simp
          have "sb_state (slab_at s i) \<noteq> KMEM_SLAB_STATE_FULL" using i(7) by (simp add: slab_states)
          note h = take_object_handed_out [OF i(2,6) this t]
          then show ?thesis using handed_out_transfer [OF i(3,4) h(2)] True c pr by auto
        qed
      qed
    qed
  qed
  then show "slab_inv st'"
    "(\<exists>c \<in> used_caches st. cache = Some c \<and> sl_paging_ready st \<and> (has_room c st \<or> can_grow c st) \<and> handed_out st c a st') \<or>
      (\<forall>c \<in> used_caches st. cache = Some c \<longrightarrow> \<not> (sl_paging_ready st \<and> (has_room c st \<or> can_grow c st))) \<and>
        a = 0 \<and> slab_view st' = slab_view st \<and> sl_memory st' = sl_memory st" by blast+
qed

section \<open>Freeing\<close>

text \<open>A free of an object in use reaches the tail of \<^verbatim>\<open>kmem_cache_free\<close>.\<close>

lemma free_is_give:
  assumes inv: "slab_inv st" and i: "i \<in> owned_slabs st c" and k: "k \<in> taken (slab_at st i)"
  shows "kmem_cache_free st (Some c) (object_at st c i k) = give_object c i k st"
proof -
  note o = owned_slab [OF inv i]
  have init: "sl_initialized st" using inv by (simp add: slab_inv_def body_inv_def)
  have kc: "k < sb_object_count (slab_at st i)" "slab_bit_is_set (slab_at st i) k" using k by (simp_all add: taken_def)
  have "card (taken (slab_at st i)) = sb_active_objects (slab_at st i)" using o(1) by (simp add: slab_ok_def slab_body_def)
  then have "0 < sb_active_objects (slab_at st i)" "sb_active_objects (slab_at st i) \<le> sb_object_count (slab_at st i)"
    using card_taken_le [of "slab_at st i"] give_slab_ok(4) [OF o(1) k] by simp_all
  then show ?thesis
    using init registered_iff o(2) location_object [OF inv i kc(1)] kc(2) object_at_range(4) [OF inv i kc(1)]
    by (simp add: kmem_cache_free_def)
qed

lemma free_live:
  assumes inv: "slab_inv st" and v: "slab_view st c = Some v" and a: "a \<in> cv_live v"
  shows "slab_inv (kmem_cache_free st (Some c) a)"
    and "slab_view (kmem_cache_free st (Some c) a) = (slab_view st)(c \<mapsto> v\<lparr>cv_live := cv_live v - {a}\<rparr>)"
proof -
  have vl: "cv_live v = live_objects st c" "c \<in> used_caches st" using view_live [OF v] by auto
  then obtain i k where ik: "a = object_at st c i k" "i \<in> owned_slabs st c" "k < sb_object_count (slab_at st i)" "k \<in> taken (slab_at st i)"
    using live_in_range [of a st c] a by blast
  note o = owned_slab [OF inv ik(2)]
  note eq = free_is_give [OF inv ik(2,4), folded ik(1)]
  note g = give_object_result [OF inv ik(2,4)]
  show "slab_inv (kmem_cache_free st (Some c) a)" unfolding eq by (rule g)
  let ?w = "put_cache c (bump_active (- 1)) (put_slab i (give_slab k) st)"
  have wl: "length (sl_slabs ?w) = KMEM_SLAB_MAX" "length (sl_caches ?w) = KMEM_CACHE_MAX" using o by simp_all
  show "slab_view (kmem_cache_free st (Some c) a) = (slab_view st)(c \<mapsto> v\<lparr>cv_live := cv_live v - {a}\<rparr>)"
    unfolding eq
  proof (rule slab_view_upd [OF _ v])
    show "used_caches (give_object c i k st) = used_caches st"
      unfolding core_sets(4) [OF g(2) wl] using o by (auto simp: used_caches_def nth_list_update)
    fix d assume "d \<in> used_caches st"
    then have d: "d < KMEM_CACHE_MAX" by (simp add: used_caches_def)
    then have "cache_core (cache_at (give_object c i k st) d) = cache_core (cache_at ?w d)" using core_eqD(4) [OF g(2), of d] wl by simp
    then show "sc_object_size (cache_at (give_object c i k st) d) = sc_object_size (cache_at st d) \<and>
        sc_alignment (cache_at (give_object c i k st) d) = sc_alignment (cache_at st d)"
      using cache_core_fields(2,3) [of "cache_at (give_object c i k st) d" "cache_at ?w d"] o d by (auto simp: nth_list_update)
    show "live_objects (give_object c i k st) d = (if d = c then cv_live v - {a} else live_objects st d)"
      unfolding live_give [OF inv ik(2,4) g(2) d] ik(1) vl(1) by simp
  qed
qed

text \<open>Every other free is refused, counted, and changes nothing else.\<close>

lemma free_refused:
  assumes inv: "slab_inv st" and no: "\<And>c v. cache = Some c \<Longrightarrow> slab_view st c = Some v \<Longrightarrow> a \<notin> cv_live v"
  shows "slab_inv (kmem_cache_free st cache a)" and "slab_view (kmem_cache_free st cache a) = slab_view st"
proof -
  let ?r = "kmem_cache_free st cache a"
  have "?r = st\<lparr>sl_invalid_frees := sl_invalid_frees st + 1\<rparr> \<or> (\<exists>c. ?r = count_invalid_free c st \<or> ?r = count_double_free c st)"
  proof (cases "\<not> sl_initialized st \<or> \<not> slab_cache_registered st cache \<or> a = 0")
    case True
    then show ?thesis unfolding kmem_cache_free_def if_P [OF True] by simp
  next
    case False
    then obtain c where c: "cache = Some c" "c \<in> used_caches st"
      using registered_iff by (cases cache) (auto simp: slab_cache_registered_def)
    have nl: "a \<notin> live_objects st c" using no [OF c(1)] c(2) by (simp add: slab_view_def)
    have "\<not> slab_bit_is_set (slab_at st i) k" if "slab_object_location st cache a = Some (i, k)" for i k
      using location_sound [OF inv c(2), of a i k] that nl c(1) by (auto simp: live_objects_def taken_def)
    then show ?thesis using c by (auto simp: kmem_cache_free_def Let_def split: option.splits)
  qed
  then show "slab_inv ?r" "slab_view ?r = slab_view st" using count_failures(3-6,9,10) [OF inv] by auto
qed

section \<open>Destroying a cache\<close>

text \<open>The body invariant while the totals of cache \<open>c\<close> are out of date.\<close>

definition body_but :: "nat \<Rightarrow> slab_state \<Rightarrow> bool" where
  "body_but c st \<longleftrightarrow>
     sl_initialized st \<and>
     (\<forall>i \<in> used_slabs st. slab_ok (slab_at st i) \<and> slab_fits st (slab_at st i)) \<and>
     (\<forall>d \<in> used_caches st. cache_geometry (cache_at st d) \<and> (d \<noteq> c \<longrightarrow> cache_totals st d)) \<and>
     sl_cache_count st = word_of_nat (card (used_caches st)) \<and>
     sl_slab_count st = word_of_nat (card (used_slabs st)) \<and>
     pmm_inv (sl_pmm st) \<and> holds_runs (owned_set (sl_pmm st)) (slab_runs st)"

lemma body_but_inv: "body_inv st \<Longrightarrow> body_but c st"
  unfolding body_inv_def body_but_def by blast

abbreviation slab_pages_of :: "slab_state \<Rightarrow> nat \<Rightarrow> nat set" where
  "slab_pages_of st i \<equiv> page_run (sb_memory (slab_at st i)) (unat (sb_pages (slab_at st i)))"

text \<open>One slab goes: everything but the totals of its cache follows.\<close>

lemma destroy_slab_state:
  assumes l: "list_inv st" and b: "body_but c st" and i: "i \<in> owned_slabs st c" and c: "c \<in> used_caches st"
  defines "st' \<equiv> destroy_slab c i st"
  shows "list_inv st'" 
    and "j < KMEM_SLAB_MAX \<Longrightarrow> slab_core (slab_at st' j) = (if j = i then slab_core kmem_slab_zero else slab_core (slab_at st j))"
    and "d < KMEM_CACHE_MAX \<Longrightarrow> cache_core (cache_at st' d) = cache_core (cache_at st d)"
    and "sl_pmm st' = pmm_free_pages (sl_pmm st) (sb_memory (slab_at st i)) (unat (sb_pages (slab_at st i)))"
    and "sl_slab_count st' = sl_slab_count st - 1" "sl_cache_count st' = sl_cache_count st"
      "sl_initialized st' = sl_initialized st" "sl_memory st' = sl_memory st"
proof -
  have len: "length (sl_slabs st) = KMEM_SLAB_MAX" "length (sl_caches st) = KMEM_CACHE_MAX"
    using list_inv_lengths [OF l] by simp_all
  have il: "i < KMEM_SLAB_MAX" "sb_used (slab_at st i)" "sb_owner (slab_at st i) = Some c" using i by (simp_all add: owned_slabs_def)
  have "slab_ok (slab_at st i)" using b i by (auto simp: body_but_def used_slabs_def owned_slabs_def)
  then have "sb_state (slab_at st i) \<in> levels" by (auto simp: slab_ok_def slab_level_def levels_def)
  then have lo: "list_of st c (sb_state (slab_at st i))" using c by (simp add: used_caches_def)
  let ?r = "slab_list_remove c i st"
  let ?z = "put_slab i (\<lambda>_. kmem_slab_zero) ?r"
  note e = core_eqD [OF core_remove [of c i st]]
  have "lists_but i ?z"
    using i by (intro lists_put_slab lists_remove [OF l lo] il(1)) (simp add: members_def)
  then have "list_inv ?z" using lists_but_unused [of ?z i] e(1) il len by (simp add: kmem_slab_zero_def)
  moreover have eq: "st' = ?z\<lparr>sl_pmm := pmm_free_pages (sl_pmm ?r) (sb_memory (slab_at st i)) (unat (sb_pages (slab_at st i))),
      sl_slab_count := sl_slab_count ?r - 1\<rparr>"
    using il by (simp add: st'_def destroy_slab_def Let_def put_slab_def)
  ultimately show "list_inv st'" using list_inv_ext [of st' ?z] by simp
  show "slab_core (slab_at st' j) = (if j = i then slab_core kmem_slab_zero else slab_core (slab_at st j))" if "j < KMEM_SLAB_MAX"
    using that e(1,3) il len by (simp add: eq nth_list_update)
  show "cache_core (cache_at st' d) = cache_core (cache_at st d)" if "d < KMEM_CACHE_MAX"
    using that e(2,4) len by (simp add: eq)
  show "sl_pmm st' = pmm_free_pages (sl_pmm st) (sb_memory (slab_at st i)) (unat (sb_pages (slab_at st i)))"
    "sl_slab_count st' = sl_slab_count st - 1" "sl_cache_count st' = sl_cache_count st"
    "sl_initialized st' = sl_initialized st" "sl_memory st' = sl_memory st"
    using e by (simp_all add: eq)
qed

lemma destroy_slab_sets:
  assumes l: "list_inv st" and b: "body_but c st" and i: "i \<in> owned_slabs st c" and c: "c \<in> used_caches st"
  defines "st' \<equiv> destroy_slab c i st"
  shows "owned_slabs st' d = owned_slabs st d - {i}" "used_slabs st' = used_slabs st - {i}" "used_caches st' = used_caches st"
    and "slab_runs st' = (slab_runs st)(i := None)"
    and "j \<in> used_slabs st' \<Longrightarrow> slab_core (slab_at st' j) = slab_core (slab_at st j)"
proof -
  note s = destroy_slab_state [OF l b i c, folded st'_def]
  have z: "sb_used (slab_at st' j) \<longleftrightarrow> sb_used (slab_at st j) \<and> j \<noteq> i" if "j < KMEM_SLAB_MAX" for j
    using slab_core_fields(8) [of "slab_at st' j"] s(2) [OF that] by (auto simp: kmem_slab_zero_def split: if_splits)
  have o: "sb_owner (slab_at st' j) = sb_owner (slab_at st j)" "sb_memory (slab_at st' j) = sb_memory (slab_at st j)"
     "sb_pages (slab_at st' j) = sb_pages (slab_at st j)" if "j < KMEM_SLAB_MAX" "j \<noteq> i" for j
    using slab_core_fields(1-3) [of "slab_at st' j" "slab_at st j"] s(2) [OF that(1)] that(2) by simp_all
  show "owned_slabs st' d = owned_slabs st d - {i}" using z o by (auto simp: owned_slabs_def)
  show us: "used_slabs st' = used_slabs st - {i}" using z by (auto simp: used_slabs_def)
  show "used_caches st' = used_caches st"
    using cache_core_fields(10) [OF s(3)] by (auto simp: used_caches_def)
  show "slab_runs st' = (slab_runs st)(i := None)"
    unfolding slab_runs_def us using o by (auto simp: fun_eq_iff used_slabs_def)
  show "slab_core (slab_at st' j) = slab_core (slab_at st j)" if "j \<in> used_slabs st'"
    using that s(2) [of j] unfolding us by (simp add: used_slabs_def)
qed

lemma destroy_slab_step:
  assumes l: "list_inv st" and b: "body_but c st" and i: "i \<in> owned_slabs st c" and c: "c \<in> used_caches st"
  defines "st' \<equiv> destroy_slab c i st"
  shows "body_but c st'" and "d \<noteq> c \<Longrightarrow> slab_view st' d = slab_view st d"
    and "owned_set (sl_pmm st') = owned_set (sl_pmm st) - slab_pages_of st i"
proof -
  note s = destroy_slab_state [OF l b i c, folded st'_def]
  note t = destroy_slab_sets [OF l b i c, folded st'_def]
  have iu: "i \<in> used_slabs st" using i by (simp add: owned_slabs_def used_slabs_def)
  have cc: "cache_core (cache_at st' d) = cache_core (cache_at st d)" if "d \<in> used_caches st" for d
    using s(3) that by (simp add: used_caches_def)
  have own: "owned_slabs st' d = owned_slabs st d" if "d \<noteq> c" for d using t(1) [of d] i that by (auto simp: owned_slabs_def)
  have oc: "slab_core (slab_at st' j) = slab_core (slab_at st j)" if "j \<in> owned_slabs st' d" for d j
    using that t(5) by (auto simp: owned_slabs_def used_slabs_def)
  have ok: "slab_ok (slab_at st' j) \<and> slab_fits st' (slab_at st' j)" if "j \<in> used_slabs st'" for j
  proof -
    have j: "slab_ok (slab_at st j)" "slab_fits st (slab_at st j)" using that b t(2) by (auto simp: body_but_def)
    have "slab_ok (slab_at st' j)" using j(1) slab_ok_core t(5) [OF that] by metis
    moreover have "slab_fits st' (slab_at st' j)"
      using j(2) slab_core_fields(1,3,4) [OF t(5) [OF that]] cache_core_fields(5,6) [OF cc] unfolding slab_fits_def t(3) by auto
    ultimately show ?thesis ..
  qed
  have ge: "cache_geometry (cache_at st' d)" if "d \<in> used_caches st" for d
    using b that unfolding cache_geometry_def body_but_def cache_core_fields [OF cc [OF that]] by blast
  have to: "cache_totals st' d" if "d \<in> used_caches st" "d \<noteq> c" for d
  proof -
    have sums: "(\<Sum>j \<in> owned_slabs st d. sb_active_objects (slab_at st' j)) = (\<Sum>j \<in> owned_slabs st d. sb_active_objects (slab_at st j))"
        "(\<Sum>j \<in> owned_slabs st d. sb_object_count (slab_at st' j)) = (\<Sum>j \<in> owned_slabs st d. sb_object_count (slab_at st j))"
      using slab_core_fields(4,5) [OF oc [of _ d, unfolded own [OF that(2)]]] by (simp_all cong: sum.cong)
    have "cache_totals st d" using b that by (simp add: body_but_def)
    then show ?thesis unfolding cache_totals_def own [OF that(2)] sums cache_core_fields [OF cc [OF that(1)]] .
  qed
  have runs: "slab_runs st i = Some (sb_memory (slab_at st i), unat (sb_pages (slab_at st i)))" using iu by (simp add: slab_runs_def)
  have pinv: "pmm_inv (sl_pmm st)" "holds_runs (owned_set (sl_pmm st)) (slab_runs st)" using b by (simp_all add: body_but_def)
  have "holds_runs (owned_set (sl_pmm st')) (slab_runs st')"
    unfolding s(4) t(4) by (rule slab_pages.hold_drop [OF pinv runs])
  moreover have "pmm_inv (sl_pmm st')" unfolding s(4) by (rule slab_pages.free_inv [OF pinv(1)])
  moreover have "word_of_nat (card (used_slabs st)) - 1 = (word_of_nat (card (used_slabs st - {i})) :: u32)"
    using card.remove [OF finite_slab_sets(3) iu] by simp
  ultimately show "body_but c st'"
    using b ok ge to unfolding body_but_def s(5-7) t(3) unfolding t(2) by simp
  show "owned_set (sl_pmm st') = owned_set (sl_pmm st) - slab_pages_of st i"
    unfolding s(4) by (rule slab_pages.free_run [OF pinv(1) holds_runsD(1) [OF pinv(2) runs]])
  assume d: "d \<noteq> c"
  show "slab_view st' d = slab_view st d"
  proof (cases "d \<in> used_caches st")
    case True
    have "live_objects st' d = live_objects st d"
    proof (rule live_objects_cong [OF own [OF d]])
      fix j assume "j \<in> owned_slabs st d"
      then have "slab_core (slab_at st' j) = slab_core (slab_at st j)" by (intro oc [of j d]) (simp only: own [OF d])
      then show "sb_memory (slab_at st' j) = sb_memory (slab_at st j) \<and> taken (slab_at st' j) = taken (slab_at st j)"
        using slab_core_fields(2) taken_core by blast
    qed (rule cache_core_fields(4) [OF cc [OF True]])
    then show ?thesis using True cache_core_fields(2,3) [OF cc [OF True]] by (simp add: slab_view_def t(3))
  next
    case False
    then show ?thesis by (simp add: slab_view_def t(3))
  qed
qed

lemma destroy_slab_other: "i < KMEM_SLAB_MAX \<Longrightarrow> i \<notin> owned_slabs st c \<Longrightarrow> destroy_slab c i st = st"
  by (simp add: destroy_slab_def owned_slabs_def)

lemma destroy_slabs:
  assumes "list_inv st" and "body_but c st" and "c \<in> used_caches st" and "set xs \<subseteq> {0..<KMEM_SLAB_MAX}" and "distinct xs"
  defines "st' \<equiv> fold (destroy_slab c) xs st"
  shows "list_inv st' \<and> body_but c st' \<and> used_caches st' = used_caches st \<and> owned_slabs st' c = owned_slabs st c - set xs \<and>
    (\<forall>d. d \<noteq> c \<longrightarrow> slab_view st' d = slab_view st d) \<and> sl_memory st' = sl_memory st \<and>
    owned_set (sl_pmm st') = owned_set (sl_pmm st) - (\<Union>i \<in> owned_slabs st c \<inter> set xs. slab_pages_of st i)"
  using assms(1-5) unfolding st'_def
proof (induction xs arbitrary: st)
  case Nil
  then show ?case by simp
next
  case (Cons i xs)
  have il: "i < KMEM_SLAB_MAX" "i \<notin> set xs" "set xs \<subseteq> {0..<KMEM_SLAB_MAX}" "distinct xs" using Cons.prems by auto
  show ?case
  proof (cases "i \<in> owned_slabs st c")
    case False
    have "(owned_slabs st c \<inter> set (i # xs)) = owned_slabs st c \<inter> set xs" "owned_slabs st c - set (i # xs) = owned_slabs st c - set xs"
      using False by auto
    then show ?thesis using Cons.IH [OF Cons.prems(1-3) il(3,4)] destroy_slab_other [OF il(1) False] by simp
  next
    case True
    let ?s = "destroy_slab c i st"
    note d = destroy_slab_state [OF Cons.prems(1,2) True Cons.prems(3)]
      destroy_slab_sets [OF Cons.prems(1,2) True Cons.prems(3)] destroy_slab_step [OF Cons.prems(1,2) True Cons.prems(3)]
    have c: "c \<in> used_caches ?s" using d(11) Cons.prems(3) by simp
    note IH = Cons.IH [OF d(1) d(14) c il(3,4)]
    have same: "slab_pages_of ?s j = slab_pages_of st j" if "j \<in> owned_slabs st c - {i}" for j
    proof -
      have "j \<in> used_slabs ?s" unfolding d(10) using that by (auto simp: owned_slabs_def used_slabs_def)
      from slab_core_fields(2,3) [OF d(13) [OF this]] show ?thesis by simp
    qed
    have "(\<Union>j \<in> owned_slabs ?s c \<inter> set xs. slab_pages_of ?s j) = (\<Union>j \<in> owned_slabs st c \<inter> set xs. slab_pages_of st j)"
      unfolding d(9) using same il(2) by (intro SUP_cong) auto
    then have un: "slab_pages_of st i \<union> (\<Union>j \<in> owned_slabs ?s c \<inter> set xs. slab_pages_of ?s j) =
        (\<Union>j \<in> owned_slabs st c \<inter> set (i # xs). slab_pages_of st j)"
      using True by auto
    have own: "owned_slabs ?s c - set xs = owned_slabs st c - set (i # xs)" unfolding d(9) by auto
    have "owned_set (sl_pmm (fold (destroy_slab c) xs ?s)) = owned_set (sl_pmm st) - (\<Union>j \<in> owned_slabs st c \<inter> set (i # xs). slab_pages_of st j)"
      using IH unfolding d(16) un [symmetric] by (simp add: Diff_eq inf.assoc)
    then show ?thesis using IH d(8,11,15) own by simp
  qed
qed

lemma destroy_finish:
  assumes l: "list_inv st" and b: "body_but c st" and c: "c \<in> used_caches st" and o: "owned_slabs st c = {}"
  defines "st' \<equiv> (put_cache c (\<lambda>_. kmem_cache_zero) st)\<lparr>sl_cache_count := sl_cache_count st - 1\<rparr>"
  shows "slab_inv st'" and "slab_view st' = (slab_view st)(c := None)"
proof -
  have len: "length (sl_slabs st) = KMEM_SLAB_MAX" "length (sl_caches st) = KMEM_CACHE_MAX"
    using list_inv_lengths [OF l] by simp_all
  have cl: "c < KMEM_CACHE_MAX" using c by (simp add: used_caches_def)
  have ca: "cache_at st' d = (if d = c then kmem_cache_zero else cache_at st d)" for d using cl len by (simp add: st'_def nth_list_update)
  have sl: "sl_slabs st' = sl_slabs st" by (simp add: st'_def)
  have n: "nexts st' = nexts st" "prevs st' = prevs st" by (simp_all add: nexts_def prevs_def fun_eq_iff sl)
  have s: "owned_slabs st' = owned_slabs st" "members st' = members st" "used_slabs st' = used_slabs st" "slab_runs st' = slab_runs st"
    by (simp_all add: fun_eq_iff owned_slabs_def members_def used_slabs_def slab_runs_def sl)
  have uc: "used_caches st' = used_caches st - {c}" unfolding used_caches_def ca by (auto simp: kmem_cache_zero_def)
  have lo: "list_of st' d x \<longleftrightarrow> d \<noteq> c \<and> list_of st d x" for d x unfolding ca by (simp add: kmem_cache_zero_def)
  obtain ls where ls: "links_ok st ls" "\<And>d x. list_of st d x \<Longrightarrow> set (ls d x) = members st d x" using l by (auto simp: list_inv_def)
  have "links_ok st' ls"
  proof (rule links_okI)
    show "length (sl_slabs st') = KMEM_SLAB_MAX" "length (sl_caches st') = KMEM_CACHE_MAX" using len by (simp_all add: st'_def)
  next
    fix d x assume "list_of st' d x"
    then have d: "d \<noteq> c" "list_of st d x" using lo by auto
    show "chain (nexts st') (prevs st') (head_of x (cache_at st' d)) None (ls d x)"
      using links_okD(3) [OF ls(1) d(2)] d(1) unfolding n ca by simp
    show "distinct (ls d x)" "\<And>i. i \<in> set (ls d x) \<Longrightarrow> i < KMEM_SLAB_MAX" using links_okD(4,5) [OF ls(1) d(2)] by auto
  next
    fix d x d' x' i assume "list_of st' d x" "list_of st' d' x'" "i \<in> set (ls d x)" "i \<in> set (ls d' x')"
    then show "d = d' \<and> x = x'" using links_okD(6) [OF ls(1), of d x d' x'] lo [of d x] lo [of d' x'] by blast
  qed
  then have l': "list_inv st'" unfolding list_inv_def lo s using ls(2) by blast
  have tot: "cache_totals st' d \<longleftrightarrow> cache_totals st d" if "d \<noteq> c" for d
    unfolding cache_totals_def s sl ca using that by simp
  have fits: "slab_fits st' (slab_at st' i)" if "i \<in> used_slabs st" for i
  proof -
    have "slab_fits st (slab_at st i)" using b that by (auto simp: body_but_def)
    then obtain d where d: "d \<in> used_caches st" "sb_owner (slab_at st i) = Some d"
      "sb_object_count (slab_at st i) = unat (sc_objects_per_slab (cache_at st d))" "sb_pages (slab_at st i) = sc_slab_pages (cache_at st d)"
      by (auto simp: slab_fits_def)
    then have "d \<noteq> c" using o that by (auto simp: owned_slabs_def used_slabs_def)
    then show ?thesis using d unfolding slab_fits_def uc ca sl by auto
  qed
  have "cache_geometry (cache_at st' d) \<and> cache_totals st' d" if "d \<in> used_caches st - {c}" for d
    using b that tot unfolding body_but_def ca by auto
  moreover have "sl_cache_count st - 1 = word_of_nat (card (used_caches st - {c}))"
    using b card.remove [OF finite_slab_sets(4) c] by (simp add: body_but_def)
  ultimately have "body_inv st'"
    using b fits unfolding body_inv_def body_but_def s uc by (simp add: st'_def)
  then show "slab_inv st'" using l' by (simp add: slab_inv_def)
  show "slab_view st' = (slab_view st)(c := None)"
  proof
    fix d
    have "live_objects st' d = live_objects st d" if "d \<noteq> c"
      using that by (intro live_objects_cong) (simp_all add: s sl ca)
    then show "slab_view st' d = ((slab_view st)(c := None)) d" unfolding slab_view_def uc ca by simp
  qed
qed

lemma cache_idle:
  assumes inv: "slab_inv st" and c: "c \<in> used_caches st"
  shows "sc_active_objects (cache_at st c) = 0 \<longleftrightarrow> live_objects st c = {}"
proof -
  have tot: "sc_active_objects (cache_at st c) = word_of_nat (\<Sum>j \<in> owned_slabs st c. sb_active_objects (slab_at st j))"
    using inv c by (auto simp: slab_inv_def body_inv_def cache_totals_def)
  have j: "sb_active_objects (slab_at st j) = card (taken (slab_at st j))" "sb_active_objects (slab_at st j) \<le> 128"
    if "j \<in> owned_slabs st c" for j
  proof -
    show *: "sb_active_objects (slab_at st j) = card (taken (slab_at st j))"
      using owned_slab(1) [OF inv that] by (simp add: slab_ok_def slab_body_def)
    show "sb_active_objects (slab_at st j) \<le> 128"
      unfolding * using owned_slab(14) [OF inv that] card_taken_le [of "slab_at st j"] by linarith
  qed
  have fin: "finite (taken s)" for s by (simp add: taken_def)
  have "(\<Sum>j \<in> owned_slabs st c. sb_active_objects (slab_at st j)) \<le> card (owned_slabs st c) * 128"
    using j(2) sum_bounded_above [of "owned_slabs st c" "\<lambda>j. sb_active_objects (slab_at st j)" 128] by simp
  moreover have "card (owned_slabs st c) \<le> card {0..<KMEM_SLAB_MAX}" by (rule card_mono) (auto simp: owned_slabs_def)
  ultimately have "(\<Sum>j \<in> owned_slabs st c. sb_active_objects (slab_at st j)) < 2 ^ 32" by (simp add: KMEM_SLAB_MAX_def)
  then have "unat (sc_active_objects (cache_at st c)) = (\<Sum>j \<in> owned_slabs st c. sb_active_objects (slab_at st j))"
    unfolding tot by (intro unat_of_nat_small) simp
  then have "sc_active_objects (cache_at st c) = 0 \<longleftrightarrow> (\<Sum>j \<in> owned_slabs st c. sb_active_objects (slab_at st j)) = 0"
    by (metis unat_eq_0)
  also have "\<dots> \<longleftrightarrow> (\<forall>j \<in> owned_slabs st c. taken (slab_at st j) = {})" using j(1) fin by (simp add: card_eq_0_iff)
  also have "\<dots> \<longleftrightarrow> live_objects st c = {}" by (auto simp: live_objects_def)
  finally show ?thesis .
qed

text \<open>Destroying succeeds exactly on an idle cache; it returns every page of the cache and no other.\<close>

lemma destroy_idle:
  assumes inv: "slab_inv st" and v: "slab_view st c = Some v" "cv_live v = {}"
    and d: "kmem_cache_destroy st (Some c) = (r, st')"
  shows "r = OK" "slab_inv st'" "slab_view st' = (slab_view st)(c := None)"
    "owned_set (sl_pmm st') = owned_set (sl_pmm st) - (\<Union>i \<in> owned_slabs st c. slab_pages_of st i)"
proof -
  have c: "c \<in> used_caches st" "live_objects st c = {}" using view_live [OF v(1)] v(2) by simp_all
  have b: "body_but c st" and l: "list_inv st" and init: "sl_initialized st"
    using inv body_but_inv by (auto simp: slab_inv_def body_inv_def)
  let ?s = "fold (destroy_slab c) [0..<KMEM_SLAB_MAX] st"
  have f: "list_inv ?s" "body_but c ?s" "used_caches ?s = used_caches st" "owned_slabs ?s c = {}"
    "\<And>d. d \<noteq> c \<Longrightarrow> slab_view ?s d = slab_view st d"
    "owned_set (sl_pmm ?s) = owned_set (sl_pmm st) - (\<Union>i \<in> owned_slabs st c. slab_pages_of st i)"
  proof -
    have eq: "owned_slabs st c - set [0..<KMEM_SLAB_MAX] = {}" "owned_slabs st c \<inter> set [0..<KMEM_SLAB_MAX] = owned_slabs st c"
      by (auto simp: owned_slabs_def)
    show "list_inv ?s" "body_but c ?s" "used_caches ?s = used_caches st" "owned_slabs ?s c = {}"
      "\<And>d. d \<noteq> c \<Longrightarrow> slab_view ?s d = slab_view st d"
      "owned_set (sl_pmm ?s) = owned_set (sl_pmm st) - (\<Union>i \<in> owned_slabs st c. slab_pages_of st i)"
      using destroy_slabs [OF l b c(1), of "[0..<KMEM_SLAB_MAX]", unfolded eq] by simp_all
  qed
  have eq: "r = OK" "st' = (put_cache c (\<lambda>_. kmem_cache_zero) ?s)\<lparr>sl_cache_count := sl_cache_count ?s - 1\<rparr>"
    using d init c registered_iff cache_idle [OF inv c(1)] by (auto simp: kmem_cache_destroy_def Let_def)
  have cs: "c \<in> used_caches ?s" using f(3) c(1) by simp
  note fin = destroy_finish [OF f(1,2) cs f(4), folded eq(2)]
  show "r = OK" "slab_inv st'" by (fact eq(1), fact fin(1))
  show "slab_view st' = (slab_view st)(c := None)" unfolding fin(2) using f(5) by auto
  show "owned_set (sl_pmm st') = owned_set (sl_pmm st) - (\<Union>i \<in> owned_slabs st c. slab_pages_of st i)"
    using f(6) by (simp add: eq(2))
qed

lemma destroy_refused:
  assumes inv: "slab_inv st" and no: "\<And>c v. cache = Some c \<Longrightarrow> slab_view st c = Some v \<Longrightarrow> cv_live v \<noteq> {}"
  shows "fst (kmem_cache_destroy st cache) \<noteq> OK \<and> snd (kmem_cache_destroy st cache) = st"
proof (cases "slab_cache_registered st cache")
  case True
  then obtain c where c: "cache = Some c" "c \<in> used_caches st"
    using registered_iff by (cases cache) (auto simp: slab_cache_registered_def)
  then have "sc_active_objects (cache_at st c) \<noteq> 0"
    using no [OF c(1)] cache_idle [OF inv c(2)] by (simp add: slab_view_def)
  then show ?thesis using c by (simp add: kmem_cache_destroy_def)
qed (simp add: kmem_cache_destroy_def)

section \<open>Creating a cache\<close>

lemma nat_power_of_two: "0 < n \<Longrightarrow> n AND (n - 1) = 0 \<Longrightarrow> \<exists>k. n = 2 ^ k" for n :: nat
proof (induction n rule: less_induct)
  case (less n)
  show ?case
  proof (cases "odd n")
    case True
    then obtain m where n: "n = 2 * m + 1" by (auto elim: oddE)
    have "n AND (n - 1) = 2 * (m AND m)" by (subst and_rec) (simp add: n)
    then have "m = 0" using less.prems(2) by simp
    then show ?thesis using n by (intro exI [of _ 0]) simp
  next
    case False
    then obtain m where n: "n = 2 * m" by (auto elim: evenE)
    have m: "0 < m" using less.prems(1) n by simp
    have "(2 * m - 1) div 2 = m - 1" using m by simp
    then have "n AND (n - 1) = 2 * (m AND (m - 1))" by (subst and_rec) (simp add: n)
    then obtain k where "m = 2 ^ k" using less.IH [of m] less.prems(2) m n by auto
    then show ?thesis using n by (intro exI [of _ "Suc k"]) simp
  qed
qed

lemma power_of_two_word:
  assumes "slab_power_of_two al" and "al \<le> 4096"
  obtains k where "k \<le> 12" "unat al = 2 ^ k" "al - 1 = mask k"
proof -
  have p: "0 < unat al" "unat (al - 1) = unat al - 1"
    using assms(1) by (auto simp: slab_power_of_two_def unat_gt_0 unat_minus_one)
  have "unat al AND (unat al - 1) = unat (al AND (al - 1))" by (simp add: unsigned_and_eq p(2))
  then have "unat al AND (unat al - 1) = 0" using assms(1) by (simp add: slab_power_of_two_def)
  then obtain k where k: "unat al = 2 ^ k" using nat_power_of_two [OF p(1)] by blast
  have "unat al \<le> 2 ^ 12" using assms(2) by (simp add: word_le_nat_alt)
  then have "k \<le> 12" unfolding k by (rule power_le_imp_le_exp [rotated]) simp
  moreover have "al = 2 ^ k" using k by (metis word_of_nat_unat of_nat_power of_nat_numeral)
  ultimately show ?thesis using that [of k] k by (simp add: mask_eq_exp_minus_1)
qed

lemma align_up_result:
  assumes "unat al = 2 ^ k" "al - 1 = mask k" and "slab_align_up n al \<noteq> 0"
  shows "n \<le> slab_align_up n al" and "unat al dvd unat (slab_align_up n al)"
proof -
  have al: "al \<noteq> 0" using assms(1) by auto
  have ok: "n \<le> 0xFFFFFFFF - (al - 1)" using assms(3) by (auto simp: slab_align_up_def split: if_splits)
  have le: "al - 1 \<le> 0xFFFFFFFF" using unsigned_less [of "al - 1", where ?'a = nat] by (simp add: word_le_nat_alt)
  have s: "unat (al - 1) = 2 ^ k - 1" using al assms(1) by (simp add: unat_minus_one)
  have "unat n \<le> 2 ^ 32 - 1 - (2 ^ k - 1)"
    using ok unat_sub [OF le] s by (simp add: word_le_nat_alt)
  moreover have "(2 :: nat) ^ k < 2 ^ 32" using unsigned_less [of al, where ?'a = nat] assms(1) by simp
  ultimately have sum: "unat n + (2 ^ k - 1) < 2 ^ 32" by simp
  have e: "n + al - 1 = n + (al - 1)" by simp
  have "unat (n + (al - 1)) = unat n + (2 ^ k - 1)"
    using sum s by (simp add: unat_word_ariths)
  moreover have "slab_align_up n al = (n + (al - 1)) AND NOT (mask k)"
    using al ok unfolding slab_align_up_def e assms(2) by (simp add: not_less [symmetric])
  ultimately have u: "unat (slab_align_up n al) = unat n + (2 ^ k - 1) - (unat n + (2 ^ k - 1)) mod 2 ^ k"
    by (simp only: and_not_mask_unat)
  have "(unat n + (2 ^ k - 1)) mod 2 ^ k < 2 ^ k" by simp
  then have "unat n \<le> unat (slab_align_up n al)" unfolding u by linarith
  then show "n \<le> slab_align_up n al" by (simp add: word_le_nat_alt)
  show "unat al dvd unat (slab_align_up n al)" unfolding u assms(1) by (simp add: minus_mod_eq_mult_div)
qed

text \<open>The entry a successful create writes.\<close>

definition new_cache :: "string \<Rightarrow> u32 \<Rightarrow> u32 \<Rightarrow> u32 \<Rightarrow> u32 \<Rightarrow> u32 \<Rightarrow> kmem_cache" where
  "new_cache name object_size alignment stride objects pages =
     kmem_cache_zero\<lparr>sc_name := slab_copy_text KMEM_CACHE_NAME_LENGTH name,
       sc_object_size := object_size, sc_alignment := alignment,
       sc_object_stride := stride, sc_objects_per_slab := objects,
       sc_slab_pages := pages, sc_full_head := None, sc_partial_head := None,
       sc_empty_head := None, sc_used := True\<rparr>"

lemma create_cases:
  assumes "kmem_cache_create st name osize al = (r, st')"
  obtains (fail) "r = None" "st' = st"
  | (ok) n slot objects pages where "r = Some slot" "name = Some n" "slab_find_cache_slot st = Some slot"
      "st' = (put_cache slot (\<lambda>_. new_cache n osize al (slab_align_up osize al) objects pages) st)\<lparr>sl_cache_count := sl_cache_count st + 1\<rparr>"
      "cache_geometry (new_cache n osize al (slab_align_up osize al) objects pages)"
proof (cases r)
  case None
  then show ?thesis using assms by (intro fail) (auto simp: kmem_cache_create_def Let_def split: if_splits option.splits)
next
  case (Some slot)
  define stride where "stride = slab_align_up osize al"
  define pages where "pages = (4095 + stride * 8) div (4096 :: u32)"
  define objects where "objects = (if pages * 4096 div stride > 128 then 128 else pages * 4096 div stride)"
  obtain n where n: "name = Some n" using assms Some by (cases name) (auto simp: kmem_cache_create_def split: if_splits)
  have g: "slab_power_of_two al" "al \<le> 4096" "stride \<noteq> 0" "pages \<noteq> 0" "pages \<le> 0xFFFFFFFF div 4096" "8 \<le> objects"
    "slab_find_cache_slot st = Some slot"
    "st' = (put_cache slot (\<lambda>_. new_cache n osize al stride objects pages) st)\<lparr>sl_cache_count := sl_cache_count st + 1\<rparr>"
    using assms Some n
    by (auto simp: kmem_cache_create_def Let_def new_cache_def stride_def [symmetric] pages_def objects_def
        PAGE_SIZE_def KMEM_SLAB_MIN_OBJECTS_def KMEM_SLAB_MAX_OBJECTS_def not_less split: if_splits option.splits)
  obtain k where k: "k \<le> 12" "unat al = 2 ^ k" "al - 1 = mask k" using power_of_two_word [OF g(1,2)] by blast
  have st: "osize \<le> stride" "unat al dvd unat stride" using align_up_result [OF k(2,3), of osize] g(3) by (simp_all add: stride_def)
  have "unat pages \<le> 0xFFFFF" using g(5) by (simp add: word_le_nat_alt)
  then have up: "unat (pages * 4096) = unat pages * 4096" by (simp add: unat_word_ariths)
  have "unat (pages * 4096 div stride) * unat stride \<le> unat (pages * 4096)" unfolding unat_div_distrib by (rule div_times_less_eq_dividend)
  moreover have "unat objects \<le> unat (pages * 4096 div stride)" by (auto simp: objects_def word_less_nat_alt not_less)
  ultimately have "unat objects * unat stride \<le> unat pages * 4096" unfolding up by (meson le_trans mult_le_mono1)
  moreover have "unat objects \<le> 128" by (auto simp: objects_def word_less_nat_alt not_less)
  moreover have "8 \<le> unat objects" using g(6) by (simp add: word_le_nat_alt)
  ultimately have "cache_geometry (new_cache n osize al stride objects pages)"
    using st k g(3,4) by (auto simp: cache_geometry_def new_cache_def slab_limits PAGE_SIZE_def)
  then show ?thesis using ok [OF Some n g(7)] g(8) by (simp add: stride_def)
qed

lemma create_inv:
  assumes inv: "slab_inv st" and slot: "slab_find_cache_slot st = Some c"
    and g: "cache_geometry e" and e: "sc_used e" "sc_active_objects e = 0" "sc_capacity e = 0" "sc_slab_count e = 0"
      "sc_full_head e = None" "sc_partial_head e = None" "sc_empty_head e = None"
  defines "st' \<equiv> (put_cache c (\<lambda>_. e) st)\<lparr>sl_cache_count := sl_cache_count st + 1\<rparr>"
  shows "slab_inv st'" and "slab_view st c = None"
    and "slab_view st' = (slab_view st)(c \<mapsto> \<lparr>cv_size = sc_object_size e, cv_align = sc_alignment e, cv_live = {}\<rparr>)"
proof -
  have b: "body_inv st" and l: "list_inv st" using inv by (simp_all add: slab_inv_def)
  have len: "length (sl_slabs st) = KMEM_SLAB_MAX" "length (sl_caches st) = KMEM_CACHE_MAX"
    using list_inv_lengths [OF l] by simp_all
  have c: "c < KMEM_CACHE_MAX" "\<not> sc_used (cache_at st c)"
    using slot first_index_SomeD [of "\<lambda>e. \<not> sc_used e" "sl_caches st" c] len by (auto simp: slab_find_cache_slot_def)
  then have nu: "c \<notin> used_caches st" by (simp add: used_caches_def)
  then show "slab_view st c = None" by (simp add: slab_view_def)
  have own: "owned_slabs st c = {}"
  proof -
    have "i \<notin> owned_slabs st c" for i using owned_slab(2) [OF inv, of i c] nu by blast
    then show ?thesis by blast
  qed
  have ca: "cache_at st' d = (if d = c then e else cache_at st d)" for d using c len by (simp add: st'_def nth_list_update)
  have sl: "sl_slabs st' = sl_slabs st" by (simp add: st'_def)
  have n: "nexts st' = nexts st" "prevs st' = prevs st" by (simp_all add: nexts_def prevs_def fun_eq_iff sl)
  have s: "owned_slabs st' = owned_slabs st" "members st' = members st" "used_slabs st' = used_slabs st" "slab_runs st' = slab_runs st"
    by (simp_all add: fun_eq_iff owned_slabs_def members_def used_slabs_def slab_runs_def sl)
  have uc: "used_caches st' = insert c (used_caches st)" unfolding used_caches_def ca using c e(1) by auto
  have lo: "list_of st d x" if "list_of st' d x" "d \<noteq> c" for d x using that unfolding ca by simp
  obtain ls where ls: "links_ok st ls" "\<And>d x. list_of st d x \<Longrightarrow> set (ls d x) = members st d x" using l by (auto simp: list_inv_def)
  let ?ls = "ls(c := \<lambda>_. [])"
  have "links_ok st' ?ls"
  proof (rule links_okI)
    show "length (sl_slabs st') = KMEM_SLAB_MAX" "length (sl_caches st') = KMEM_CACHE_MAX" using len by (simp_all add: st'_def)
  next
    fix d x assume d: "list_of st' d x"
    have "head_of x e = None" using e by (simp add: head_of_def)
    then show "chain (nexts st') (prevs st') (head_of x (cache_at st' d)) None (?ls d x)"
      using links_okD(3) [OF ls(1) lo [OF d]] unfolding n ca by simp
    show "distinct (?ls d x)" "\<And>i. i \<in> set (?ls d x) \<Longrightarrow> i < KMEM_SLAB_MAX"
      using links_okD(4,5) [OF ls(1) lo [OF d]] by (cases "d = c"; auto)+
  next
    fix d x d' x' i assume "list_of st' d x" "list_of st' d' x'" "i \<in> set (?ls d x)" "i \<in> set (?ls d' x')"
    then show "d = d' \<and> x = x'" using links_okD(6) [OF ls(1), of d x d' x'] lo [of d x] lo [of d' x'] by (auto split: if_splits)
  qed
  moreover have "set (?ls d x) = members st' d x" if "list_of st' d x" for d x
    using ls(2) [OF lo [OF that]] own unfolding s by (auto simp: members_def)
  ultimately have l': "list_inv st'" unfolding list_inv_def by blast
  have "cache_geometry (cache_at st' d) \<and> cache_totals st' d" if "d \<in> insert c (used_caches st)" for d
    using that b g e own nu unfolding cache_totals_def s sl ca body_inv_def by (cases "d = c") simp_all
  moreover have "slab_fits st' (slab_at st' i)" if "i \<in> used_slabs st" for i
    using b that nu unfolding body_inv_def slab_fits_def uc ca sl by auto
  moreover have "slab_ok (slab_at st' i)" if "i \<in> used_slabs st" for i using b that unfolding body_inv_def sl by blast
  ultimately have "body_inv st'" using b nu unfolding body_inv_def s uc by (simp add: st'_def)
  then show "slab_inv st'" using l' by (simp add: slab_inv_def)
  have "live_objects st' d = live_objects st d" if "d \<noteq> c" for d using that by (intro live_objects_cong) (simp_all add: s sl ca)
  moreover have "live_objects st' c = {}" by (simp add: live_objects_def s own)
  ultimately show "slab_view st' = (slab_view st)(c \<mapsto> \<lparr>cv_size = sc_object_size e, cv_align = sc_alignment e, cv_live = {}\<rparr>)"
    unfolding slab_view_def uc ca by (auto simp: fun_eq_iff)
qed

lemma create_result:
  assumes inv: "slab_inv st" and c: "kmem_cache_create st name n al = (r, st')"
  shows "slab_inv st'"
    and "case r of None \<Rightarrow> st' = st
      | Some slot \<Rightarrow> slab_view st slot = None \<and> slab_view st' = (slab_view st)(slot \<mapsto> \<lparr>cv_size = n, cv_align = al, cv_live = {}\<rparr>)"
proof -
  have "slab_inv st' \<and> (case r of None \<Rightarrow> st' = st
      | Some slot \<Rightarrow> slab_view st slot = None \<and> slab_view st' = (slab_view st)(slot \<mapsto> \<lparr>cv_size = n, cv_align = al, cv_live = {}\<rparr>))"
    using c
  proof (cases rule: create_cases)
    case fail
    then show ?thesis using inv by simp
  next
    case (ok s slot objects pages)
    let ?e = "new_cache s n al (slab_align_up n al) objects pages"
    have "sc_used ?e" "sc_active_objects ?e = 0" "sc_capacity ?e = 0" "sc_slab_count ?e = 0" "sc_full_head ?e = None"
      "sc_partial_head ?e = None" "sc_empty_head ?e = None" "sc_object_size ?e = n" "sc_alignment ?e = al"
      by (simp_all add: new_cache_def kmem_cache_zero_def)
    then show ?thesis using create_inv [OF inv ok(3,5)] ok(1,4) by simp
  qed
  then show "slab_inv st'" "case r of None \<Rightarrow> st' = st
      | Some slot \<Rightarrow> slab_view st slot = None \<and> slab_view st' = (slab_view st)(slot \<mapsto> \<lparr>cv_size = n, cv_align = al, cv_live = {}\<rparr>)"
    by simp_all
qed

section \<open>Initialisation\<close>

lemma init_result:
  assumes "\<not> sl_initialized st" and "pmm_inv (sl_pmm st)"
  shows "slab_inv (snd (kmem_cache_init st))" and "slab_view (snd (kmem_cache_init st)) = Map.empty"
    and "fst (kmem_cache_init st) = OK"
proof -
  let ?st = "snd (kmem_cache_init st)"
  have f: "sl_slabs ?st = replicate KMEM_SLAB_MAX kmem_slab_zero" "sl_caches ?st = replicate KMEM_CACHE_MAX kmem_cache_zero"
    "sl_cache_count ?st = 0" "sl_slab_count ?st = 0" "sl_initialized ?st" "sl_pmm ?st = sl_pmm st"
    using assms(1) by (simp_all add: kmem_cache_init_def)
  have u: "used_slabs ?st = {}" "used_caches ?st = {}"
    by (auto simp: used_slabs_def used_caches_def f kmem_slab_zero_def kmem_cache_zero_def)
  have "links_ok ?st (\<lambda>_ _. [])" by (rule links_okI) (auto simp: f kmem_cache_zero_def)
  moreover have "\<not> list_of ?st c s" for c s by (auto simp: f kmem_cache_zero_def)
  ultimately have "list_inv ?st" unfolding list_inv_def by blast
  moreover have "holds_runs (owned_set (sl_pmm ?st)) (slab_runs ?st)" by (simp add: holds_runs_def slab_runs_def u)
  ultimately show "slab_inv ?st" using assms(2) f by (simp add: slab_inv_def body_inv_def u)
  show "slab_view ?st = Map.empty" by (simp add: slab_view_def fun_eq_iff u)
  show "fst (kmem_cache_init st) = OK" by (simp add: kmem_cache_init_def)
qed

section \<open>Reachable states\<close>

text \<open>
  The states of the allocator under any sequence of calls. Between two calls the rest of the
  kernel may use the physical allocator as long as it keeps the pages of the slabs, write to
  memory, and switch paging on or off.
\<close>

inductive slab_reachable :: "slab_state \<Rightarrow> bool" where
  start: "\<not> sl_initialized st \<Longrightarrow> pmm_reachable (sl_pmm st) \<Longrightarrow> slab_reachable (snd (kmem_cache_init st))"
| create: "slab_reachable st \<Longrightarrow> slab_reachable (snd (kmem_cache_create st name object_size alignment))"
| alloc: "slab_reachable st \<Longrightarrow> slab_reachable (snd (kmem_cache_alloc st cache))"
| free: "slab_reachable st \<Longrightarrow> slab_reachable (kmem_cache_free st cache object)"
| destroy: "slab_reachable st \<Longrightarrow> slab_reachable (snd (kmem_cache_destroy st cache))"
| others: "slab_reachable st \<Longrightarrow> pmm_reachable pm \<Longrightarrow> \<forall>i \<in> used_slabs st. slab_pages_of st i \<subseteq> owned_set pm \<Longrightarrow>
    slab_reachable (st\<lparr>sl_pmm := pm, sl_memory := m, sl_paging_ready := p\<rparr>)"

lemma destroy_result:
  assumes "slab_inv st"
  shows "slab_inv (snd (kmem_cache_destroy st cache))"
proof (cases "\<exists>c v. cache = Some c \<and> slab_view st c = Some v \<and> cv_live v = {}")
  case True
  then show ?thesis using destroy_idle(2) [OF assms] by (metis prod.collapse)
next
  case False
  then show ?thesis using destroy_refused [OF assms, of cache] assms by auto
qed

lemma free_result: "slab_inv st \<Longrightarrow> slab_inv (kmem_cache_free st cache a)"
proof (cases "\<exists>c v. cache = Some c \<and> slab_view st c = Some v \<and> a \<in> cv_live v")
  case True
  then show "slab_inv st \<Longrightarrow> ?thesis" using free_live(1) by blast
next
  case False
  then show "slab_inv st \<Longrightarrow> ?thesis" using free_refused(1) by blast
qed

lemma others_result:
  assumes inv: "slab_inv st" and pm: "pmm_inv pm" and h: "\<forall>i \<in> used_slabs st. slab_pages_of st i \<subseteq> owned_set pm"
  shows "slab_inv (st\<lparr>sl_pmm := pm, sl_memory := m, sl_paging_ready := p\<rparr>)" (is "slab_inv ?st")
proof -
  have b: "body_inv st" using inv by (simp add: slab_inv_def)
  have s: "owned_slabs ?st = owned_slabs st" "used_slabs ?st = used_slabs st" "used_caches ?st = used_caches st" "slab_runs ?st = slab_runs st"
    by (simp_all add: fun_eq_iff owned_slabs_def used_slabs_def used_caches_def slab_runs_def)
  have t: "slab_fits ?st = slab_fits st" "cache_totals ?st = cache_totals st"
    by (simp_all add: fun_eq_iff slab_fits_def cache_totals_def s)
  have "holds_runs (owned_set pm) (slab_runs st)"
    using b h unfolding body_inv_def holds_runs_def run_fits_def by (auto simp: slab_runs_def split: if_splits)
  then have "body_inv ?st" using b pm by (simp add: body_inv_def s t)
  then show ?thesis using inv list_inv_ext [of ?st st] by (simp add: slab_inv_def)
qed

lemma slab_reachable_inv: "slab_reachable st \<Longrightarrow> slab_inv st"
proof (induction rule: slab_reachable.induct)
  case (start st)
  then show ?case using init_result(1) pmm_reachable_inv by blast
next
  case (create st name object_size alignment)
  then show ?case using create_result(1) by (metis prod.collapse)
next
  case (alloc st cache)
  then show ?case using alloc_cases(1) by (metis prod.collapse)
next
  case (free st cache object)
  then show ?case using free_result by blast
next
  case (destroy st cache)
  then show ?case using destroy_result by blast
next
  case (others st pm m p)
  then show ?case using others_result pmm_reachable_inv by blast
qed

section \<open>The allocator against its specification\<close>

text \<open>
  The calls of the allocator and what each may do to the views: the specification of the
  component, with no slabs, lists or bitmaps.
\<close>

datatype slab_call =
    Create "string option" u32 u32
  | Alloc "nat option"
  | Free "nat option" u32
  | Destroy "nat option"

fun slab_perform :: "slab_call \<Rightarrow> slab_state \<Rightarrow> slab_state" where
  "slab_perform (Create name object_size alignment) st = snd (kmem_cache_create st name object_size alignment)"
| "slab_perform (Alloc cache) st = snd (kmem_cache_alloc st cache)"
| "slab_perform (Free cache object) st = kmem_cache_free st cache object"
| "slab_perform (Destroy cache) st = snd (kmem_cache_destroy st cache)"

type_synonym slab_views = "nat \<Rightarrow> cache_view option"

inductive slab_spec :: "slab_views \<Rightarrow> slab_call \<Rightarrow> slab_views \<Rightarrow> bool" where
  refuse_create: "slab_spec V (Create name n al) V"
| create: "V c = None \<Longrightarrow> slab_spec V (Create name n al) (V(c \<mapsto> \<lparr>cv_size = n, cv_align = al, cv_live = {}\<rparr>))"
| refuse_alloc: "slab_spec V (Alloc cache) V"
| alloc: "V c = Some v \<Longrightarrow> a \<noteq> 0 \<Longrightarrow> unat (cv_align v) dvd unat a \<Longrightarrow> \<forall>d w. V d = Some w \<longrightarrow> a \<notin> cv_live w \<Longrightarrow>
    slab_spec V (Alloc (Some c)) (V(c \<mapsto> v\<lparr>cv_live := insert a (cv_live v)\<rparr>))"
| free: "V c = Some v \<Longrightarrow> a \<in> cv_live v \<Longrightarrow> slab_spec V (Free (Some c) a) (V(c \<mapsto> v\<lparr>cv_live := cv_live v - {a}\<rparr>))"
| refuse_free: "\<forall>c v. cache = Some c \<and> V c = Some v \<longrightarrow> a \<notin> cv_live v \<Longrightarrow> slab_spec V (Free cache a) V"
| destroy: "V c = Some v \<Longrightarrow> cv_live v = {} \<Longrightarrow> slab_spec V (Destroy (Some c)) (V(c := None))"
| refuse_destroy: "\<forall>c v. cache = Some c \<and> V c = Some v \<longrightarrow> cv_live v \<noteq> {} \<Longrightarrow> slab_spec V (Destroy cache) V"

fun slab_spec_run :: "slab_views \<Rightarrow> slab_call list \<Rightarrow> slab_views \<Rightarrow> bool" where
  "slab_spec_run V [] W \<longleftrightarrow> W = V"
| "slab_spec_run V (x # xs) W \<longleftrightarrow> (\<exists>U. slab_spec V x U \<and> slab_spec_run U xs W)"

lemma slab_perform_reachable: "slab_reachable st \<Longrightarrow> slab_reachable (slab_perform x st)"
  by (cases x) (auto intro: slab_reachable.intros)

lemma slab_step_refines:
  assumes inv: "slab_inv st"
  shows "slab_spec (slab_view st) x (slab_view (slab_perform x st))"
proof (cases x)
  case (Create name n al)
  obtain r st' where c: "kmem_cache_create st name n al = (r, st')" by force
  show ?thesis using create_result(2) [OF inv c] c Create
    by (cases r) (auto intro: slab_spec.refuse_create slab_spec.create)
next
  case (Alloc cache)
  obtain a st' where al: "kmem_cache_alloc st cache = (a, st')" by force
  show ?thesis using alloc_cases(2) [OF inv al] al Alloc
    by (auto simp: handed_out_def intro: slab_spec.alloc slab_spec.refuse_alloc)
next
  case (Free cache a)
  show ?thesis
  proof (cases "\<exists>c v. cache = Some c \<and> slab_view st c = Some v \<and> a \<in> cv_live v")
    case True
    then show ?thesis using free_live(2) [OF inv] Free by (auto intro: slab_spec.free)
  next
    case False
    then show ?thesis using free_refused(2) [OF inv, of cache a] Free by (auto intro: slab_spec.refuse_free)
  qed
next
  case (Destroy cache)
  show ?thesis
  proof (cases "\<exists>c v. cache = Some c \<and> slab_view st c = Some v \<and> cv_live v = {}")
    case True
    then obtain c v where c: "cache = Some c" "slab_view st c = Some v" "cv_live v = {}" by blast
    obtain r st' where d: "kmem_cache_destroy st (Some c) = (r, st')" by force
    show ?thesis using destroy_idle(3) [OF inv c(2,3) d] c d Destroy by (simp add: slab_spec.destroy)
  next
    case False
    then show ?thesis using destroy_refused [OF inv, of cache] Destroy by (auto intro: slab_spec.refuse_destroy)
  qed
qed

lemma live_ranges_disjoint:
  assumes inv: "slab_inv st" and v: "slab_view st c = Some v" "a \<in> cv_live v" and w: "slab_view st d = Some w" "b \<in> cv_live w"
    and ne: "a \<noteq> b"
  shows "unat a + unat (cv_size v) \<le> unat b \<or> unat b + unat (cv_size w) \<le> unat a"
proof -
  have lv: "a \<in> live_objects st c" "b \<in> live_objects st d" and sz: "cv_size v = sc_object_size (cache_at st c)" "cv_size w = sc_object_size (cache_at st d)"
    using view_live [OF v(1)] view_live [OF w(1)] v(2) w(2) by auto
  obtain i k where a: "a = object_at st c i k" "i \<in> owned_slabs st c" "k < sb_object_count (slab_at st i)"
    using live_in_range [OF lv(1)] by blast
  obtain j l where b: "b = object_at st d j l" "j \<in> owned_slabs st d" "l < sb_object_count (slab_at st j)"
    using live_in_range [OF lv(2)] by blast
  let ?s = "unat (sc_object_stride (cache_at st c))" and ?t = "unat (sc_object_stride (cache_at st d))"
  have st: "unat (cv_size v) \<le> ?s" "unat (cv_size w) \<le> ?t"
    using cache_geometryD(4) [OF owned_slab(7) [OF inv a(2)]] cache_geometryD(4) [OF owned_slab(7) [OF inv b(2)]]
    by (simp_all add: sz word_le_nat_alt)
  note ra = object_at_range [OF inv a(2,3), folded a(1)] slab_run(3) [OF inv a(2)]
  note rb = object_at_range [OF inv b(2,3), folded b(1)] slab_run(3) [OF inv b(2)]
  have ua: "unat a = unat (sb_memory (slab_at st i)) + k * ?s" using unat_object_at [OF inv a(2), of k] a(1,3) by simp
  have ub: "unat b = unat (sb_memory (slab_at st j)) + l * ?t" using unat_object_at [OF inv b(2), of l] b(1,3) by simp
  have far: "unat a + ?s \<le> unat b \<or> unat b + ?t \<le> unat a"
  proof (cases "i = j")
    case True
    then have "c = d" using a(2) b(2) by (simp add: owned_slabs_def)
    have "k \<noteq> l" using ne a(1) b(1) True \<open>c = d\<close> by auto
    then consider "Suc k \<le> l" | "Suc l \<le> k" by linarith
    then show ?thesis
    proof cases
      case 1
      then have "Suc k * ?s \<le> l * ?s" by (rule mult_le_mono1)
      then show ?thesis using ua ub True \<open>c = d\<close> by simp
    next
      case 2
      then have "Suc l * ?s \<le> k * ?s" by (rule mult_le_mono1)
      then show ?thesis using ua ub True \<open>c = d\<close> by simp
    qed
  next
    case False
    show ?thesis
    proof (rule ccontr)
      assume "\<not> ?thesis"
      then have "unat b < unat a + ?s" "unat a < unat b + ?t" by simp_all
      moreover have "0 < ?s" "0 < ?t"
        using cache_geometryD(2) [OF owned_slab(7) [OF inv a(2)]] cache_geometryD(2) [OF owned_slab(7) [OF inv b(2)]] by simp_all
      ultimately have "i = j"
        using slab_ranges_disjoint [OF inv a(2) b(2), of "max (unat a) (unat b)"] ra rb by linarith
      then show False using False by simp
    qed
  qed
  then show ?thesis using st by linarith
qed

text \<open>A freed object leaves room in its cache.\<close>

lemma free_makes_room:
  assumes inv: "slab_inv st" and v: "slab_view st c = Some v" and a: "a \<in> cv_live v"
  shows "has_room c (kmem_cache_free st (Some c) a)" and "sl_paging_ready (kmem_cache_free st (Some c) a) = sl_paging_ready st"
proof -
  have init: "sl_initialized st" using inv by (simp add: slab_inv_def body_inv_def)
  have vl: "cv_live v = live_objects st c" "c \<in> used_caches st" using view_live [OF v] by auto
  then obtain i k where ik: "a = object_at st c i k" "i \<in> owned_slabs st c" "k < sb_object_count (slab_at st i)" "k \<in> taken (slab_at st i)"
    using live_in_range [of a st c] a by blast
  note o = owned_slab [OF inv ik(2)]
  note eq = free_is_give [OF inv ik(2,4), folded ik(1)]
  note g = give_object_result [OF inv ik(2,4)]
  show "sl_paging_ready (kmem_cache_free st (Some c) a) = sl_paging_ready st" using core_eqD(10) [OF g(2)] by (simp add: eq)
  let ?w = "put_cache c (bump_active (- 1)) (put_slab i (give_slab k) st)"
  have wl: "length (sl_slabs ?w) = KMEM_SLAB_MAX" "length (sl_caches ?w) = KMEM_CACHE_MAX" using o by simp_all
  have "i \<in> owned_slabs ?w c" using ik(2) o give_slab_ok(5,6) [OF o(1) ik(4)] by (simp add: owned_slabs_def)
  then have own: "i \<in> owned_slabs (give_object c i k st) c" using core_sets(1) [OF g(2) wl] by simp
  have "slab_core (slab_at (give_object c i k st) i) = slab_core (give_slab k (slab_at st i))"
    using core_eqD(3) [OF g(2), of i] o(5) by simp
  note f = slab_core_fields(7) [OF this]
  have "0 < sb_active_objects (slab_at st i)" "sb_active_objects (slab_at st i) \<le> sb_object_count (slab_at st i)"
    using give_slab_ok(4) [OF o(1) ik(4)] o(1) card_taken_le [of "slab_at st i"] by (auto simp: slab_ok_def slab_body_def)
  then have "sb_state (give_slab k (slab_at st i)) \<noteq> KMEM_SLAB_STATE_FULL"
    by (simp add: give_slab_def Let_def slab_set_bit_def slab_level_def slab_states) linarith
  then show "has_room c (kmem_cache_free st (Some c) a)" 
    unfolding eq has_room_def using own by (intro bexI [of _ i]) (simp_all only: f not_False_eq_True)
qed

section \<open>Properties\<close>

text \<open>
  C3. The allocator refines its specification. From a reachable state, every sequence of
  create, alloc, free and destroy calls changes the views of the caches the way the
  specification allows: a new cache starts empty in an unused entry, an allocation adds one
  aligned address that no cache had in use, a free removes exactly its object when that is in
  use and nothing otherwise, and a destroy removes exactly an idle cache.
\<close>

theorem slab_refines_spec:
  assumes "slab_reachable st"
  shows "slab_spec_run (slab_view st) calls (slab_view (fold slab_perform calls st))"
  using assms
proof (induction calls arbitrary: st)
  case (Cons x xs)
  have "slab_spec (slab_view st) x (slab_view (slab_perform x st))"
    by (rule slab_step_refines [OF slab_reachable_inv [OF Cons.prems]])
  then show ?case using Cons.IH [OF slab_perform_reachable [OF Cons.prems]] by auto
qed simp

text \<open>
  C29. The kernel's own consistency check never fails: in every reachable state
  \<^verbatim>\<open>kmem_cache_validate\<close> returns \<^verbatim>\<open>OK\<close>, so every bitmap, freelist, slab list and
  counter agrees.
\<close>

theorem slab_reachable_validates:
  assumes "slab_reachable st"
  shows "kmem_cache_validate st = OK"
  by (rule slab_inv_validates [OF slab_reachable_inv [OF assms]])

text \<open>
  C30. An allocation succeeds exactly when paging is up, the cache exists, and the cache has
  a slab that is not full or can get one more. Then the object is new to every cache, aligned,
  not null, and its memory reads zero while all other memory is untouched. On failure no view
  and no memory changes.
\<close>

theorem kmem_cache_alloc_exact:
  assumes "slab_reachable st" and "kmem_cache_alloc st cache = (a, st')"
  shows "(a \<noteq> 0 \<longleftrightarrow> (\<exists>c. cache = Some c \<and> c \<in> used_caches st \<and> sl_paging_ready st \<and> (has_room c st \<or> can_grow c st))) \<and>
     (if a = 0 then slab_view st' = slab_view st \<and> sl_memory st' = sl_memory st
      else \<exists>c v. cache = Some c \<and> slab_view st c = Some v \<and>
        slab_view st' = (slab_view st)(c \<mapsto> v\<lparr>cv_live := insert a (cv_live v)\<rparr>) \<and>
        (\<forall>d w. slab_view st d = Some w \<longrightarrow> a \<notin> cv_live w) \<and> unat (cv_align v) dvd unat a \<and>
        sl_memory st' = (\<lambda>p. if p - a < cv_size v then 0 else sl_memory st p))"
  using alloc_cases(2) [OF slab_reachable_inv [OF assms(1)] assms(2)]
  by (auto simp: handed_out_def zero_object_def)

text \<open>
  C13. Objects in use never overlap: in every reachable state two different objects, of the
  same or of different caches, occupy disjoint bytes.
\<close>

theorem slab_objects_disjoint:
  assumes "slab_reachable st" and "slab_view st c = Some v" "a \<in> cv_live v"
    and "slab_view st d = Some w" "b \<in> cv_live w" and "a \<noteq> b"
  shows "{unat a..<unat a + unat (cv_size v)} \<inter> {unat b..<unat b + unat (cv_size w)} = {}"
  using live_ranges_disjoint [OF slab_reachable_inv [OF assms(1)] assms(2-6)] by auto

text \<open>
  C11. Freeing right after allocating restores the views, whatever slab the object came from.
\<close>

theorem kmem_alloc_free_roundtrip:
  assumes "slab_reachable st" and "kmem_cache_alloc st cache = (a, st')" and "a \<noteq> 0"
  shows "slab_view (kmem_cache_free st' cache a) = slab_view st"
proof -
  note inv = slab_reachable_inv [OF assms(1)]
  obtain c v where v: "cache = Some c" "slab_view st c = Some v"
    "slab_view st' = (slab_view st)(c \<mapsto> v\<lparr>cv_live := insert a (cv_live v)\<rparr>)" "a \<notin> cv_live v"
    using alloc_cases(2) [OF inv assms(2)] assms(3) by (auto simp: handed_out_def)
  have "slab_view (kmem_cache_free st' (Some c) a) =
      (slab_view st')(c \<mapsto> v\<lparr>cv_live := insert a (cv_live v), cv_live := insert a (cv_live v) - {a}\<rparr>)"
    using free_live(2) [OF alloc_cases(1) [OF inv assms(2)], of c "v\<lparr>cv_live := insert a (cv_live v)\<rparr>" a] v(3) by simp
  then show ?thesis using v by (simp add: fun_upd_idem)
qed

text \<open>
  C32. An allocation from a cache never fails right after one of its objects was freed.
\<close>

theorem kmem_free_then_alloc:
  assumes "slab_reachable st" and "slab_view st c = Some v" "a \<in> cv_live v" and "sl_paging_ready st"
  shows "fst (kmem_cache_alloc (kmem_cache_free st (Some c) a) (Some c)) \<noteq> 0"
proof -
  note inv = slab_reachable_inv [OF assms(1)]
  let ?s = "kmem_cache_free st (Some c) a"
  note f = free_live [OF inv assms(2,3)] and r = free_makes_room [OF inv assms(2,3)]
  obtain b st' where al: "kmem_cache_alloc ?s (Some c) = (b, st')" by force
  have "c \<in> used_caches ?s" using view_live [of ?s c] f(2) by simp
  then show ?thesis using alloc_cases(2) [OF f(1) al] r assms(4) al by (auto simp: handed_out_def)
qed

text \<open>
  C31. Destroying a cache succeeds exactly when none of its objects is in use. It then gives
  the pages of all its slabs back to the physical allocator, and no other page; otherwise
  nothing changes.
\<close>

theorem kmem_cache_destroy_exact:
  assumes "slab_reachable st" and "kmem_cache_destroy st cache = (r, st')"
  shows "(r = OK \<longleftrightarrow> (\<exists>c v. cache = Some c \<and> slab_view st c = Some v \<and> cv_live v = {})) \<and>
    (if r = OK then slab_view st' = (slab_view st)(the cache := None) \<and>
       owned_set (sl_pmm st') = owned_set (sl_pmm st) - (\<Union>i \<in> owned_slabs st (the cache). slab_pages_of st i)
     else st' = st)"
proof (cases "\<exists>c v. cache = Some c \<and> slab_view st c = Some v \<and> cv_live v = {}")
  case True
  then obtain c v where c: "cache = Some c" "slab_view st c = Some v" "cv_live v = {}" by blast
  show ?thesis
    using destroy_idle [OF slab_reachable_inv [OF assms(1)] c(2,3), of r st'] assms(2) c by auto
next
  case False
  then show ?thesis
    using destroy_refused [OF slab_reachable_inv [OF assms(1)], of cache] assms(2) by auto
qed

section \<open>Witnesses\<close>

text \<open>
  The allocator over the booted physical allocator of \<^verbatim>\<open>Pmm_Correct\<close>, with one cache of
  64-byte objects.
\<close>

definition slab_boot :: "pmm_state \<Rightarrow> slab_state" where
  "slab_boot pm = \<lparr>sl_caches = [], sl_slabs = [], sl_cache_count = 0, sl_slab_count = 0,
     sl_allocation_failures = 0, sl_invalid_frees = 0, sl_double_frees = 0, sl_initialized = False,
     sl_pmm = pm, sl_memory = (\<lambda>_. 0xFF), sl_paging_ready = True\<rparr>"

definition slab_demo :: "pmm_state \<Rightarrow> slab_state" where
  "slab_demo pm = snd (kmem_cache_create (snd (kmem_cache_init (slab_boot pm))) (Some ''pcb'') 64 16)"

lemma slab_demo_eval:
  "(let st = slab_demo pm in (sl_pmm st, sl_paging_ready st, slab_find_free_record st, cache_at st 0)) =
     (pm, True, Some 0, new_cache ''pcb'' 64 16 64 64 1)"
  by code_simp

lemma slab_demo_fields:
  "sl_pmm (slab_demo pm) = pm" "sl_paging_ready (slab_demo pm)" "slab_find_free_record (slab_demo pm) = Some 0"
  "cache_at (slab_demo pm) 0 = new_cache ''pcb'' 64 16 64 64 1"
  using slab_demo_eval [of pm] by (simp_all add: Let_def)

abbreviation demo :: slab_state where "demo \<equiv> slab_demo boot_state"

lemma demo_reachable: "slab_reachable demo"
  unfolding slab_demo_def
  by (intro slab_reachable.create slab_reachable.start) (simp_all add: slab_boot_def boot_reachable)

lemma demo_used: "0 \<in> used_caches demo"
  by (simp add: used_caches_def slab_demo_fields(4) new_cache_def KMEM_CACHE_MAX_def)

lemma demo_can_grow: "can_grow 0 demo"
proof -
  have inv: "pmm_inv boot_state" by (rule pmm_reachable_inv [OF boot_reachable])
  have "fst (pmm_alloc_pages_in_zone boot_state 1 MEMORY_ZONE_SLAB) \<noteq> 0"
    using inv
  proof (cases rule: pmm_alloc_cases [where n = 1 and z = MEMORY_ZONE_SLAB])
    case fail
    have "pmm_zone_is_allocatable MEMORY_ZONE_SLAB" by (simp add: pmm_zone_is_allocatable_def)
    then have "\<forall>i. i + 1 \<le> pm_total_pages boot_state \<longrightarrow> \<not> {i..<i + 1} \<subseteq> free_set boot_state" using fail(2) by simp
    from spec [OF this, of 5120] show ?thesis using boot_run by simp
  next
    case (success i)
    have "i \<in> free_set boot_state" "i < 2 ^ 20" using success inv by (auto simp: pmm_inv_def pmm_shape_def)
    then have "word_of_nat (i * PAGE_SIZE) \<noteq> (0 :: u32)"
      using page_address [of i] free_page_high [OF inv, of i] by (auto simp: pmm_layout)
    then show ?thesis using success(1) by simp
  qed
  then show ?thesis by (simp add: can_grow_def slab_demo_fields new_cache_def)
qed

lemma paging_ready_kept [simp]:
  "sl_paging_ready (slab_list_remove c i st) = sl_paging_ready st" "sl_paging_ready (slab_list_add c i s st) = sl_paging_ready st"
  "sl_paging_ready (count_alloc_failure c st) = sl_paging_ready st"
  by (simp_all add: slab_list_remove_def slab_list_add_def count_alloc_failure_def Let_def split: option.split)

lemma alloc_paging_ready: "sl_paging_ready (snd (kmem_cache_alloc st cache)) = sl_paging_ready st"
proof -
  have t: "sl_paging_ready (snd (take_object c i s)) = sl_paging_ready s" for c i s
    by (simp add: take_object_def relist_taken_def Let_def)
  have p: "slab_prepare_record c st = (r, s) \<Longrightarrow> sl_paging_ready s = sl_paging_ready st" for c r s
    by (auto simp: slab_prepare_record_def Let_def split: option.splits prod.splits if_splits)
  show ?thesis
    using p unfolding kmem_cache_alloc_def Let_def by (auto simp: t split: prod.split option.split)
qed

lemma demo_view: "slab_view demo = [0 \<mapsto> \<lparr>cv_size = 64, cv_align = 16, cv_live = {}\<rparr>]"
proof -
  let ?b = "snd (kmem_cache_init (slab_boot boot_state))"
  have e: "slab_inv ?b" "slab_view ?b = Map.empty"
    using init_result(1,2) [of "slab_boot boot_state"] pmm_reachable_inv [OF boot_reachable] by (simp_all add: slab_boot_def)
  obtain r where c: "kmem_cache_create ?b (Some ''pcb'') 64 16 = (r, demo)" unfolding slab_demo_def by (metis prod.collapse)
  have "slab_view demo 0 \<noteq> None" using demo_used by (simp add: slab_view_def)
  then show ?thesis using create_result(2) [OF e(1) c] e(2) by (cases r) (auto split: if_splits)
qed

lemma full_slab_live:
  assumes inv: "slab_inv st" and i: "i \<in> owned_slabs st c" and f: "sb_state (slab_at st i) = KMEM_SLAB_STATE_FULL"
    and k: "k < sb_object_count (slab_at st i)"
  shows "object_at st c i k \<in> live_objects st c"
proof -
  note o = owned_slab [OF inv i]
  let ?s = "slab_at st i"
  have act: "sb_active_objects ?s = card (taken ?s)" using o(1) by (simp add: slab_ok_def slab_body_def)
  have "sb_state ?s = slab_level (sb_active_objects ?s) (sb_object_count ?s)" using o(1) by (simp add: slab_ok_def)
  then have "slab_level (card (taken ?s)) (sb_object_count ?s) = KMEM_SLAB_STATE_FULL" using f act by simp
  then have "\<not> card (taken ?s) < sb_object_count ?s" by (auto simp: slab_level_def slab_states split: if_splits)
  then have "card (taken ?s) = card {0..<sb_object_count ?s}" using card_taken_le [of ?s] by simp
  then have "taken ?s = {0..<sb_object_count ?s}" using taken_subset [of ?s] by (intro card_subset_eq) auto
  then have "k \<in> taken ?s" using k by simp
  then show ?thesis using i unfolding live_objects_def by blast
qed

lemma single_has_room:
  assumes inv: "slab_inv st" and v: "live_objects st c = {a}"
  shows "has_room c st"
proof (rule ccontr)
  assume nr: "\<not> has_room c st"
  obtain i where i: "i \<in> owned_slabs st c" using v live_in_range [of a st c] by blast
  have n: "0 < sb_object_count (slab_at st i)" "1 < sb_object_count (slab_at st i)" using owned_slab(13) [OF inv i] by simp_all
  have f: "sb_state (slab_at st i) = KMEM_SLAB_STATE_FULL" using nr i by (auto simp: has_room_def)
  have "object_at st c i 0 = a" "object_at st c i 1 = a"
    using full_slab_live [OF inv i f n(1)] full_slab_live [OF inv i f n(2)] v by simp_all
  then have "object_at st c i 0 = object_at st c i 1" by simp
  from object_at_inject [OF inv i n(1) i n(2) this] show False by simp
qed

lemma demo_alloc:
  obtains a st where "kmem_cache_alloc demo (Some 0) = (a, st)" "slab_reachable st" "a \<noteq> 0" "sl_paging_ready st"
    "slab_view st = [0 \<mapsto> \<lparr>cv_size = 64, cv_align = 16, cv_live = {a}\<rparr>]"
proof -
  obtain a st where al: "kmem_cache_alloc demo (Some 0) = (a, st)" by force
  have "slab_reachable st" "sl_paging_ready st"
    using slab_reachable.alloc [OF demo_reachable, of "Some 0"] alloc_paging_ready [of demo "Some 0"] al slab_demo_fields(2) by simp_all
  then show ?thesis
    using alloc_cases(2) [OF slab_reachable_inv [OF demo_reachable] al] demo_used demo_can_grow slab_demo_fields(2) al demo_view
    by (intro that [of a st]) (auto simp: handed_out_def)
qed

lemma demo_two:
  obtains a b st where "slab_reachable st" "a \<noteq> b" "slab_view st 0 = Some \<lparr>cv_size = 64, cv_align = 16, cv_live = {b, a}\<rparr>"
proof -
  obtain a st where a: "slab_reachable st" "a \<noteq> 0" "sl_paging_ready st"
    "slab_view st = [0 \<mapsto> \<lparr>cv_size = 64, cv_align = 16, cv_live = {a}\<rparr>]"
    using demo_alloc by blast
  note inv = slab_reachable_inv [OF a(1)]
  have v: "live_objects st 0 = {a}" "0 \<in> used_caches st" using view_live [of st 0] a(4) by simp_all
  obtain b st' where al: "kmem_cache_alloc st (Some 0) = (b, st')" by force
  have "handed_out st 0 b st'" using alloc_cases(2) [OF inv al] single_has_room [OF inv v(1)] v(2) a(3) by auto
  moreover have "slab_reachable st'" using slab_reachable.alloc [OF a(1), of "Some 0"] al by simp
  moreover have "a \<noteq> b"
  proof -
    have "\<forall>d w. slab_view st d = Some w \<longrightarrow> b \<notin> cv_live w" using \<open>handed_out st 0 b st'\<close> unfolding handed_out_def by blast
    from this [rule_format, of 0] show ?thesis using a(4) by simp
  qed
  ultimately show ?thesis using a(4) by (intro that [of st' a b]) (auto simp: handed_out_def)
qed

theorem slab_refines_spec_witness:
  "slab_spec_run (slab_view demo) [Alloc (Some 0), Free (Some 0) 1, Destroy (Some 0)]
     (slab_view (fold slab_perform [Alloc (Some 0), Free (Some 0) 1, Destroy (Some 0)] demo))"
  by (rule slab_refines_spec [OF demo_reachable])

theorem slab_reachable_validates_witness: "kmem_cache_validate demo = OK"
  by (rule slab_reachable_validates [OF demo_reachable])

theorem kmem_cache_alloc_exact_witness: "fst (kmem_cache_alloc demo (Some 0)) \<noteq> 0"
proof -
  obtain a st where al: "kmem_cache_alloc demo (Some 0) = (a, st)" by force
  show ?thesis
    using kmem_cache_alloc_exact [OF demo_reachable al] demo_used demo_can_grow slab_demo_fields(2) al by auto
qed

theorem slab_objects_disjoint_witness:
  "\<exists>st a b. slab_reachable st \<and> a \<in> live_objects st 0 \<and> b \<in> live_objects st 0 \<and> a \<noteq> b \<and>
     {unat a..<unat a + 64} \<inter> {unat b..<unat b + 64} = {}"
proof -
  obtain a b st where s: "slab_reachable st" "a \<noteq> b" "slab_view st 0 = Some \<lparr>cv_size = 64, cv_align = 16, cv_live = {b, a}\<rparr>"
    using demo_two by blast
  have "{unat a..<unat a + 64} \<inter> {unat b..<unat b + 64} = {}"
    using slab_objects_disjoint [OF s(1,3) _ s(3) _ s(2)] by simp
  then show ?thesis using s view_live [OF s(3)] by (intro exI [of _ st] exI [of _ a] exI [of _ b]) auto
qed

theorem kmem_alloc_free_roundtrip_witness:
  "\<exists>a st. kmem_cache_alloc demo (Some 0) = (a, st) \<and> a \<noteq> 0 \<and> slab_view (kmem_cache_free st (Some 0) a) = slab_view demo"
proof -
  obtain a st where s: "kmem_cache_alloc demo (Some 0) = (a, st)" "a \<noteq> 0" using demo_alloc by blast
  then show ?thesis using kmem_alloc_free_roundtrip [OF demo_reachable s] by blast
qed

theorem kmem_free_then_alloc_witness:
  "\<exists>st a. slab_reachable st \<and> a \<in> live_objects st 0 \<and> fst (kmem_cache_alloc (kmem_cache_free st (Some 0) a) (Some 0)) \<noteq> 0"
proof -
  obtain a st where s: "slab_reachable st" "sl_paging_ready st" "slab_view st 0 = Some \<lparr>cv_size = 64, cv_align = 16, cv_live = {a}\<rparr>"
    using demo_alloc by (metis fun_upd_same)
  have "fst (kmem_cache_alloc (kmem_cache_free st (Some 0) a) (Some 0)) \<noteq> 0"
    using kmem_free_then_alloc [OF s(1,3) _ s(2), of a] by simp
  then show ?thesis using s view_live [OF s(3)] by (intro exI [of _ st] exI [of _ a]) auto
qed

theorem kmem_cache_destroy_exact_witness: "fst (kmem_cache_destroy demo (Some 0)) = OK"
proof -
  obtain r st where d: "kmem_cache_destroy demo (Some 0) = (r, st)" by force
  show ?thesis using kmem_cache_destroy_exact [OF demo_reachable d] demo_view d by auto
qed

section \<open>Names\<close>

text \<open>
  The duplicate check compares the whole new name with the stored, truncated ones. A name of
  32 characters or more is therefore never found, and can be registered twice.
\<close>

lemma kmem_create_long_name_twice:
  "(let name = Some (replicate 32 CHR ''a'');
        (c, st) = kmem_cache_create (snd (kmem_cache_init (slab_boot pm))) name 64 16;
        (d, st') = kmem_cache_create st name 64 16
    in (c, d, sc_name (cache_at st' 0) = sc_name (cache_at st' 1))) = (Some 0, Some 1, True)"
  by code_simp

end
