(* ===== verification/Heap.thy ===== *)
theory Heap
  imports Pmm
begin

text \<open>
  The kernel heap, the second half of \<^verbatim>\<open>src/src/memory/memory.c\<close> in the kernel build. The heap
  keeps its block headers in the memory it manages, so the model has that memory: bytes at
  32-bit addresses, with the 32-bit little-endian loads and stores of the target. A
  \<^verbatim>\<open>heap_block_t*\<close> is the address of its header, 24 bytes before the payload, and a
  \<^verbatim>\<open>heap_aligned_header_t*\<close> the address of an 8-byte header before a page-aligned payload.
\<close>

type_synonym mem = "u32 \<Rightarrow> u8"

definition load32 :: "mem \<Rightarrow> u32 \<Rightarrow> u32" where
  "load32 m a = ucast (m a) OR push_bit 8 (ucast (m (a + 1))) OR push_bit 16 (ucast (m (a + 2)))
     OR push_bit 24 (ucast (m (a + 3)))"

definition store32 :: "u32 \<Rightarrow> u32 \<Rightarrow> mem \<Rightarrow> mem" where
  "store32 a v m = m(a := ucast v, a + 1 := ucast (drop_bit 8 v), a + 2 := ucast (drop_bit 16 v),
     a + 3 := ucast (drop_bit 24 v))"

section \<open>Headers\<close>

definition HEAP_MAGIC :: u32 where "HEAP_MAGIC = 0x48454150"
definition HEAP_MAGIC_ALIGNED :: u32 where "HEAP_MAGIC_ALIGNED = 0x414C4947"
definition HEAP_MAGIC_FREED :: u32 where "HEAP_MAGIC_FREED = 0x46524545"
definition HEAP_ALIGNMENT :: u32 where "HEAP_ALIGNMENT = 8"
definition HEAP_MIN_SPLIT :: u32 where "HEAP_MIN_SPLIT = 16"
definition HEAP_END :: u32 where "HEAP_END = word_of_nat HEAP_START + word_of_nat HEAP_SIZE"

text \<open>\<^verbatim>\<open>sizeof(heap_block_t)\<close> and \<^verbatim>\<open>sizeof(heap_aligned_header_t)\<close>.\<close>

definition block_bytes :: u32 where "block_bytes = 24"
definition aligned_bytes :: u32 where "aligned_bytes = 8"

definition block_magic :: "mem \<Rightarrow> u32 \<Rightarrow> u32" where "block_magic m b = load32 m b"
definition block_size :: "mem \<Rightarrow> u32 \<Rightarrow> u32" where "block_size m b = load32 m (b + 4)"
definition block_free :: "mem \<Rightarrow> u32 \<Rightarrow> u32" where "block_free m b = load32 m (b + 8)"
definition block_next :: "mem \<Rightarrow> u32 \<Rightarrow> u32" where "block_next m b = load32 m (b + 12)"
definition block_prev :: "mem \<Rightarrow> u32 \<Rightarrow> u32" where "block_prev m b = load32 m (b + 16)"
definition block_user :: "mem \<Rightarrow> u32 \<Rightarrow> u32" where "block_user m b = load32 m (b + 20)"

definition put_block :: "u32 \<Rightarrow> u32 \<Rightarrow> u32 \<Rightarrow> u32 \<Rightarrow> u32 \<Rightarrow> u32 \<Rightarrow> u32 \<Rightarrow> mem \<Rightarrow> mem" where
  "put_block b magic siz fre nxt prv user m =
     store32 (b + 20) user (store32 (b + 16) prv (store32 (b + 12) nxt (store32 (b + 8) fre
       (store32 (b + 4) siz (store32 b magic m)))))"

record heap_state =
  hp_mem :: mem
  hp_base :: u32
  hp_allocation_failures :: u32
  hp_invalid_frees :: u32
  hp_double_frees :: u32

definition heap_reset :: "heap_state \<Rightarrow> heap_state" where
  "heap_reset st = st\<lparr>hp_base := 0\<rparr>"

section \<open>Consistency and statistics\<close>

definition heap_range_contains :: "u32 \<Rightarrow> u32 \<Rightarrow> bool" where
  "heap_range_contains address siz =
     (if address < word_of_nat HEAP_START \<or> address > HEAP_END then False
      else siz \<le> HEAP_END - address)"

definition heap_block_is_consistent :: "mem \<Rightarrow> u32 \<Rightarrow> u32 \<Rightarrow> bool" where
  "heap_block_is_consistent m block expected_prev =
     (if block = 0 \<or> \<not> heap_range_contains block block_bytes then False
      else if block_magic m block \<noteq> HEAP_MAGIC \<or> (block_free m block \<noteq> 0 \<and> block_free m block \<noteq> 1) \<or>
              block_prev m block \<noteq> expected_prev
      then False
      else
        let payload_address = block + block_bytes in
        if \<not> heap_range_contains payload_address (block_size m block) then False
        else if block_free m block \<noteq> 0 \<and> block_user m block \<noteq> 0 then False
        else if block_free m block = 0 \<and>
                (block_user m block = 0 \<or> block_user m block < payload_address \<or>
                 block_user m block \<ge> payload_address + block_size m block)
        then False
        else
          let next_address = payload_address + block_size m block in
          if block_next m block = 0 then next_address = HEAP_END
          else next_address < HEAP_END \<and> block_next m block = next_address \<and>
               heap_range_contains (block_next m block) block_bytes)"

record memory_heap_stats =
  hs_total_bytes :: u32
  hs_used_bytes :: u32
  hs_free_bytes :: u32
  hs_allocated_blocks :: u32
  hs_free_blocks :: u32
  hs_largest_free_block :: u32
  hs_fragmentation_percent :: u32
  hs_allocation_failures :: u32
  hs_invalid_frees :: u32
  hs_double_frees :: u32
  hs_initialized :: bool
  hs_valid :: bool

definition memory_heap_stats_zero :: memory_heap_stats where
  "memory_heap_stats_zero = \<lparr>hs_total_bytes = 0, hs_used_bytes = 0, hs_free_bytes = 0,
     hs_allocated_blocks = 0, hs_free_blocks = 0, hs_largest_free_block = 0,
     hs_fragmentation_percent = 0, hs_allocation_failures = 0, hs_invalid_frees = 0,
     hs_double_frees = 0, hs_initialized = False, hs_valid = False\<rparr>"

definition heap_max_blocks :: nat where
  "heap_max_blocks = unat (word_of_nat HEAP_SIZE div block_bytes + 1)"

definition measure_block :: "mem \<Rightarrow> u32 \<Rightarrow> memory_heap_stats \<Rightarrow> memory_heap_stats" where
  "measure_block m block stats =
     (let stats = stats\<lparr>hs_total_bytes := hs_total_bytes stats + block_size m block\<rparr> in
      if block_free m block \<noteq> 0 then
        let stats = stats\<lparr>hs_free_blocks := hs_free_blocks stats + 1,
                          hs_free_bytes := hs_free_bytes stats + block_size m block\<rparr>
        in if block_size m block > hs_largest_free_block stats
           then stats\<lparr>hs_largest_free_block := block_size m block\<rparr> else stats
      else stats\<lparr>hs_allocated_blocks := hs_allocated_blocks stats + 1,
                 hs_used_bytes := hs_used_bytes stats + block_size m block\<rparr>)"

text \<open>The loop of \<^verbatim>\<open>heap_measure\<close>; \<open>False\<close> is either of its failures.\<close>

fun measure_loop :: "nat \<Rightarrow> mem \<Rightarrow> u32 \<Rightarrow> u32 \<Rightarrow> memory_heap_stats \<Rightarrow> bool \<times> memory_heap_stats" where
  "measure_loop max_blocks m block prev stats =
     (if block = 0 then (True, stats)
      else case max_blocks of
        0 \<Rightarrow> (False, stats)
      | Suc max_blocks \<Rightarrow>
          if \<not> heap_block_is_consistent m block prev then (False, stats)
          else measure_loop max_blocks m (block_next m block) block (measure_block m block stats))"

declare measure_loop.simps [simp del]

definition heap_measure :: "heap_state \<Rightarrow> memory_heap_stats \<Rightarrow> bool \<times> memory_heap_stats" where
  "heap_measure st stats =
     (let stats = stats\<lparr>hs_initialized := (hp_base st \<noteq> 0), hs_valid := (hp_base st \<noteq> 0),
                        hs_allocation_failures := hp_allocation_failures st,
                        hs_invalid_frees := hp_invalid_frees st, hs_double_frees := hp_double_frees st\<rparr>
      in if hp_base st = 0 then (True, stats)
         else
           case measure_loop heap_max_blocks (hp_mem st) (hp_base st) 0 stats of
             (False, stats) \<Rightarrow> (False, stats\<lparr>hs_valid := False\<rparr>)
           | (True, stats) \<Rightarrow>
               (True, if hs_free_bytes stats \<noteq> 0
                      then stats\<lparr>hs_fragmentation_percent :=
                             ((hs_free_bytes stats - hs_largest_free_block stats) * 100) div hs_free_bytes stats\<rparr>
                      else stats))"

definition memory_get_heap_stats :: "heap_state \<Rightarrow> bool \<Rightarrow> memory_heap_stats option" where
  "memory_get_heap_stats st has_stats =
     (if \<not> has_stats then None else Some (snd (heap_measure st memory_heap_stats_zero)))"

section \<open>Allocation\<close>

definition heap_align_size :: "u32 \<Rightarrow> u32" where
  "heap_align_size siz =
     (let padding = HEAP_ALIGNMENT - 1 in
      if siz > 0xFFFFFFFF - padding then 0 else (siz + padding) AND NOT padding)"

definition heap_initialize :: "heap_state \<Rightarrow> heap_state" where
  "heap_initialize st =
     (if hp_base st \<noteq> 0 then st
      else st\<lparr>hp_base := word_of_nat HEAP_START,
              hp_mem := put_block (word_of_nat HEAP_START) HEAP_MAGIC (word_of_nat HEAP_SIZE - block_bytes) 1 0 0 0
                          (hp_mem st)\<rparr>)"

text \<open>Taking a free block, split when the rest is large enough for one more.\<close>

definition take_block :: "mem \<Rightarrow> u32 \<Rightarrow> u32 \<Rightarrow> mem" where
  "take_block m cur aligned_size =
     (let m = (if block_size m cur - aligned_size \<ge> block_bytes + HEAP_MIN_SPLIT then
                 let new_block = cur + block_bytes + aligned_size;
                     nxt = block_next m cur;
                     m = put_block new_block HEAP_MAGIC (block_size m cur - aligned_size - block_bytes) 1 nxt cur 0 m;
                     m = (if nxt \<noteq> 0 then store32 (nxt + 16) new_block m else m);
                     m = store32 (cur + 12) new_block m
                 in store32 (cur + 4) aligned_size m
               else m);
          m = store32 (cur + 8) 0 m
      in store32 (cur + 20) (cur + block_bytes) m)"

text \<open>The search of \<^verbatim>\<open>kmalloc_internal\<close>; \<open>None\<close> is each of its failures.\<close>

fun kmalloc_loop :: "nat \<Rightarrow> mem \<Rightarrow> u32 \<Rightarrow> u32 \<Rightarrow> u32 \<Rightarrow> u32 option" where
  "kmalloc_loop max_blocks m cur previous aligned_size =
     (if cur = 0 then None
      else case max_blocks of
        0 \<Rightarrow> None
      | Suc max_blocks \<Rightarrow>
          if \<not> heap_block_is_consistent m cur previous then None
          else if block_free m cur \<noteq> 0 \<and> block_size m cur \<ge> aligned_size then Some cur
          else kmalloc_loop max_blocks m (block_next m cur) cur aligned_size)"

declare kmalloc_loop.simps [simp del]

definition heap_fail :: "heap_state \<Rightarrow> u32 \<times> heap_state" where
  "heap_fail st = (0, st\<lparr>hp_allocation_failures := hp_allocation_failures st + 1\<rparr>)"

definition kmalloc_internal :: "heap_state \<Rightarrow> u32 \<Rightarrow> u32 \<times> heap_state" where
  "kmalloc_internal st siz =
     (if siz = 0 \<or> siz > word_of_nat HEAP_SIZE - block_bytes then heap_fail st
      else
        let aligned_size = heap_align_size siz in
        if aligned_size = 0 \<or> aligned_size > word_of_nat HEAP_SIZE - block_bytes then heap_fail st
        else
          let st = heap_initialize st in
          case kmalloc_loop heap_max_blocks (hp_mem st) (hp_base st) 0 aligned_size of
            None \<Rightarrow> heap_fail st
          | Some cur \<Rightarrow> (cur + block_bytes, st\<lparr>hp_mem := take_block (hp_mem st) cur aligned_size\<rparr>))"

definition kmalloc :: "heap_state \<Rightarrow> u32 \<Rightarrow> u32 \<times> heap_state" where
  "kmalloc st siz = kmalloc_internal st siz"

section \<open>Release\<close>

definition heap_block_matches :: "mem \<Rightarrow> u32 \<Rightarrow> u32 \<Rightarrow> bool" where
  "heap_block_matches m block user_ptr =
     (if block = 0 \<or> user_ptr = 0 then False
      else if \<not> heap_range_contains block block_bytes then False
      else if block_magic m block \<noteq> HEAP_MAGIC \<or> block_user m block \<noteq> user_ptr then False
      else
        let payload_address = block + block_bytes in
        if \<not> heap_range_contains payload_address (block_size m block) then False
        else user_ptr \<ge> payload_address \<and> user_ptr < payload_address + block_size m block)"

definition heap_block_from_pointer :: "mem \<Rightarrow> u32 \<Rightarrow> u32" where
  "heap_block_from_pointer m ptr =
     (if ptr = 0 then 0
      else if \<not> heap_range_contains ptr 1 then 0
      else
        let header = ptr - aligned_bytes in
        if ptr AND (word_of_nat PAGE_SIZE - 1) = 0 \<and> ptr \<ge> word_of_nat HEAP_START + aligned_bytes \<and>
           load32 m header = HEAP_MAGIC_ALIGNED \<and> heap_block_matches m (load32 m (header + 4)) ptr
        then load32 m (header + 4)
        else if ptr < word_of_nat HEAP_START + block_bytes then 0
        else if heap_block_matches m (ptr - block_bytes) ptr then ptr - block_bytes
        else 0)"

definition heap_pointer_was_freed :: "mem \<Rightarrow> u32 \<Rightarrow> bool" where
  "heap_pointer_was_freed m ptr =
     (if ptr = 0 then False
      else if \<not> heap_range_contains ptr 1 then False
      else
        let header = ptr - aligned_bytes in
        if ptr AND (word_of_nat PAGE_SIZE - 1) = 0 \<and> ptr \<ge> word_of_nat HEAP_START + aligned_bytes \<and>
           load32 m header = HEAP_MAGIC_ALIGNED \<and> heap_range_contains (load32 m (header + 4)) block_bytes \<and>
           block_magic m (load32 m (header + 4)) = HEAP_MAGIC_FREED
        then True
        else if ptr < word_of_nat HEAP_START + block_bytes then False
        else heap_range_contains (ptr - block_bytes) block_bytes \<and>
             block_magic m (ptr - block_bytes) = HEAP_MAGIC_FREED)"

definition heap_merge_next :: "u32 \<Rightarrow> mem \<Rightarrow> mem" where
  "heap_merge_next block m =
     (if block = 0 then m
      else
        let nxt = block_next m block in
        if nxt = 0 \<or> block_free m nxt = 0 then m
        else if block_magic m nxt \<noteq> HEAP_MAGIC then m
        else
          let m = store32 (block + 4) (block_size m block + block_bytes + block_size m nxt) m;
              m = store32 (block + 12) (block_next m nxt) m;
              m = (if block_next m block \<noteq> 0 then store32 (block_next m block + 16) block m else m)
          in put_block nxt HEAP_MAGIC_FREED 0 1 0 0 0 m)"

definition free_block :: "mem \<Rightarrow> u32 \<Rightarrow> mem" where
  "free_block m block =
     (let m = store32 (block + 8) 1 m;
          m = store32 (block + 20) 0 m;
          m = heap_merge_next block m;
          prev = block_prev m block
      in if prev \<noteq> 0 \<and> block_magic m prev = HEAP_MAGIC \<and> block_free m prev \<noteq> 0
         then heap_merge_next prev m else m)"

definition kfree :: "heap_state \<Rightarrow> u32 \<Rightarrow> heap_state" where
  "kfree st ptr =
     (if ptr = 0 then st
      else
        let block = heap_block_from_pointer (hp_mem st) ptr in
        if block = 0 then
          if heap_pointer_was_freed (hp_mem st) ptr
          then st\<lparr>hp_double_frees := hp_double_frees st + 1\<rparr>
          else st\<lparr>hp_invalid_frees := hp_invalid_frees st + 1\<rparr>
        else if block_free (hp_mem st) block \<noteq> 0
        then st\<lparr>hp_double_frees := hp_double_frees st + 1\<rparr>
        else st\<lparr>hp_mem := free_block (hp_mem st) block\<rparr>)"

definition kmalloc_aligned :: "heap_state \<Rightarrow> u32 \<Rightarrow> u32 \<times> heap_state" where
  "kmalloc_aligned st siz =
     (let max_size = word_of_nat HEAP_SIZE - block_bytes - word_of_nat PAGE_SIZE - aligned_bytes in
      if siz = 0 \<or> siz > max_size then heap_fail st
      else
        let total_size = siz + word_of_nat PAGE_SIZE + aligned_bytes;
            (raw_address, st) = kmalloc_internal st total_size
        in if raw_address = 0 then (0, st)
        else
          let aligned_address = word_of_nat (align_up (unat (raw_address + aligned_bytes)) PAGE_SIZE) in
          if aligned_address = 0 \<or> \<not> heap_range_contains aligned_address siz
          then heap_fail (kfree st raw_address)
          else
            let block = raw_address - block_bytes;
                header = aligned_address - aligned_bytes;
                m = store32 header HEAP_MAGIC_ALIGNED (hp_mem st);
                m = store32 (header + 4) block m;
                m = store32 (block + 20) aligned_address m
            in (aligned_address, st\<lparr>hp_mem := m\<rparr>))"

end
