(* ===== verification/Heap_Correct.thy ===== *)
theory Heap_Correct
  imports Heap Pmm_Correct
begin

text \<open>
  Correctness of the kernel heap. The bytes of the heap are read as a list of blocks that
  tile it; every operation is shown to act on that list as it should, whatever the clients
  have written into the payloads they own.
\<close>

section \<open>Words in memory\<close>

text \<open>Addresses of the heap as natural numbers, all far below \<open>2 ^ 32\<close>.\<close>

definition rd :: "mem \<Rightarrow> nat \<Rightarrow> u32" where "rd m a = load32 m (word_of_nat a)"
definition wr :: "nat \<Rightarrow> u32 \<Rightarrow> mem \<Rightarrow> mem" where "wr a v m = store32 (word_of_nat a) v m"
definition byte_at :: "mem \<Rightarrow> nat \<Rightarrow> u8" where "byte_at m x = m (word_of_nat x)"

lemma load32_bytes:
  fixes v :: u32
  shows "ucast (ucast v :: u8) OR push_bit 8 (ucast (ucast (drop_bit 8 v) :: u8)) OR push_bit 16 (ucast (ucast (drop_bit 16 v) :: u8))
     OR push_bit 24 (ucast (ucast (drop_bit 24 v) :: u8)) = v" (is "?l = v")
proof (rule bit_word_eqI)
  fix n assume "n < LENGTH(32)"
  then show "bit ?l n = bit v n" by (cases "n < 8"; cases "n < 16"; cases "n < 24"; auto simp: bit_simps)
qed

lemma load32_store32_same: "load32 (store32 a v m) a = v"
  by (simp add: load32_def store32_def load32_bytes)

lemma word_of_nat_eq_iff: "x < 2 ^ 32 \<Longrightarrow> y < 2 ^ 32 \<Longrightarrow> (word_of_nat x :: u32) = word_of_nat y \<longleftrightarrow> x = y"
  by (metis unat_of_nat_small)

lemma word_of_nat_plus: "(word_of_nat a :: u32) + 1 = word_of_nat (a + 1)" "(word_of_nat a :: u32) + 2 = word_of_nat (a + 2)"
  "(word_of_nat a :: u32) + 3 = word_of_nat (a + 3)"
  by simp_all

lemma byte_wr:
  assumes "x < 2 ^ 32" "a + 4 \<le> 2 ^ 32" and "x < a \<or> a + 4 \<le> x"
  shows "byte_at (wr a v m) x = byte_at m x"
proof -
  have "(word_of_nat x :: u32) \<noteq> word_of_nat (a + k)" if "k < 4" for k
    using assms that word_of_nat_eq_iff [of x "a + k"] by auto
  from this [of 0] this [of 1] this [of 2] this [of 3] show ?thesis
    by (simp add: byte_at_def wr_def store32_def word_of_nat_plus del: of_nat_add)
qed

lemma rd_cong:
  assumes "\<And>x. a \<le> x \<Longrightarrow> x < a + 4 \<Longrightarrow> byte_at m' x = byte_at m x"
  shows "rd m' a = rd m a"
  using assms [of a] assms [of "a + 1"] assms [of "a + 2"] assms [of "a + 3"]
  by (simp add: rd_def byte_at_def load32_def word_of_nat_plus del: of_nat_add)

lemma rd_wr_same [simp]: "rd (wr a v m) a = v"
  by (simp add: rd_def wr_def load32_store32_same)

lemma rd_wr:
  assumes "a + 4 \<le> 2 ^ 32" "b + 4 \<le> 2 ^ 32" and "b + 4 \<le> a \<or> a + 4 \<le> b"
  shows "rd (wr a v m) b = rd m b"
  by (rule rd_cong, rule byte_wr) (use assms in auto)

section \<open>Blocks\<close>

text \<open>
  The heap as a list of blocks, each its payload size and the pointer handed out for it, zero
  for a free block. Sizes are in bytes, without the header.
\<close>

type_synonym blk = "nat \<times> nat"

definition hdr :: "mem \<Rightarrow> nat \<Rightarrow> blk \<Rightarrow> nat \<Rightarrow> nat \<Rightarrow> bool" where
  "hdr m a b p x \<longleftrightarrow>
     rd m a = HEAP_MAGIC \<and> rd m (a + 4) = word_of_nat (fst b) \<and> rd m (a + 8) = (if snd b = 0 then 1 else 0) \<and>
     rd m (a + 12) = word_of_nat x \<and> rd m (a + 16) = word_of_nat p \<and> rd m (a + 20) = word_of_nat (snd b)"

definition aligned_ok :: "mem \<Rightarrow> nat \<Rightarrow> blk \<Rightarrow> bool" where
  "aligned_ok m a b \<longleftrightarrow>
     snd b = 0 \<or> snd b = a + 24 \<or>
     a + 32 \<le> snd b \<and> snd b < a + 24 + fst b \<and> PAGE_SIZE dvd snd b \<and>
     rd m (snd b - 8) = HEAP_MAGIC_ALIGNED \<and> rd m (snd b - 4) = word_of_nat a"

definition size_ok :: "blk \<Rightarrow> bool" where
  "size_ok b \<longleftrightarrow> 8 \<le> fst b \<and> 8 dvd fst b"

fun tiles :: "mem \<Rightarrow> nat \<Rightarrow> nat \<Rightarrow> blk list \<Rightarrow> bool" where
  "tiles m a p [] \<longleftrightarrow> a = HEAP_START + HEAP_SIZE"
| "tiles m a p (b # bs) \<longleftrightarrow>
     hdr m a b p (if bs = [] then 0 else a + 24 + fst b) \<and> aligned_ok m a b \<and> size_ok b \<and>
     tiles m (a + 24 + fst b) a bs"

text \<open>A front part of the list: every block has a successor.\<close>

fun seg :: "mem \<Rightarrow> nat \<Rightarrow> nat \<Rightarrow> blk list \<Rightarrow> bool" where
  "seg m a p [] \<longleftrightarrow> True"
| "seg m a p (b # bs) \<longleftrightarrow>
     hdr m a b p (a + 24 + fst b) \<and> aligned_ok m a b \<and> size_ok b \<and> seg m (a + 24 + fst b) a bs"

fun span :: "blk list \<Rightarrow> nat" where
  "span [] = 0"
| "span (b # bs) = 24 + fst b + span bs"

fun last_addr :: "nat \<Rightarrow> nat \<Rightarrow> blk list \<Rightarrow> nat" where
  "last_addr a p [] = p"
| "last_addr a p (b # bs) = last_addr (a + 24 + fst b) a bs"

lemma span_append [simp]: "span (xs @ ys) = span xs + span ys"
  by (induction xs) auto

lemma tiles_append:
  "ys \<noteq> [] \<Longrightarrow> tiles m a p (xs @ ys) \<longleftrightarrow> seg m a p xs \<and> tiles m (a + span xs) (last_addr a p xs) ys"
  by (induction xs arbitrary: a p) (auto simp: add.assoc)

lemma seg_append: "seg m a p (xs @ ys) \<longleftrightarrow> seg m a p xs \<and> seg m (a + span xs) (last_addr a p xs) ys"
  by (induction xs arbitrary: a p) (auto simp: add.assoc)

lemma last_addr_append: "last_addr a p (xs @ ys) = last_addr (a + span xs) (last_addr a p xs) ys"
  by (induction xs arbitrary: a p) (auto simp: add.assoc)

lemma tiles_span: "tiles m a p bs \<Longrightarrow> a + span bs = HEAP_START + HEAP_SIZE"
  by (induction bs arbitrary: a p) (fastforce simp: add.assoc)+

lemma tiles_length: "tiles m a p bs \<Longrightarrow> 32 * length bs \<le> span bs"
  by (induction bs arbitrary: a p) (fastforce simp: size_ok_def)+

text \<open>The bytes a block keeps for itself: its header and whatever lies before the pointer.\<close>

definition meta :: "nat \<Rightarrow> blk \<Rightarrow> nat set" where
  "meta a b = {a..<a + 24} \<union> (if snd b = 0 then {} else {a + 24..<snd b})"

fun metas :: "nat \<Rightarrow> blk list \<Rightarrow> nat set" where
  "metas a [] = {}"
| "metas a (b # bs) = meta a b \<union> metas (a + 24 + fst b) bs"

lemma metas_ge: "x \<in> metas a bs \<Longrightarrow> a \<le> x"
  by (induction bs arbitrary: a) (fastforce simp: meta_def split: if_splits)+

lemma hdr_cong:
  assumes "\<And>x. a \<le> x \<Longrightarrow> x < a + 24 \<Longrightarrow> byte_at m' x = byte_at m x"
  shows "hdr m' a b p y = hdr m a b p y"
proof -
  have "rd m' (a + k) = rd m (a + k)" if "k \<le> 20" for k by (rule rd_cong) (use assms that in auto)
  from this [of 0] this [of 4] this [of 8] this [of 12] this [of 16] this [of 20] show ?thesis
    by (simp add: hdr_def)
qed

lemma aligned_ok_cong:
  assumes "\<And>x. x \<in> meta a b \<Longrightarrow> byte_at m' x = byte_at m x"
  shows "aligned_ok m' a b = aligned_ok m a b"
proof (cases "a + 32 \<le> snd b")
  case True
  then have "rd m' (snd b - 8) = rd m (snd b - 8)" "rd m' (snd b - 4) = rd m (snd b - 4)"
    by (auto intro!: rd_cong assms simp: meta_def)
  then show ?thesis by (simp add: aligned_ok_def)
qed (auto simp: aligned_ok_def)

lemma seg_cong:
  assumes "\<And>x. x \<in> metas a bs \<Longrightarrow> byte_at m' x = byte_at m x"
  shows "seg m' a p bs = seg m a p bs"
  using assms
proof (induction bs arbitrary: a p)
  case (Cons b bs)
  have "hdr m' a b p y = hdr m a b p y" for y by (rule hdr_cong) (use Cons.prems in \<open>auto simp: meta_def\<close>)
  moreover have "aligned_ok m' a b = aligned_ok m a b" by (rule aligned_ok_cong) (use Cons.prems in auto)
  moreover have "seg m' (a + 24 + fst b) a bs = seg m (a + 24 + fst b) a bs" by (rule Cons.IH) (use Cons.prems in auto)
  ultimately show ?case by simp
qed simp

lemma tiles_cong:
  assumes "\<And>x. x \<in> metas a bs \<Longrightarrow> byte_at m' x = byte_at m x"
  shows "tiles m' a p bs = tiles m a p bs"
  using assms
proof (induction bs arbitrary: a p)
  case (Cons b bs)
  have "hdr m' a b p y = hdr m a b p y" for y by (rule hdr_cong) (use Cons.prems in \<open>auto simp: meta_def\<close>)
  moreover have "aligned_ok m' a b = aligned_ok m a b" by (rule aligned_ok_cong) (use Cons.prems in auto)
  moreover have "tiles m' (a + 24 + fst b) a bs = tiles m (a + 24 + fst b) a bs" by (rule Cons.IH) (use Cons.prems in auto)
  ultimately show ?case by simp
qed simp

text \<open>The same with a new predecessor for the first block.\<close>

lemma tiles_new_prev:
  assumes "tiles m a p bs" and "\<And>x. x \<in> metas a bs \<Longrightarrow> x < a + 16 \<or> a + 20 \<le> x \<Longrightarrow> byte_at m' x = byte_at m x"
    and "bs \<noteq> [] \<Longrightarrow> rd m' (a + 16) = word_of_nat q"
  shows "tiles m' a q bs"
proof (cases bs)
  case (Cons b cs)
  have h: "hdr m a b p (if cs = [] then 0 else a + 24 + fst b)" "aligned_ok m a b" "size_ok b" "tiles m (a + 24 + fst b) a cs"
    using assms(1) Cons by simp_all
  have same: "rd m' (a + k) = rd m (a + k)" if "k \<le> 12 \<or> k = 20" for k
    using that by (intro rd_cong assms(2)) (auto simp: Cons meta_def)
  have "hdr m' a b q (if cs = [] then 0 else a + 24 + fst b)"
    using h(1) assms(3) Cons same [of 0] same [of 4] same [of 8] same [of 12] same [of 20] by (simp add: hdr_def)
  moreover have "aligned_ok m' a b"
  proof (cases "a + 32 \<le> snd b")
    case True
    then have "rd m' (snd b - 8) = rd m (snd b - 8)" "rd m' (snd b - 4) = rd m (snd b - 4)"
      by (auto intro!: rd_cong assms(2) simp: Cons meta_def)
    then show ?thesis using h(2) by (simp add: aligned_ok_def)
  qed (use h(2) in \<open>auto simp: aligned_ok_def\<close>)
  moreover have "tiles m' (a + 24 + fst b) a cs"
    using h(4) tiles_cong [of "a + 24 + fst b" cs m' m a] assms(2) metas_ge [of _ "a + 24 + fst b" cs] by (force simp: Cons)
  ultimately show ?thesis using h(3) Cons by simp
qed (use assms in simp)

lemma metas_less:
  "tiles m a p bs \<Longrightarrow> x \<in> metas a bs \<Longrightarrow> x < a + span bs"
  "seg m a p bs \<Longrightarrow> x \<in> metas a bs \<Longrightarrow> x < a + span bs"
proof -
  have one: "x < a + 24 + fst b" if "aligned_ok m a b" "size_ok b" "x \<in> meta a b" for a b
    using that by (auto simp: meta_def aligned_ok_def size_ok_def split: if_splits)
  show "tiles m a p bs \<Longrightarrow> x \<in> metas a bs \<Longrightarrow> x < a + span bs"
    by (induction bs arbitrary: a p) (use one in fastforce)+
  show "seg m a p bs \<Longrightarrow> x \<in> metas a bs \<Longrightarrow> x < a + span bs"
    by (induction bs arbitrary: a p) (use one in fastforce)+
qed

text \<open>The accessors of the model at natural-number addresses.\<close>

lemma block_reads:
  "block_magic m (word_of_nat a) = rd m a" "block_size m (word_of_nat a) = rd m (a + 4)"
  "block_free m (word_of_nat a) = rd m (a + 8)" "block_next m (word_of_nat a) = rd m (a + 12)"
  "block_prev m (word_of_nat a) = rd m (a + 16)" "block_user m (word_of_nat a) = rd m (a + 20)"
  by (simp_all add: block_magic_def block_size_def block_free_def block_next_def block_prev_def block_user_def rd_def)

lemma block_writes:
  "store32 (word_of_nat a) v m = wr a v m" "store32 (word_of_nat a + 4) v m = wr (a + 4) v m"
  "store32 (word_of_nat a + 8) v m = wr (a + 8) v m" "store32 (word_of_nat a + 12) v m = wr (a + 12) v m"
  "store32 (word_of_nat a + 16) v m = wr (a + 16) v m" "store32 (word_of_nat a + 20) v m = wr (a + 20) v m"
  by (simp_all add: wr_def)

lemma put_block_wr:
  "put_block (word_of_nat b) magic siz fre nxt prv user m =
     wr (b + 20) user (wr (b + 16) prv (wr (b + 12) nxt (wr (b + 8) fre (wr (b + 4) siz (wr b magic m)))))"
  by (simp add: put_block_def block_writes)

lemma heap_limits [simp]:
  "HEAP_END = 0x01400000" "(word_of_nat HEAP_START :: u32) = 0x01000000" "(word_of_nat HEAP_SIZE :: u32) = 0x00400000"
  by (simp_all add: HEAP_END_def HEAP_START_def HEAP_SIZE_def)

abbreviation heap_stop :: nat where "heap_stop \<equiv> HEAP_START + HEAP_SIZE"

lemma heap_nats: "HEAP_START = 0x01000000" "HEAP_SIZE = 0x00400000" "PAGE_SIZE = 4096"
  by (simp_all add: HEAP_START_def HEAP_SIZE_def PAGE_SIZE_def)

lemma word_nat_less: "a < 2 ^ 32 \<Longrightarrow> b < 2 ^ 32 \<Longrightarrow> (word_of_nat a :: u32) < word_of_nat b \<longleftrightarrow> a < b"
  "a < 2 ^ 32 \<Longrightarrow> b < 2 ^ 32 \<Longrightarrow> (word_of_nat a :: u32) \<le> word_of_nat b \<longleftrightarrow> a \<le> b"
  by (simp_all add: word_less_nat_alt word_le_nat_alt unat_of_nat_small)

lemma range_contains_nat:
  assumes "a < 2 ^ 32" "n < 2 ^ 32"
  shows "heap_range_contains (word_of_nat a) (word_of_nat n) \<longleftrightarrow> HEAP_START \<le> a \<and> a + n \<le> heap_stop"
proof -
  have lt: "(word_of_nat a :: u32) < 0x1000000 \<longleftrightarrow> a < 0x1000000" "(0x1400000 :: u32) < word_of_nat a \<longleftrightarrow> 0x1400000 < a"
    using word_nat_less(1) [OF assms(1), of "0x1000000"] word_nat_less(1) [of "0x1400000", OF _ assms(1)] by simp_all
  have "(word_of_nat n :: u32) \<le> 0x1400000 - word_of_nat a \<longleftrightarrow> n \<le> 0x1400000 - a" if "a \<le> 0x1400000"
  proof -
    have "(0x1400000 - word_of_nat a :: u32) = word_of_nat (0x1400000 - a)" using that by (simp add: of_nat_diff)
    then show ?thesis using word_nat_less(2) [OF assms(2), of "0x1400000 - a"] by simp
  qed
  then show ?thesis using lt by (auto simp: heap_range_contains_def heap_nats)
qed

lemma word_consts: "block_bytes = word_of_nat 24" "aligned_bytes = word_of_nat 8"
  by (simp_all add: block_bytes_def aligned_bytes_def)

lemma block_consistent:
  assumes h: "hdr m a b p x" "aligned_ok m a b" "size_ok b" and r: "HEAP_START \<le> a" "a + 24 + fst b \<le> heap_stop"
    and x: "x = (if a + 24 + fst b = heap_stop then 0 else a + 24 + fst b)" "x \<noteq> 0 \<Longrightarrow> x + 24 \<le> heap_stop"
  shows "heap_block_is_consistent m (word_of_nat a) (word_of_nat p)"
proof -
  have a: "a + 24 + fst b \<le> 0x1400000" "0x1000000 \<le> a" using r by (simp_all add: heap_nats)
  have u: "snd b \<le> 0x1400000" "snd b \<noteq> 0 \<Longrightarrow> a + 24 \<le> snd b \<and> snd b < a + 24 + fst b"
    using h(2,3) a by (auto simp: aligned_ok_def size_ok_def)
  have w: "(word_of_nat a :: u32) + block_bytes = word_of_nat (a + 24)" "word_of_nat (a + 24) + (word_of_nat (fst b) :: u32) = word_of_nat (a + 24 + fst b)"
    by (simp_all add: word_consts)
  have nz: "(word_of_nat a :: u32) \<noteq> 0" using word_of_nat_eq_iff [of a 0] a by simp
  have un: "(word_of_nat (snd b) :: u32) = 0 \<longleftrightarrow> snd b = 0" using word_of_nat_eq_iff [of "snd b" 0] u(1) by simp
  have c: "heap_range_contains (word_of_nat a) block_bytes" "heap_range_contains (word_of_nat (a + 24)) (word_of_nat (fst b))"
    unfolding word_consts using a range_contains_nat [of a 24] range_contains_nat [of "a + 24" "fst b"] by (simp_all add: heap_nats del: of_nat_add)
  have cmp: "(word_of_nat (snd b) :: u32) < word_of_nat (a + 24) \<longleftrightarrow> snd b < a + 24"
    "(word_of_nat (a + 24 + fst b) :: u32) \<le> word_of_nat (snd b) \<longleftrightarrow> a + 24 + fst b \<le> snd b"
    using a u(1) by (simp_all add: word_nat_less del: of_nat_add)
  have x0: "(word_of_nat x :: u32) = 0 \<longleftrightarrow> x = 0" using word_of_nat_eq_iff [of x 0] x(1) a by auto
  have "if x = 0 then (word_of_nat (a + 24 + fst b) :: u32) = HEAP_END
     else word_of_nat (a + 24 + fst b) < HEAP_END \<and> word_of_nat x = (word_of_nat (a + 24 + fst b) :: u32) \<and> heap_range_contains (word_of_nat x) block_bytes"
  proof (cases "a + 24 + fst b = heap_stop")
    case True
    then show ?thesis using x(1) unfolding True by (simp add: heap_nats)
  next
    case False
    then have xx: "x = a + 24 + fst b" "x \<noteq> 0" "x < heap_stop" using x(1) r by auto
    have "(word_of_nat x :: u32) < word_of_nat heap_stop" using xx(3) a by (subst word_nat_less) (simp_all add: heap_nats)
    moreover have "heap_range_contains (word_of_nat x) block_bytes"
      unfolding word_consts using x(2) [OF xx(2)] xx a range_contains_nat [of x 24] by (simp add: heap_nats)
    ultimately show ?thesis using xx by (simp add: heap_nats del: of_nat_add)
  qed
  moreover have H: "rd m a = HEAP_MAGIC" "rd m (a + 4) = word_of_nat (fst b)" "rd m (a + 8) = (if snd b = 0 then 1 else 0)"
    "rd m (a + 12) = word_of_nat x" "rd m (a + 16) = word_of_nat p" "rd m (a + 20) = word_of_nat (snd b)"
    using h(1) by (simp_all add: hdr_def)
  ultimately show ?thesis
    using nz c cmp u(2) un x0
    unfolding heap_block_is_consistent_def Let_def block_reads w(1) H w(2) by (auto simp del: of_nat_add split: if_splits)
qed

section \<open>Walking the list\<close>

lemma tiles_first:
  assumes "tiles m a p (b # bs)" and "HEAP_START \<le> a"
  shows "heap_block_is_consistent m (word_of_nat a) (word_of_nat p)"
    and "rd m (a + 4) = word_of_nat (fst b)" "rd m (a + 8) = (if snd b = 0 then 1 else 0)" "fst b < 2 ^ 32" "a + 24 + fst b \<le> heap_stop"
    and "rd m (a + 12) = (if bs = [] then 0 else word_of_nat (a + 24 + fst b))" and "(word_of_nat a :: u32) \<noteq> 0"
proof -
  have t: "hdr m a b p (if bs = [] then 0 else a + 24 + fst b)" "aligned_ok m a b" "size_ok b" "tiles m (a + 24 + fst b) a bs"
    using assms(1) by simp_all
  have sp: "a + 24 + fst b + span bs = heap_stop" by (rule tiles_span [OF t(4)])
  have em: "bs = [] \<longleftrightarrow> span bs = 0" "bs \<noteq> [] \<Longrightarrow> 24 \<le> span bs" by (cases bs; simp)+
  have eq: "(if bs = [] then 0 else a + 24 + fst b) = (if a + 24 + fst b = heap_stop then 0 else a + 24 + fst b)"
    using sp em(1) by auto
  show "heap_block_is_consistent m (word_of_nat a) (word_of_nat p)"
  proof (rule block_consistent [OF t(1-3) assms(2) _ eq])
    show "a + 24 + fst b \<le> heap_stop" using sp by simp
    assume "(if bs = [] then 0 else a + 24 + fst b) \<noteq> 0"
    then show "(if bs = [] then 0 else a + 24 + fst b) + 24 \<le> heap_stop" using sp em(2) by (auto split: if_splits)
  qed
  show "rd m (a + 4) = word_of_nat (fst b)" "rd m (a + 8) = (if snd b = 0 then 1 else 0)"
    "rd m (a + 12) = (if bs = [] then 0 else word_of_nat (a + 24 + fst b))"
    using t(1) by (simp_all add: hdr_def)
  show "a + 24 + fst b \<le> heap_stop" using sp by simp
  then show "fst b < 2 ^ 32" "(word_of_nat a :: u32) \<noteq> 0"
    using word_of_nat_eq_iff [of a 0] assms(2) by (simp_all add: heap_nats)
qed

definition fits :: "nat \<Rightarrow> blk \<Rightarrow> bool" where
  "fits s b \<longleftrightarrow> snd b = 0 \<and> s \<le> fst b"

lemma kmalloc_loop_first_fit:
  assumes "tiles m a p bs" and "HEAP_START \<le> a" and "length bs \<le> fuel" and s: "s < 2 ^ 32"
  shows "kmalloc_loop fuel m (if bs = [] then 0 else word_of_nat a) (word_of_nat p) (word_of_nat s) =
    map_option (\<lambda>i. word_of_nat (a + span (take i bs))) (first_index (fits s) bs)"
  using assms(1-3)
proof (induction bs arbitrary: a p fuel)
  case Nil
  then show ?case by (simp add: kmalloc_loop.simps)
next
  case (Cons b bs)
  note f = tiles_first [OF Cons.prems(1,2)]
  obtain k where k: "fuel = Suc k" "length bs \<le> k" using Cons.prems(3) by (cases fuel) auto
  have le: "(word_of_nat s :: u32) \<le> word_of_nat (fst b) \<longleftrightarrow> s \<le> fst b" by (rule word_nat_less(2) [OF s f(4)])
  have step: "kmalloc_loop fuel m (word_of_nat a) (word_of_nat p) (word_of_nat s) =
      (if fits s b then Some (word_of_nat a)
       else kmalloc_loop k m (if bs = [] then 0 else word_of_nat (a + 24 + fst b)) (word_of_nat a) (word_of_nat s))"
    by (subst kmalloc_loop.simps) (simp add: k f(1,2,3,6,7) block_reads le fits_def del: of_nat_add)
  have "kmalloc_loop k m (if bs = [] then 0 else word_of_nat (a + 24 + fst b)) (word_of_nat a) (word_of_nat s) =
    map_option (\<lambda>i. word_of_nat (a + 24 + fst b + span (take i bs))) (first_index (fits s) bs)"
    using Cons.prems(1,2) k(2) by (intro Cons.IH) simp_all
  then show ?case using step by (simp add: option.map_comp comp_def add.assoc del: of_nat_add)
qed

lemma heap_fuel: "tiles m HEAP_START 0 bs \<Longrightarrow> length bs \<le> heap_max_blocks"
  using tiles_length [of m HEAP_START 0 bs] tiles_span [of m HEAP_START 0 bs]
  by (simp add: heap_max_blocks_def block_bytes_def heap_nats)

section \<open>Replacing blocks\<close>

text \<open>Blocks in the middle of the list, \<open>x\<close> being what the last one links to.\<close>

fun part :: "mem \<Rightarrow> nat \<Rightarrow> nat \<Rightarrow> blk list \<Rightarrow> nat \<Rightarrow> bool" where
  "part m a p [] x \<longleftrightarrow> True"
| "part m a p (b # bs) x \<longleftrightarrow>
     hdr m a b p (if bs = [] then x else a + 24 + fst b) \<and> aligned_ok m a b \<and> size_ok b \<and>
     part m (a + 24 + fst b) a bs x"

lemma tiles_part:
  "bs \<noteq> [] \<Longrightarrow> tiles m a p (bs @ ys) \<longleftrightarrow>
     part m a p bs (if ys = [] then 0 else a + span bs) \<and> tiles m (a + span bs) (last_addr a p bs) ys"
proof (induction bs arbitrary: a p)
  case (Cons b bs)
  show ?case
  proof (cases "bs = []")
    case False
    then show ?thesis using Cons.IH [OF False] by (auto simp: add.assoc)
  qed (auto simp: add.assoc)
qed simp

text \<open>The bytes the clients own.\<close>

fun datas :: "nat \<Rightarrow> blk list \<Rightarrow> nat set" where
  "datas a [] = {}"
| "datas a (b # bs) = (if snd b = 0 then {} else {snd b..<a + 24 + fst b}) \<union> datas (a + 24 + fst b) bs"

lemma datas_append: "datas a (xs @ ys) = datas a xs \<union> datas (a + span xs) ys"
  by (induction xs arbitrary: a) (auto simp: add.assoc)

lemma datas_bounds:
  "x \<in> datas a bs \<Longrightarrow> x < a + span bs" "tiles m a p bs \<Longrightarrow> x \<in> datas a bs \<Longrightarrow> a + 24 \<le> x"
proof -
  show "x \<in> datas a bs \<Longrightarrow> x < a + span bs" by (induction bs arbitrary: a) (fastforce split: if_splits)+
  show "tiles m a p bs \<Longrightarrow> x \<in> datas a bs \<Longrightarrow> a + 24 \<le> x"
    by (induction bs arbitrary: a p) (fastforce simp: aligned_ok_def split: if_splits)+
qed

definition changes_only :: "nat \<Rightarrow> nat \<Rightarrow> mem \<Rightarrow> mem \<Rightarrow> bool" where
  "changes_only a b m m' \<longleftrightarrow> (\<forall>x < 2 ^ 32. (x < a \<or> b + 20 \<le> x \<or> b \<le> x \<and> x < b + 16) \<longrightarrow> byte_at m' x = byte_at m x)"

lemma replace_blocks:
  assumes t: "tiles m HEAP_START 0 (xs @ old @ ys)" and ne: "old \<noteq> []" "new \<noteq> []" and sp: "span new = span old"
  defines "a \<equiv> HEAP_START + span xs" and "p \<equiv> last_addr HEAP_START 0 xs"
  assumes new: "part m' a p new (if ys = [] then 0 else a + span new)"
    and ch: "changes_only a (a + span old) m m'"
    and nx: "ys \<noteq> [] \<Longrightarrow> rd m' (a + span old + 16) = word_of_nat (last_addr a p new)"
  shows "tiles m' HEAP_START 0 (xs @ new @ ys)"
    and "x \<in> datas HEAP_START xs \<union> datas (a + span old) ys \<Longrightarrow> byte_at m' x = byte_at m x"
proof -
  have s: "seg m HEAP_START 0 xs" "tiles m a p (old @ ys)"
    using t tiles_append [of "old @ ys" m HEAP_START 0 xs] ne by (simp_all add: a_def p_def)
  have y: "tiles m (a + span old) (last_addr a p old) ys" using s(2) tiles_part [OF ne(1)] by simp
  have stop: "a + span old + span ys = heap_stop" using tiles_span [OF y] .
  have le: "x < 2 ^ 32" if "x < heap_stop" for x :: nat using that by (simp add: heap_nats)
  have keep: "byte_at m' x = byte_at m x" if "x < heap_stop" "x < a \<or> a + span old + 20 \<le> x \<or> a + span old \<le> x \<and> x < a + span old + 16" for x
    using ch le [OF that(1)] that(2) unfolding changes_only_def by blast
  have "seg m' HEAP_START 0 xs"
  proof -
    have "byte_at m' x = byte_at m x" if "x \<in> metas HEAP_START xs" for x
      using metas_less(2) [OF s(1) that] stop by (intro keep) (simp_all add: a_def)
    then show ?thesis using s(1) seg_cong by blast
  qed
  moreover have "tiles m' (a + span new) (last_addr a p new) ys"
    unfolding sp
  proof (rule tiles_new_prev [OF y])
    fix x assume x: "x \<in> metas (a + span old) ys" "x < a + span old + 16 \<or> a + span old + 20 \<le> x"
    then show "byte_at m' x = byte_at m x"
      using metas_less(1) [OF y x(1)] metas_ge [OF x(1)] stop by (intro keep) auto
  qed (use nx in simp)
  ultimately have "tiles m' a p (new @ ys)" "seg m' HEAP_START 0 xs" using tiles_part [OF ne(2)] new by simp_all
  then show "tiles m' HEAP_START 0 (xs @ new @ ys)"
    using tiles_append [of "new @ ys" m' HEAP_START 0 xs] ne by (simp add: a_def p_def)
  assume "x \<in> datas HEAP_START xs \<union> datas (a + span old) ys"
  then consider "x \<in> datas HEAP_START xs" | "x \<in> datas (a + span old) ys" by blast
  then show "byte_at m' x = byte_at m x"
  proof cases
    case 1
    then show ?thesis using datas_bounds(1) [OF 1] stop by (intro keep) (simp_all add: a_def)
  next
    case 2
    then show ?thesis using datas_bounds(1) [OF 2] datas_bounds(2) [OF y 2] stop by (intro keep) auto
  qed
qed

lemma tiles_middle:
  assumes "tiles m HEAP_START 0 (xs @ b # ys)"
  defines "a \<equiv> HEAP_START + span xs" and "p \<equiv> last_addr HEAP_START 0 xs"
  shows "hdr m a b p (if ys = [] then 0 else a + 24 + fst b)" "aligned_ok m a b" "size_ok b"
    "a + 24 + fst b + span ys = heap_stop" "ys \<noteq> [] \<Longrightarrow> a + 24 + fst b + 32 \<le> heap_stop"
    "tiles m a p (b # ys)" "tiles m (a + 24 + fst b) a ys"
proof -
  have t: "tiles m a p (b # ys)" using assms tiles_append [of "b # ys" m HEAP_START 0 xs] by simp
  then show "hdr m a b p (if ys = [] then 0 else a + 24 + fst b)" "aligned_ok m a b" "size_ok b" "tiles m (a + 24 + fst b) a ys"
    by simp_all
  note y = this(4)
  show "tiles m a p (b # ys)" by (rule t)
  show sp: "a + 24 + fst b + span ys = heap_stop" by (rule tiles_span [OF y])
  show "a + 24 + fst b + 32 \<le> heap_stop" if "ys \<noteq> []"
    using that sp tiles_length [OF y] by (cases ys) simp_all
qed

section \<open>Taking a block\<close>

lemma take_block_whole:
  assumes t: "tiles m HEAP_START 0 (xs @ (n, 0) # ys)" and s: "s \<le> n" "n - s < 40"
  defines "a \<equiv> HEAP_START + span xs"
  defines "m' \<equiv> take_block m (word_of_nat a) (word_of_nat s)"
  shows "tiles m' HEAP_START 0 (xs @ (n, a + 24) # ys)"
    and "x \<in> datas HEAP_START (xs @ (n, 0) # ys) \<Longrightarrow> byte_at m' x = byte_at m x"
proof -
  note f = tiles_middle [OF t, folded a_def, simplified]
  let ?p = "last_addr HEAP_START 0 xs"
  have b: "a + 24 + n \<le> 0x1400000" using f(4) by (simp add: heap_nats)
  have H: "rd m a = HEAP_MAGIC" "rd m (a + 4) = word_of_nat n" "rd m (a + 12) = word_of_nat (if ys = [] then 0 else a + 24 + n)"
     "rd m (a + 16) = word_of_nat ?p" using f(1) by (simp_all add: hdr_def)
  have "(word_of_nat n - word_of_nat s :: u32) = word_of_nat (n - s)" using s by (simp add: of_nat_diff)
  moreover have "\<not> block_bytes + HEAP_MIN_SPLIT \<le> (word_of_nat (n - s) :: u32)"
    using s b word_nat_less(2) [of 40 "n - s"] by (simp add: block_bytes_def HEAP_MIN_SPLIT_def)
  ultimately have m': "m' = wr (a + 20) (word_of_nat (a + 24)) (wr (a + 8) 0 m)"
    unfolding m'_def take_block_def Let_def block_reads H(2) by (simp add: block_writes word_consts)
  have r: "rd m' a = HEAP_MAGIC" "rd m' (a + 4) = word_of_nat n" "rd m' (a + 8) = 0"
    "rd m' (a + 12) = word_of_nat (if ys = [] then 0 else a + 24 + n)" "rd m' (a + 16) = word_of_nat ?p"
    "rd m' (a + 20) = word_of_nat (a + 24)"
    using b H unfolding m' by (simp_all add: rd_wr del: of_nat_add)
  have "part m' a ?p [(n, a + 24)] (if ys = [] then 0 else a + span [(n, a + 24)])"
    using r f(3) by (simp add: hdr_def aligned_ok_def size_ok_def)
  moreover have "changes_only a (a + span [(n, 0)]) m m'"
    using b unfolding changes_only_def m' by (auto simp: byte_wr)
  moreover have "rd m' (a + span [(n, 0)] + 16) = word_of_nat (last_addr a ?p [(n, a + 24)])" if "ys \<noteq> []"
  proof -
    obtain c cs where ys: "ys = c # cs" using \<open>ys \<noteq> []\<close> by (auto simp: neq_Nil_conv)
    have "rd m (a + 24 + n + 16) = word_of_nat a" using f(7) unfolding ys by (simp add: hdr_def)
    then show ?thesis using b f(5) [OF that] unfolding m' by (simp add: rd_wr heap_nats del: of_nat_add)
  qed
  ultimately show "tiles m' HEAP_START 0 (xs @ (n, a + 24) # ys)"
    "x \<in> datas HEAP_START (xs @ (n, 0) # ys) \<Longrightarrow> byte_at m' x = byte_at m x"
    using replace_blocks [of m xs "[(n, 0)]" ys "[(n, a + 24)]" m', folded a_def] t by (simp_all add: datas_append add.assoc a_def)
qed

lemma take_block_split:
  assumes t: "tiles m HEAP_START 0 (xs @ (s + 24 + r, 0) # ys)" and s: "8 \<le> s" "8 dvd s" "16 \<le> r"
  defines "a \<equiv> HEAP_START + span xs"
  defines "m' \<equiv> take_block m (word_of_nat a) (word_of_nat s)"
  shows "tiles m' HEAP_START 0 (xs @ (s, a + 24) # (r, 0) # ys)"
    and "x \<in> datas HEAP_START (xs @ (s + 24 + r, 0) # ys) \<Longrightarrow> byte_at m' x = byte_at m x"
proof -
  note f = tiles_middle [OF t, folded a_def, simplified]
  let ?p = "last_addr HEAP_START 0 xs" and ?c = "a + 24 + s"
  define b where "b = a + 24 + s + 24 + r"
  define nx :: nat where "nx = (if ys = [] then 0 else b)"
  have bl: "b \<le> 0x1400000" "0x1000000 \<le> a" "ys \<noteq> [] \<Longrightarrow> b + 32 \<le> 0x1400000"
    using f(4,5) by (simp_all add: heap_nats b_def a_def)
  have H: "rd m a = HEAP_MAGIC" "rd m (a + 4) = word_of_nat (s + 24 + r)" "rd m (a + 12) = word_of_nat nx"
     "rd m (a + 16) = word_of_nat ?p" using f(1) by (simp_all add: hdr_def nx_def b_def add.assoc)
  have d: "(word_of_nat (s + 24 + r) - word_of_nat s :: u32) = word_of_nat (24 + r)" by simp
  have d2: "(word_of_nat (24 + r) - block_bytes :: u32) = word_of_nat r" by (simp add: block_bytes_def)
  have c: "block_bytes + HEAP_MIN_SPLIT \<le> (word_of_nat (24 + r) :: u32)"
    using s bl word_nat_less(2) [of 40 "24 + r"] by (simp add: block_bytes_def HEAP_MIN_SPLIT_def b_def)
  have nb: "word_of_nat a + block_bytes + word_of_nat s = (word_of_nat ?c :: u32)" by (simp add: word_consts)
  have nz: "(word_of_nat nx :: u32) = 0 \<longleftrightarrow> ys = []" using word_of_nat_eq_iff [of nx 0] bl by (auto simp: nx_def b_def)
  define m1 where "m1 = wr (?c + 20) 0 (wr (?c + 16) (word_of_nat a) (wr (?c + 12) (word_of_nat nx) (wr (?c + 8) 1
      (wr (?c + 4) (word_of_nat r) (wr ?c HEAP_MAGIC m)))))"
  define m2 where "m2 = (if ys = [] then m1 else wr (b + 16) (word_of_nat ?c) m1)"
  have m': "m' = wr (a + 20) (word_of_nat (a + 24)) (wr (a + 8) 0 (wr (a + 4) (word_of_nat s) (wr (a + 12) (word_of_nat ?c) m2)))"
    unfolding m'_def take_block_def Let_def block_reads H(2,3) d d2 if_P [OF c] nb put_block_wr nz block_writes
    by (simp add: m1_def m2_def nx_def word_consts)
  have r2: "rd m2 a = HEAP_MAGIC" "rd m2 (a + 16) = word_of_nat ?p" "rd m2 ?c = HEAP_MAGIC" "rd m2 (?c + 4) = word_of_nat r"
    "rd m2 (?c + 8) = 1" "rd m2 (?c + 12) = word_of_nat nx" "rd m2 (?c + 16) = word_of_nat a" "rd m2 (?c + 20) = 0"
    "ys \<noteq> [] \<Longrightarrow> rd m2 (b + 16) = word_of_nat ?c"
    using bl H unfolding m2_def m1_def b_def by (simp_all add: rd_wr del: of_nat_add)
  have r: "rd m' a = HEAP_MAGIC" "rd m' (a + 4) = word_of_nat s" "rd m' (a + 8) = 0" "rd m' (a + 12) = word_of_nat ?c"
    "rd m' (a + 16) = word_of_nat ?p" "rd m' (a + 20) = word_of_nat (a + 24)" "rd m' ?c = HEAP_MAGIC" "rd m' (?c + 4) = word_of_nat r"
    "rd m' (?c + 8) = 1" "rd m' (?c + 12) = word_of_nat nx" "rd m' (?c + 16) = word_of_nat a" "rd m' (?c + 20) = 0"
    "ys \<noteq> [] \<Longrightarrow> rd m' (b + 16) = word_of_nat ?c"
    using bl r2 unfolding m' b_def by (simp_all add: rd_wr del: of_nat_add)
  have dv: "8 dvd r" using f(3) s(2) unfolding size_ok_def fst_conv by presburger
  have "part m' a ?p [(s, a + 24), (r, 0)] (if ys = [] then 0 else a + span [(s, a + 24), (r, 0)])"
    using r s dv by (simp add: hdr_def aligned_ok_def size_ok_def nx_def b_def add.assoc)
  moreover have "changes_only a (a + span [(s + 24 + r, 0)]) m m'"
    using bl unfolding changes_only_def m' m2_def m1_def b_def by (auto simp: byte_wr)
  moreover have "rd m' (a + span [(s + 24 + r, 0)] + 16) = word_of_nat (last_addr a ?p [(s, a + 24), (r, 0)])" if "ys \<noteq> []"
    using r(13) [OF that] by (simp add: b_def add.assoc)
  ultimately show "tiles m' HEAP_START 0 (xs @ (s, a + 24) # (r, 0) # ys)"
    "x \<in> datas HEAP_START (xs @ (s + 24 + r, 0) # ys) \<Longrightarrow> byte_at m' x = byte_at m x"
    using replace_blocks [of m xs "[(s + 24 + r, 0)]" ys "[(s, a + 24), (r, 0)]" m', folded a_def] t
    by (simp_all add: datas_append add.assoc a_def)
qed

section \<open>Giving a block back\<close>

lemma merge_next_free:
  assumes t: "tiles m HEAP_START 0 (xs @ (n, 0) # (k, 0) # ys)"
  defines "a \<equiv> HEAP_START + span xs"
  defines "m' \<equiv> heap_merge_next (word_of_nat a) m"
  shows "tiles m' HEAP_START 0 (xs @ (n + 24 + k, 0) # ys)"
    and "x \<in> datas HEAP_START (xs @ (n, 0) # (k, 0) # ys) \<Longrightarrow> byte_at m' x = byte_at m x"
    and "rd m' (a + 24 + n) = HEAP_MAGIC_FREED" and "rd m' (a + 24 + n + 16) = 0"
    and "a + 24 \<le> x \<Longrightarrow> x < a + 24 + n \<or> a + 24 + n + 24 \<le> x \<and> x < a + 24 + n + 24 + k \<Longrightarrow> byte_at m' x = byte_at m x"
proof -
  note f = tiles_middle [OF t, folded a_def, simplified]
  let ?p = "last_addr HEAP_START 0 xs" and ?c = "a + 24 + n"
  define b where "b = a + 24 + n + 24 + k"
  define nx :: nat where "nx = (if ys = [] then 0 else b)"
  have y: "tiles m b ?c ys" "hdr m ?c (k, 0) a nx" "size_ok (k, 0)"
    using tiles_middle(7) [OF t, folded a_def] unfolding tiles.simps fst_conv b_def nx_def by blast+
  have bl: "b \<le> 0x1400000" "0x1000000 \<le> a" "ys \<noteq> [] \<Longrightarrow> b + 32 \<le> 0x1400000"
    using tiles_span [OF y(1)] tiles_length [OF y(1)] by (cases ys; simp add: heap_nats a_def)+
  have H: "rd m a = HEAP_MAGIC" "rd m (a + 4) = word_of_nat n" "rd m (a + 8) = 1" "rd m (a + 12) = word_of_nat ?c"
     "rd m (a + 16) = word_of_nat ?p" "rd m (a + 20) = 0" using f(1) by (simp_all add: hdr_def)
  have C: "rd m ?c = HEAP_MAGIC" "rd m (?c + 4) = word_of_nat k" "rd m (?c + 8) = 1" "rd m (?c + 12) = word_of_nat nx"
    using y(2) by (simp_all add: hdr_def)
  have nz: "(word_of_nat a :: u32) \<noteq> 0" "(word_of_nat ?c :: u32) \<noteq> 0" "(word_of_nat nx :: u32) = 0 \<longleftrightarrow> ys = []"
    using word_of_nat_eq_iff [of a 0] word_of_nat_eq_iff [of ?c 0] word_of_nat_eq_iff [of nx 0] bl by (auto simp: nx_def b_def simp del: of_nat_add)
  define m1 where "m1 = wr (a + 12) (word_of_nat nx) (wr (a + 4) (word_of_nat (n + 24 + k)) m)"
  define m2 where "m2 = (if ys = [] then m1 else wr (b + 16) (word_of_nat a) m1)"
  have m': "m' = wr (?c + 20) 0 (wr (?c + 16) 0 (wr (?c + 12) 0 (wr (?c + 8) 1 (wr (?c + 4) 0 (wr ?c HEAP_MAGIC_FREED m2)))))"
  proof -
    have s1: "word_of_nat n + block_bytes + word_of_nat k = (word_of_nat (n + 24 + k) :: u32)" by (simp add: word_consts)
    have r1: "rd (wr (a + 4) (word_of_nat (n + 24 + k)) m) (?c + 12) = word_of_nat nx" using C(4) bl by (simp add: rd_wr b_def del: of_nat_add)
    show ?thesis
      unfolding m'_def heap_merge_next_def Let_def block_reads H(2,4) C(1,2,3) s1 put_block_wr block_writes r1
      using nz by (simp add: m1_def [symmetric] m2_def nx_def block_reads block_writes del: of_nat_add) (simp add: m1_def nx_def)
  qed
  have r2: "rd m2 a = HEAP_MAGIC" "rd m2 (a + 4) = word_of_nat (n + 24 + k)" "rd m2 (a + 8) = 1" "rd m2 (a + 12) = word_of_nat nx"
    "rd m2 (a + 16) = word_of_nat ?p" "rd m2 (a + 20) = 0" "ys \<noteq> [] \<Longrightarrow> rd m2 (b + 16) = word_of_nat a"
    using bl H unfolding m2_def m1_def b_def by (simp_all add: rd_wr del: of_nat_add)
  have r: "rd m' a = HEAP_MAGIC" "rd m' (a + 4) = word_of_nat (n + 24 + k)" "rd m' (a + 8) = 1" "rd m' (a + 12) = word_of_nat nx"
    "rd m' (a + 16) = word_of_nat ?p" "rd m' (a + 20) = 0" "ys \<noteq> [] \<Longrightarrow> rd m' (b + 16) = word_of_nat a" "rd m' ?c = HEAP_MAGIC_FREED"
    "rd m' (?c + 16) = 0"
    using bl r2 unfolding m' b_def by (simp_all add: rd_wr del: of_nat_add)
  show "rd m' ?c = HEAP_MAGIC_FREED" "rd m' (?c + 16) = 0" by (rule r(8), rule r(9))
  show "byte_at m' x = byte_at m x" if "a + 24 \<le> x" "x < ?c \<or> ?c + 24 \<le> x \<and> x < ?c + 24 + k"
    using that bl unfolding m' m2_def m1_def b_def by (auto simp: byte_wr)
  have "part m' a ?p [(n + 24 + k, 0)] (if ys = [] then 0 else a + span [(n + 24 + k, 0)])"
    using r f(3) y(3) by (simp add: hdr_def aligned_ok_def size_ok_def nx_def b_def add.assoc)
  moreover have "changes_only a (a + span [(n, 0), (k, 0)]) m m'"
    using bl unfolding changes_only_def m' m2_def m1_def b_def by (auto simp: byte_wr)
  moreover have "rd m' (a + span [(n, 0), (k, 0)] + 16) = word_of_nat (last_addr a ?p [(n + 24 + k, 0)])" if "ys \<noteq> []"
    using r(7) [OF that] by (simp add: b_def add.assoc)
  ultimately show "tiles m' HEAP_START 0 (xs @ (n + 24 + k, 0) # ys)"
    "x \<in> datas HEAP_START (xs @ (n, 0) # (k, 0) # ys) \<Longrightarrow> byte_at m' x = byte_at m x"
    using replace_blocks [of m xs "[(n, 0), (k, 0)]" ys "[(n + 24 + k, 0)]" m', folded a_def] t
    by (simp_all add: datas_append add.assoc a_def)
qed

lemma merge_next_used:
  assumes t: "tiles m HEAP_START 0 (xs @ b # ys)" and "ys = [] \<or> snd (hd ys) \<noteq> 0"
  shows "heap_merge_next (word_of_nat (HEAP_START + span xs)) m = m"
proof -
  let ?a = "HEAP_START + span xs"
  note f = tiles_middle [OF t]
  show ?thesis
  proof (cases ys)
    case Nil
    then have "rd m (?a + 12) = 0" using f(1) by (simp add: hdr_def)
    then show ?thesis by (simp add: heap_merge_next_def block_reads del: of_nat_add)
  next
    case (Cons c cs)
    then have "rd m (?a + 12) = word_of_nat (?a + 24 + fst b)" "rd m (?a + 24 + fst b + 8) = 0"
      using f(1,7) assms(2) by (simp_all add: hdr_def)
    then show ?thesis by (simp add: heap_merge_next_def Let_def block_reads del: of_nat_add)
  qed
qed

lemma release_header:
  assumes t: "tiles m HEAP_START 0 (xs @ (n, u) # ys)"
  defines "a \<equiv> HEAP_START + span xs"
  defines "m' \<equiv> wr (a + 20) 0 (wr (a + 8) 1 m)"
  shows "tiles m' HEAP_START 0 (xs @ (n, 0) # ys)"
    and "x \<in> datas HEAP_START (xs @ (n, 0) # ys) \<Longrightarrow> byte_at m' x = byte_at m x"
    and "a + 24 \<le> x \<Longrightarrow> x < a + 24 + n \<Longrightarrow> byte_at m' x = byte_at m x"
proof -
  note f = tiles_middle [OF t, folded a_def, simplified]
  let ?p = "last_addr HEAP_START 0 xs"
  have b: "a + 24 + n \<le> 0x1400000" using f(4) by (simp add: heap_nats)
  show "byte_at m' x = byte_at m x" if "a + 24 \<le> x" "x < a + 24 + n"
    using that b unfolding m'_def by (simp add: byte_wr)
  have H: "rd m a = HEAP_MAGIC" "rd m (a + 4) = word_of_nat n" "rd m (a + 12) = word_of_nat (if ys = [] then 0 else a + 24 + n)"
     "rd m (a + 16) = word_of_nat ?p" using f(1) by (simp_all add: hdr_def)
  have r: "rd m' a = HEAP_MAGIC" "rd m' (a + 4) = word_of_nat n" "rd m' (a + 8) = 1"
    "rd m' (a + 12) = word_of_nat (if ys = [] then 0 else a + 24 + n)" "rd m' (a + 16) = word_of_nat ?p" "rd m' (a + 20) = 0"
    using b H unfolding m'_def by (simp_all add: rd_wr del: of_nat_add)
  have "part m' a ?p [(n, 0)] (if ys = [] then 0 else a + span [(n, 0)])"
    using r f(3) by (simp add: hdr_def aligned_ok_def size_ok_def)
  moreover have "changes_only a (a + span [(n, u)]) m m'"
    using b unfolding changes_only_def m'_def by (auto simp: byte_wr)
  moreover have "rd m' (a + span [(n, u)] + 16) = word_of_nat (last_addr a ?p [(n, 0)])" if "ys \<noteq> []"
  proof -
    obtain c cs where ys: "ys = c # cs" using \<open>ys \<noteq> []\<close> by (auto simp: neq_Nil_conv)
    have "rd m (a + 24 + n + 16) = word_of_nat a" using f(7) unfolding ys by (simp add: hdr_def)
    then show ?thesis using b f(5) [OF that] unfolding m'_def by (simp add: rd_wr heap_nats del: of_nat_add)
  qed
  ultimately show "tiles m' HEAP_START 0 (xs @ (n, 0) # ys)"
    "x \<in> datas HEAP_START (xs @ (n, 0) # ys) \<Longrightarrow> byte_at m' x = byte_at m x"
    using replace_blocks [of m xs "[(n, u)]" ys "[(n, 0)]" m', folded a_def] t by (simp_all add: datas_append add.assoc a_def)
qed

text \<open>Release on block lists.\<close>

fun join_next :: "blk list \<Rightarrow> blk list" where
  "join_next (b # c # bs) = (if snd b = 0 \<and> snd c = 0 then (fst b + 24 + fst c, 0) # bs else b # c # bs)"
| "join_next bs = bs"

definition freed :: "blk list \<Rightarrow> nat \<Rightarrow> blk list \<Rightarrow> blk list" where
  "freed xs n ys =
     (let zs = join_next ((n, 0) # ys) in
      if xs \<noteq> [] \<and> snd (last xs) = 0 then butlast xs @ join_next (last xs # zs) else xs @ zs)"

lemma merge_next_join:
  assumes t: "tiles m HEAP_START 0 (xs @ (n, 0) # ys)"
  defines "m' \<equiv> heap_merge_next (word_of_nat (HEAP_START + span xs)) m"
  shows "tiles m' HEAP_START 0 (xs @ join_next ((n, 0) # ys))"
    and "x \<in> datas HEAP_START (xs @ (n, 0) # ys) \<Longrightarrow> byte_at m' x = byte_at m x"
    and "datas HEAP_START (xs @ join_next ((n, 0) # ys)) = datas HEAP_START (xs @ (n, 0) # ys)"
    and "HEAP_START + span xs + 24 \<le> x \<Longrightarrow> x < HEAP_START + span xs + 24 + n \<Longrightarrow> byte_at m' x = byte_at m x"
proof -
  have "tiles m' HEAP_START 0 (xs @ join_next ((n, 0) # ys)) \<and>
    (x \<in> datas HEAP_START (xs @ (n, 0) # ys) \<longrightarrow> byte_at m' x = byte_at m x) \<and>
    datas HEAP_START (xs @ join_next ((n, 0) # ys)) = datas HEAP_START (xs @ (n, 0) # ys) \<and>
    (HEAP_START + span xs + 24 \<le> x \<and> x < HEAP_START + span xs + 24 + n \<longrightarrow> byte_at m' x = byte_at m x)"
  proof (cases "\<exists>k zs. ys = (k, 0) # zs")
    case True
    then obtain k zs where ys: "ys = (k, 0) # zs" by blast
    then show ?thesis using merge_next_free [of m xs n k zs] t by (auto simp: m'_def datas_append add.assoc)
  next
    case False
    then have "ys = [] \<or> snd (hd ys) \<noteq> 0" by (cases ys) auto
    then have "m' = m" "join_next ((n, 0) # ys) = (n, 0) # ys" using merge_next_used [OF t] by (auto simp: m'_def) (cases ys; simp)
    then show ?thesis using t by simp
  qed
  then show "tiles m' HEAP_START 0 (xs @ join_next ((n, 0) # ys))"
    "x \<in> datas HEAP_START (xs @ (n, 0) # ys) \<Longrightarrow> byte_at m' x = byte_at m x"
    "datas HEAP_START (xs @ join_next ((n, 0) # ys)) = datas HEAP_START (xs @ (n, 0) # ys)"
    "HEAP_START + span xs + 24 \<le> x \<Longrightarrow> x < HEAP_START + span xs + 24 + n \<Longrightarrow> byte_at m' x = byte_at m x" by blast+
qed

lemma last_addr_bound: "last_addr a p xs = p \<and> xs = [] \<or> xs \<noteq> [] \<and> a \<le> last_addr a p xs \<and> last_addr a p xs + 24 \<le> a + span xs"
proof (induction xs arbitrary: a p)
  case (Cons b xs)
  from Cons.IH [of "a + 24 + fst b" a] show ?case by auto
qed simp

lemma last_addr_snoc: "last_addr a p (xs @ [b]) = a + span xs"
  by (simp add: last_addr_append)

lemma join_next_first: "\<exists>k zs. join_next ((n, 0) # ys) = (k, 0) # zs \<and> n \<le> k"
  by (cases ys) auto

lemma free_block_result:
  assumes t: "tiles m HEAP_START 0 (xs @ (n, u) # ys)"
  defines "a \<equiv> HEAP_START + span xs"
  defines "m' \<equiv> free_block m (word_of_nat a)"
  shows "tiles m' HEAP_START 0 (freed xs n ys)"
    and "x \<in> datas HEAP_START (xs @ (n, 0) # ys) \<Longrightarrow> byte_at m' x = byte_at m x"
    and "datas HEAP_START (freed xs n ys) = datas HEAP_START (xs @ (n, 0) # ys)"
    and "xs \<noteq> [] \<Longrightarrow> snd (last xs) = 0 \<Longrightarrow> rd m' a = HEAP_MAGIC_FREED \<and> rd m' (a + 16) = 0"
    and "a + 24 \<le> x \<Longrightarrow> x < a + 24 + n \<Longrightarrow> byte_at m' x = byte_at m x"
proof -
  define m1 where "m1 = wr (a + 20) 0 (wr (a + 8) 1 m)"
  note r = release_header [OF t, folded a_def, folded m1_def]
  define m2 where "m2 = heap_merge_next (word_of_nat a) m1"
  note j = merge_next_join [OF r(1), folded a_def, folded m2_def]
  let ?zs = "join_next ((n, 0) # ys)"
  obtain k zs where zs: "?zs = (k, 0) # zs" and nk: "n \<le> k" using join_next_first by blast
  have "tiles m2 HEAP_START 0 (xs @ (k, 0) # zs)" using j(1) unfolding zs .
  from tiles_middle(1) [OF this] have pv: "rd m2 (a + 16) = word_of_nat (last_addr HEAP_START 0 xs)"
    by (simp add: hdr_def a_def)
  have m': "m' = (let prev = rd m2 (a + 16) in
      if prev \<noteq> 0 \<and> block_magic m2 prev = HEAP_MAGIC \<and> block_free m2 prev \<noteq> 0 then heap_merge_next prev m2 else m2)"
    unfolding m'_def free_block_def Let_def block_writes m1_def [symmetric] m2_def [symmetric] block_reads ..
  have "tiles m' HEAP_START 0 (freed xs n ys) \<and>
    (x \<in> datas HEAP_START (xs @ (n, 0) # ys) \<longrightarrow> byte_at m' x = byte_at m x) \<and>
    datas HEAP_START (freed xs n ys) = datas HEAP_START (xs @ (n, 0) # ys) \<and>
    (xs \<noteq> [] \<and> snd (last xs) = 0 \<longrightarrow> rd m' a = HEAP_MAGIC_FREED \<and> rd m' (a + 16) = 0) \<and>
    (a + 24 \<le> x \<and> x < a + 24 + n \<longrightarrow> byte_at m' x = byte_at m x)"
  proof (cases xs rule: rev_cases)
    case Nil
    then have "m' = m2" using m' pv by simp
    then show ?thesis using Nil j r(2,3) by (auto simp: freed_def)
  next
    case (snoc ws c)
    let ?q = "HEAP_START + span ws"
    have pq: "rd m2 (a + 16) = word_of_nat ?q" using pv snoc last_addr_snoc by simp
    have tw: "tiles m2 HEAP_START 0 (ws @ c # ?zs)" using j(1) snoc by simp
    have hq: "hdr m2 ?q c (last_addr HEAP_START 0 ws) (?q + 24 + fst c)" "?q + 24 + fst c + span ?zs = heap_stop"
      using tiles_middle(1,4) [OF tw] zs by (simp_all)
    have nz: "(word_of_nat ?q :: u32) \<noteq> 0"
      using word_of_nat_eq_iff [of ?q 0] hq(2) by (simp add: heap_nats del: of_nat_add)
    have cond: "rd m2 (a + 16) \<noteq> 0 \<and> block_magic m2 (rd m2 (a + 16)) = HEAP_MAGIC \<and> block_free m2 (rd m2 (a + 16)) \<noteq> 0 \<longleftrightarrow> snd c = 0"
      unfolding pq block_reads using hq(1) nz by (auto simp: hdr_def)
    show ?thesis
    proof (cases "snd c = 0")
      case False
      then have "m' = m2" using m' cond by (simp add: Let_def)
      then show ?thesis using False snoc j r(2,3) by (auto simp: freed_def)
    next
      case True
      then have c: "c = (fst c, 0)" by (cases c) simp
      have mq: "m' = heap_merge_next (word_of_nat ?q) m2" using m' cond True pq by (simp add: Let_def)
      have tw': "tiles m2 HEAP_START 0 (ws @ (fst c, 0) # (k, 0) # zs)" using tw c zs by metis
      note mj = merge_next_free [OF tw', folded mq]
      have aq: "?q + 24 + fst c = a" by (simp add: a_def snoc)
      have d: "datas HEAP_START (ws @ (fst c + 24 + k, 0) # zs) = datas HEAP_START (xs @ ?zs)"
        unfolding zs snoc using True by (simp add: datas_append add.assoc)
      have d': "datas HEAP_START (ws @ (fst c, 0) # (k, 0) # zs) = datas HEAP_START (xs @ ?zs)"
        unfolding zs snoc using True by (simp add: datas_append add.assoc)
      have fr: "freed xs n ys = ws @ (fst c + 24 + k, 0) # zs" using True by (simp add: freed_def snoc zs Let_def)
      have "byte_at m' x = byte_at m x" if "a + 24 \<le> x" "x < a + 24 + n"
      proof -
        have "?q + 24 \<le> x" using that(1) aq by simp
        then show ?thesis using that mj(5) [of x] j(4) r(3) nk by (simp add: aq)
      qed
      then show ?thesis
        unfolding fr d j(3) using mj(1,3,4) mj(2) [of x] d' j(2,3) r(2) by (simp add: aq)
    qed
  qed
  then show "tiles m' HEAP_START 0 (freed xs n ys)"
    "x \<in> datas HEAP_START (xs @ (n, 0) # ys) \<Longrightarrow> byte_at m' x = byte_at m x"
    "datas HEAP_START (freed xs n ys) = datas HEAP_START (xs @ (n, 0) # ys)"
    "xs \<noteq> [] \<Longrightarrow> snd (last xs) = 0 \<Longrightarrow> rd m' a = HEAP_MAGIC_FREED \<and> rd m' (a + 16) = 0"
    "a + 24 \<le> x \<Longrightarrow> x < a + 24 + n \<Longrightarrow> byte_at m' x = byte_at m x" by blast+
qed

section \<open>From a pointer to its block\<close>

lemma matches_live:
  assumes h: "hdr m a (n, u) p x" "aligned_ok m a (n, u)" "size_ok (n, u)" and u: "u \<noteq> 0"
    and r: "HEAP_START \<le> a" "a + 24 + n \<le> heap_stop"
  shows "heap_block_matches m (word_of_nat a) (word_of_nat u)"
proof -
  have b: "a + 24 \<le> u" "u < a + 24 + n" "a + 24 + n \<le> 0x1400000" "0x1000000 \<le> a"
    using h(2,3) u r by (auto simp: aligned_ok_def size_ok_def heap_nats)
  have nz: "(word_of_nat a :: u32) \<noteq> 0" "(word_of_nat u :: u32) \<noteq> 0"
    using word_of_nat_eq_iff [of a 0] word_of_nat_eq_iff [of u 0] b by simp_all
  have c: "heap_range_contains (word_of_nat a) block_bytes" "heap_range_contains (word_of_nat (a + 24)) (word_of_nat n)"
    unfolding word_consts using b range_contains_nat [of a 24] range_contains_nat [of "a + 24" n] by (simp_all add: heap_nats del: of_nat_add)
  have w: "(word_of_nat a :: u32) + block_bytes = word_of_nat (a + 24)" "word_of_nat (a + 24) + (word_of_nat n :: u32) = word_of_nat (a + 24 + n)"
    by (simp_all add: word_consts)
  have "(word_of_nat (a + 24) :: u32) \<le> word_of_nat u" "(word_of_nat u :: u32) < word_of_nat (a + 24 + n)"
    using b by (simp_all add: word_nat_less del: of_nat_add)
  moreover have H: "rd m a = HEAP_MAGIC" "rd m (a + 4) = word_of_nat n" "rd m (a + 20) = word_of_nat u"
    using h(1) by (simp_all add: hdr_def)
  ultimately show ?thesis
    using nz c unfolding heap_block_matches_def Let_def block_reads w(1) H w(2) by (simp del: of_nat_add)
qed

lemma pointer_words:
  assumes "HEAP_START + 24 \<le> u" "u < heap_stop"
  shows "(word_of_nat u :: u32) \<noteq> 0" "heap_range_contains (word_of_nat u) 1"
    "(word_of_nat u :: u32) - aligned_bytes = word_of_nat (u - 8)" "word_of_nat u - aligned_bytes + 4 = (word_of_nat (u - 4) :: u32)"
    "(word_of_nat u :: u32) - block_bytes = word_of_nat (u - 24)"
    "(word_of_nat u :: u32) AND (word_of_nat PAGE_SIZE - 1) = 0 \<longleftrightarrow> PAGE_SIZE dvd u"
    "(word_of_nat HEAP_START + aligned_bytes :: u32) \<le> word_of_nat u" "\<not> (word_of_nat u :: u32) < word_of_nat HEAP_START + block_bytes"
proof -
  have u: "0x1000018 \<le> u" "u < 0x1400000" using assms by (simp_all add: heap_nats)
  show "(word_of_nat u :: u32) \<noteq> 0" using word_of_nat_eq_iff [of u 0] u by simp
  show "heap_range_contains (word_of_nat u) 1" using range_contains_nat [of u 1] u by (simp add: heap_nats)
  show "(word_of_nat u :: u32) - aligned_bytes = word_of_nat (u - 8)" "(word_of_nat u :: u32) - block_bytes = word_of_nat (u - 24)"
    using u by (simp_all add: word_consts of_nat_diff)
  show "word_of_nat u - aligned_bytes + 4 = (word_of_nat (u - 4) :: u32)"
    using u by (simp add: word_consts of_nat_diff)
  show "(word_of_nat u :: u32) AND (word_of_nat PAGE_SIZE - 1) = 0 \<longleftrightarrow> PAGE_SIZE dvd u"
    unfolding page_offset_zero_iff using u by (simp add: unat_of_nat_small)
  show "(word_of_nat HEAP_START + aligned_bytes :: u32) \<le> word_of_nat u" "\<not> (word_of_nat u :: u32) < word_of_nat HEAP_START + block_bytes"
    using word_nat_less(2) [of "0x1000008" u] word_nat_less(1) [of u "0x1000018"] u by (simp_all add: aligned_bytes_def block_bytes_def)
qed

lemma prev_not_magic:
  assumes "tiles m HEAP_START 0 (xs @ b # ys)"
  shows "rd m (HEAP_START + span xs + 16) \<noteq> HEAP_MAGIC_ALIGNED"
proof -
  note f = tiles_middle(1,4) [OF assms]
  have "last_addr HEAP_START 0 xs \<le> 0x1400000"
    using last_addr_bound [of HEAP_START 0 xs] f(2) by (auto simp: heap_nats)
  then have "(word_of_nat (last_addr HEAP_START 0 xs) :: u32) \<noteq> word_of_nat 0x414C4947"
    by (subst word_of_nat_eq_iff) simp_all
  then show ?thesis using f(1) by (simp add: hdr_def HEAP_MAGIC_ALIGNED_def)
qed

lemma block_from_live:
  assumes t: "tiles m HEAP_START 0 (xs @ (n, u) # ys)" and u: "u \<noteq> 0"
  shows "heap_block_from_pointer m (word_of_nat u) = word_of_nat (HEAP_START + span xs)"
proof -
  let ?a = "HEAP_START + span xs"
  note f = tiles_middle [OF t]
  have b: "?a + 24 \<le> u" "u < ?a + 24 + n" "?a + 24 + n \<le> heap_stop"
    using f(2-4) u by (auto simp: aligned_ok_def size_ok_def)
  have pu: "HEAP_START + 24 \<le> u" "u < heap_stop" using b by simp_all
  note w = pointer_words [OF pu]
  have mt: "heap_block_matches m (word_of_nat ?a) (word_of_nat u)"
    using matches_live [OF f(1-3) u] b by simp
  show ?thesis
  proof (cases "u = ?a + 24")
    case True
    have "load32 m (word_of_nat u - aligned_bytes) = rd m (?a + 16)" unfolding w(3) using True by (simp add: rd_def)
    then have "load32 m (word_of_nat u - aligned_bytes) \<noteq> HEAP_MAGIC_ALIGNED" using prev_not_magic [OF t] by simp
    moreover have "word_of_nat u - block_bytes = (word_of_nat ?a :: u32)" unfolding w(5) using True by simp
    ultimately show ?thesis
      using w(1,2,8) mt unfolding heap_block_from_pointer_def Let_def by (simp del: of_nat_add heap_limits)
  next
    case False
    then have al: "PAGE_SIZE dvd u" "load32 m (word_of_nat u - aligned_bytes) = HEAP_MAGIC_ALIGNED"
      "load32 m (word_of_nat u - aligned_bytes + 4) = word_of_nat ?a"
      using f(2) u unfolding w(3,4) by (auto simp: aligned_ok_def rd_def)
    then show ?thesis
      using w(1,2,7) mt unfolding heap_block_from_pointer_def Let_def w(6) by (simp del: of_nat_add heap_limits)
  qed
qed

section \<open>The heap and its blocks\<close>

definition coalesced :: "blk list \<Rightarrow> bool" where
  "coalesced bs \<longleftrightarrow> successively (\<lambda>b c. snd b \<noteq> 0 \<or> snd c \<noteq> 0) bs"

text \<open>
  The heap holds the blocks \<open>bs\<close>. Before its first use it counts as one free block.
\<close>

definition heap_holds :: "heap_state \<Rightarrow> blk list \<Rightarrow> bool" where
  "heap_holds st bs \<longleftrightarrow>
     coalesced bs \<and>
     (if hp_base st = 0 then bs = [(HEAP_SIZE - 24, 0)]
      else hp_base st = word_of_nat HEAP_START \<and> tiles (hp_mem st) HEAP_START 0 bs)"

definition same_data :: "blk list \<Rightarrow> heap_state \<Rightarrow> heap_state \<Rightarrow> bool" where
  "same_data bs st st' \<longleftrightarrow> (\<forall>x \<in> datas HEAP_START bs. byte_at (hp_mem st') x = byte_at (hp_mem st) x)"

lemma same_data_trans: "same_data bs st s \<Longrightarrow> same_data bs s t \<Longrightarrow> same_data bs st t"
  by (simp add: same_data_def)

lemma initialize_holds:
  assumes "heap_holds st bs"
  shows "heap_holds (heap_initialize st) bs" "hp_base (heap_initialize st) = word_of_nat HEAP_START"
    "tiles (hp_mem (heap_initialize st)) HEAP_START 0 bs" "same_data bs st (heap_initialize st)"
proof -
  let ?s = "heap_initialize st"
  have "hp_base ?s = word_of_nat HEAP_START \<and> tiles (hp_mem ?s) HEAP_START 0 bs \<and> same_data bs st ?s"
  proof (cases "hp_base st = 0")
    case True
    then have bs: "bs = [(HEAP_SIZE - 24, 0)]" using assms by (simp add: heap_holds_def)
    have "tiles (put_block (word_of_nat HEAP_START) HEAP_MAGIC (word_of_nat HEAP_SIZE - block_bytes) 1 0 0 0 m) HEAP_START 0 bs" for m
      unfolding bs put_block_wr by (simp add: hdr_def aligned_ok_def size_ok_def rd_wr heap_nats block_bytes_def)
    then show ?thesis using True by (simp add: heap_initialize_def same_data_def bs)
  next
    case False
    then show ?thesis using assms by (simp add: heap_holds_def heap_initialize_def same_data_def)
  qed
  then show "heap_holds ?s bs" "hp_base ?s = word_of_nat HEAP_START" "tiles (hp_mem ?s) HEAP_START 0 bs" "same_data bs st ?s"
    using assms by (simp_all add: heap_holds_def)
qed

definition round8 :: "nat \<Rightarrow> nat" where
  "round8 n = (n + 7) div 8 * 8"

lemma round8_bounds: "n \<le> round8 n" "8 dvd round8 n" "0 < n \<Longrightarrow> 8 \<le> round8 n" "8 dvd k \<Longrightarrow> n \<le> k \<Longrightarrow> round8 n \<le> k" "round8 n \<le> n + 7"
proof -
  have "round8 n = n + 7 - (n + 7) mod 8" by (simp add: round8_def minus_mod_eq_div_mult [symmetric])
  moreover have "(n + 7) mod 8 < 8" by simp
  ultimately show "n \<le> round8 n" "round8 n \<le> n + 7" by linarith+
  show "8 dvd round8 n" by (simp add: round8_def)
  then show "8 \<le> round8 n" if "0 < n" using that \<open>n \<le> round8 n\<close> by (meson dvd_imp_le le_trans not_less)
  show "round8 n \<le> k" if "8 dvd k" "n \<le> k"
  proof -
    obtain j where k: "k = 8 * j" using \<open>8 dvd k\<close> by (rule dvdE)
    have "(n + 7) div 8 \<le> j" using that(2) k by simp
    then show ?thesis by (simp add: round8_def k)
  qed
qed

lemma heap_align_size_eq:
  assumes "unat siz \<le> 0x400000"
  shows "heap_align_size siz = word_of_nat (round8 (unat siz))"
proof -
  have m: "HEAP_ALIGNMENT - 1 = mask 3" by (simp add: HEAP_ALIGNMENT_def mask_eq_exp_minus_1)
  have le: "\<not> 0xFFFFFFFF - mask 3 < siz" using assms by (simp add: word_less_nat_alt mask_eq_exp_minus_1)
  have "unat (siz + mask 3) = unat siz + 7" using assms by (simp add: unat_word_ariths mask_eq_exp_minus_1)
  then have "unat ((siz + mask 3) AND NOT (mask 3)) = round8 (unat siz)"
    unfolding and_not_mask_unat by (simp add: round8_def minus_mod_eq_div_mult [symmetric])
  then show ?thesis using le by (simp add: heap_align_size_def m) (metis word_of_nat_unat)
qed

text \<open>First fit on block lists: the pointer and the new list.\<close>

definition alloc_blocks :: "nat \<Rightarrow> blk list \<Rightarrow> (nat \<times> blk list) option" where
  "alloc_blocks s bs =
     (case first_index (fits s) bs of
        None \<Rightarrow> None
      | Some i \<Rightarrow>
          let n = fst (bs ! i); p = HEAP_START + span (take i bs) + 24 in
          Some (p, take i bs @ (if n - s < 40 then [(n, p)] else [(s, p), (n - s - 24, 0)]) @ drop (Suc i) bs))"

lemma coalesced_append: "coalesced (xs @ ys) \<longleftrightarrow> coalesced xs \<and> coalesced ys \<and> (xs = [] \<or> ys = [] \<or> snd (last xs) \<noteq> 0 \<or> snd (hd ys) \<noteq> 0)"
  by (auto simp: coalesced_def successively_append_iff)

lemma coalesced_Cons: "coalesced (b # bs) \<longleftrightarrow> coalesced bs \<and> (bs = [] \<or> snd b \<noteq> 0 \<or> snd (hd bs) \<noteq> 0)"
  by (auto simp: coalesced_def successively_Cons)

lemma coalesced_simps [simp]: "coalesced []" "coalesced [b]"
  by (simp_all add: coalesced_def)

lemma alloc_blocks_shape:
  assumes "alloc_blocks s bs = Some (p, cs)"
  obtains xs n ys where "bs = xs @ (n, 0) # ys" "s \<le> n" "p = HEAP_START + span xs + 24"
    "cs = xs @ (if n - s < 40 then [(n, p)] else [(s, p), (n - s - 24, 0)]) @ ys" "\<forall>b \<in> set xs. \<not> fits s b"
proof -
  obtain i where i: "first_index (fits s) bs = Some i" using assms by (auto simp: alloc_blocks_def split: option.splits)
  note d = first_index_SomeD [OF i]
  have "bs ! i = (fst (bs ! i), 0)" "s \<le> fst (bs ! i)" using d by (auto simp: fits_def prod_eq_iff)
  moreover have "bs = take i bs @ bs ! i # drop (Suc i) bs" using d by (simp add: id_take_nth_drop)
  moreover have "\<forall>b \<in> set (take i bs). \<not> fits s b" using d by (fastforce simp: in_set_conv_nth)
  ultimately show ?thesis using assms i that [of "take i bs" "fst (bs ! i)" "drop (Suc i) bs"]
    by (auto simp: alloc_blocks_def Let_def)
qed

lemma alloc_blocks_coalesced:
  assumes "alloc_blocks s bs = Some (p, cs)" and "coalesced bs"
  shows "coalesced cs"
  using assms(1)
proof (rule alloc_blocks_shape)
  fix xs n ys assume a: "bs = xs @ (n, 0) # ys" "p = HEAP_START + span xs + 24"
    "cs = xs @ (if n - s < 40 then [(n, p)] else [(s, p), (n - s - 24, 0)]) @ ys"
  then show "coalesced cs" using assms(2) by (auto simp: coalesced_append coalesced_Cons)
qed

lemma take_block_refines:
  assumes t: "tiles m HEAP_START 0 bs" and al: "alloc_blocks s bs = Some (p, cs)" and s: "8 \<le> s" "8 dvd s"
  defines "m' \<equiv> take_block m (word_of_nat (p - 24)) (word_of_nat s)"
  shows "tiles m' HEAP_START 0 cs" and "x \<in> datas HEAP_START bs \<Longrightarrow> byte_at m' x = byte_at m x"
proof -
  obtain xs n ys where b: "bs = xs @ (n, 0) # ys" "s \<le> n" "p = HEAP_START + span xs + 24"
    "cs = xs @ (if n - s < 40 then [(n, p)] else [(s, p), (n - s - 24, 0)]) @ ys"
    using alloc_blocks_shape [OF al] by metis
  have "tiles m' HEAP_START 0 cs \<and> (x \<in> datas HEAP_START bs \<longrightarrow> byte_at m' x = byte_at m x)"
  proof (cases "n - s < 40")
    case True
    then show ?thesis using take_block_whole [OF t [unfolded b(1)] b(2) True] b by (simp add: m'_def)
  next
    case False
    define r where "r = n - s - 24"
    have n: "n = s + 24 + r" "16 \<le> r" "n - s - 24 = r" using False b(2) by (simp_all add: r_def)
    show ?thesis
      using take_block_split [OF t [unfolded b(1) n(1)] s n(2)] b False unfolding n(3) by (simp add: m'_def n(1))
  qed
  then show "tiles m' HEAP_START 0 cs" "x \<in> datas HEAP_START bs \<Longrightarrow> byte_at m' x = byte_at m x" by blast+
qed

definition size_valid :: "u32 \<Rightarrow> bool" where
  "size_valid siz \<longleftrightarrow> 0 < unat siz \<and> unat siz \<le> HEAP_SIZE - 24"

lemma kmalloc_refines:
  assumes h: "heap_holds st bs" and k: "kmalloc_internal st siz = (q, st')"
  shows "case (if size_valid siz then alloc_blocks (round8 (unat siz)) bs else None) of
      None \<Rightarrow> q = 0 \<and> heap_holds st' bs \<and> same_data bs st st' \<and> hp_allocation_failures st' = hp_allocation_failures st + 1
    | Some (p, cs) \<Rightarrow> q = word_of_nat p \<and> heap_holds st' cs \<and> same_data bs st st'"
proof -
  have hf: "heap_holds (s\<lparr>hp_allocation_failures := c\<rparr>) bs = heap_holds s bs"
    "same_data bs st (s\<lparr>hp_allocation_failures := c\<rparr>) = same_data bs st s" for s c by (simp_all add: heap_holds_def same_data_def)
  have hi: "hp_allocation_failures (heap_initialize st) = hp_allocation_failures st" by (simp add: heap_initialize_def)
  have bad: "siz = 0 \<or> siz > word_of_nat HEAP_SIZE - block_bytes \<longleftrightarrow> \<not> size_valid siz"
    by (auto simp: size_valid_def unat_gt_0 word_less_nat_alt block_bytes_def heap_nats unat_eq_0)
  show ?thesis
  proof (cases "size_valid siz")
    case False
    then show ?thesis using k h bad by (auto simp: kmalloc_internal_def heap_fail_def hf same_data_def)
  next
    case True
    let ?s = "round8 (unat siz)" and ?i = "heap_initialize st"
    have u: "unat siz \<le> 0x3FFFE8" "0 < unat siz" using True by (simp_all add: size_valid_def heap_nats)
    have sb: "?s \<le> 0x3FFFE8" "8 \<le> ?s" "8 dvd ?s"
      using round8_bounds(4) [of "0x3FFFE8" "unat siz"] round8_bounds(2,3) [of "unat siz"] u by simp_all
    have al: "heap_align_size siz = word_of_nat ?s" using u by (intro heap_align_size_eq) simp
    have ok: "\<not> ((word_of_nat ?s :: u32) = 0 \<or> word_of_nat ?s > word_of_nat HEAP_SIZE - block_bytes)"
      using sb word_of_nat_eq_iff [of ?s 0] by (simp add: word_less_nat_alt block_bytes_def unat_of_nat_small)
    note init = initialize_holds [OF h]
    have ne: "bs \<noteq> []" using init(3) by (auto simp: heap_nats)
    have loop: "kmalloc_loop heap_max_blocks (hp_mem ?i) (hp_base ?i) 0 (word_of_nat ?s) =
        map_option (\<lambda>i. word_of_nat (HEAP_START + span (take i bs))) (first_index (fits ?s) bs)"
      using kmalloc_loop_first_fit [OF init(3) _ heap_fuel [OF init(3)], of ?s] sb(1) ne init(2) by simp
    have body: "(q, st') = (case kmalloc_loop heap_max_blocks (hp_mem ?i) (hp_base ?i) 0 (word_of_nat ?s) of
        None \<Rightarrow> heap_fail ?i
      | Some cur \<Rightarrow> (cur + block_bytes, ?i\<lparr>hp_mem := take_block (hp_mem ?i) cur (word_of_nat ?s)\<rparr>))"
      using k bad True ok unfolding kmalloc_internal_def Let_def al by (simp del: heap_limits)
    show ?thesis
    proof (cases "alloc_blocks ?s bs")
      case None
      then have "first_index (fits ?s) bs = None" by (simp add: alloc_blocks_def Let_def split: option.splits)
      then have "q = 0" "st' = ?i\<lparr>hp_allocation_failures := hp_allocation_failures ?i + 1\<rparr>"
        using body loop by (simp_all add: heap_fail_def)
      then show ?thesis using None True init(1,4) by (simp add: hf hi)
    next
      case (Some z)
      then obtain p cs where z: "alloc_blocks ?s bs = Some (p, cs)" by (cases z) auto
      then obtain i where i: "first_index (fits ?s) bs = Some i" "p = HEAP_START + span (take i bs) + 24"
        by (auto simp: alloc_blocks_def Let_def split: option.splits)
      then have cur: "kmalloc_loop heap_max_blocks (hp_mem ?i) (hp_base ?i) 0 (word_of_nat ?s) = Some (word_of_nat (p - 24))"
        using loop by simp
      have "q = word_of_nat p" "st' = ?i\<lparr>hp_mem := take_block (hp_mem ?i) (word_of_nat (p - 24)) (word_of_nat ?s)\<rparr>"
        using body cur i(2) by (simp_all add: word_consts)
      moreover note take_block_refines [OF init(3) z sb(2,3)]
      moreover have "coalesced cs" using alloc_blocks_coalesced [OF z] h by (simp add: heap_holds_def)
      ultimately show ?thesis
        using True z init(2,4) by (auto simp: heap_holds_def same_data_def)
    qed
  qed
qed

lemma holds_live:
  assumes "heap_holds st (xs @ (n, u) # ys)" and "u \<noteq> 0"
  shows "hp_base st = word_of_nat HEAP_START" "tiles (hp_mem st) HEAP_START 0 (xs @ (n, u) # ys)" "coalesced (xs @ (n, u) # ys)"
  using assms by (auto simp: heap_holds_def append_eq_Cons_conv split: if_splits)

lemma coalesced_freed:
  assumes "coalesced (xs @ (n, u) # ys)"
  shows "coalesced (freed xs n ys)"
proof -
  have c: "coalesced xs" "coalesced ys" using assms by (auto simp: coalesced_append coalesced_Cons)
  obtain k zs where z: "join_next ((n, 0) # ys) = (k, 0) # zs" "coalesced zs" "zs = [] \<or> snd (hd zs) \<noteq> 0"
  proof (cases "\<exists>j ws. ys = (j, 0) # ws")
    case True
    then obtain j ws where "ys = (j, 0) # ws" by blast
    then show ?thesis using that [of "n + 24 + j" ws] c(2) by (auto simp: coalesced_Cons)
  next
    case False
    then have "ys = [] \<or> snd (hd ys) \<noteq> 0" by (cases ys) auto
    moreover from this have "join_next ((n, 0) # ys) = (n, 0) # ys" by (cases ys) auto
    ultimately show ?thesis using that [of n ys] c(2) by blast
  qed
  show ?thesis
  proof (cases "xs \<noteq> [] \<and> snd (last xs) = 0")
    case False
    then show ?thesis using c z by (auto simp: freed_def coalesced_append coalesced_Cons)
  next
    case True
    then have "coalesced (butlast xs @ [last xs])" using c(1) by simp
    then have "coalesced (butlast xs)" "butlast xs = [] \<or> snd (last (butlast xs)) \<noteq> 0"
      using True unfolding coalesced_append by auto
    then show ?thesis using True z by (auto simp: freed_def coalesced_append coalesced_Cons)
  qed
qed

lemma kfree_refines:
  assumes h: "heap_holds st (xs @ (n, u) # ys)" and u: "u \<noteq> 0"
  shows "heap_holds (kfree st (word_of_nat u)) (freed xs n ys)"
    and "same_data (xs @ (n, 0) # ys) st (kfree st (word_of_nat u))"
    and "kfree st (word_of_nat u) = st\<lparr>hp_mem := free_block (hp_mem st) (word_of_nat (HEAP_START + span xs))\<rparr>"
proof -
  note l = holds_live [OF h u]
  let ?a = "HEAP_START + span xs"
  note f = tiles_middle [OF l(2)]
  have b: "?a + 24 \<le> u" "u < heap_stop" using f(2-4) u by (auto simp: aligned_ok_def size_ok_def)
  have nz: "(word_of_nat u :: u32) \<noteq> 0" "(word_of_nat ?a :: u32) \<noteq> 0"
    using word_of_nat_eq_iff [of u 0] word_of_nat_eq_iff [of ?a 0] u b by (simp_all add: heap_nats del: of_nat_add)
  have "rd (hp_mem st) (?a + 8) = 0" using f(1) u by (simp add: hdr_def)
  then show eq: "kfree st (word_of_nat u) = st\<lparr>hp_mem := free_block (hp_mem st) (word_of_nat ?a)\<rparr>"
    using nz block_from_live [OF l(2) u] by (simp add: kfree_def Let_def block_reads del: of_nat_add)
  note r = free_block_result [OF l(2)]
  show "heap_holds (kfree st (word_of_nat u)) (freed xs n ys)"
    unfolding eq using r(1) l(1) coalesced_freed [OF l(3)] by (simp add: heap_holds_def)
  show "same_data (xs @ (n, 0) # ys) st (kfree st (word_of_nat u))"
    unfolding eq same_data_def using r(2) by simp
qed

text \<open>Allocating and freeing again, on block lists.\<close>

lemma freed_alloc:
  assumes al: "alloc_blocks s bs = Some (p, cs)" and c: "coalesced bs"
  obtains xs n ys where "cs = xs @ (n, p) # ys" "freed xs n ys = bs" "s \<le> n" "p = HEAP_START + span xs + 24"
proof -
  obtain xs n ys where b: "bs = xs @ (n, 0) # ys" "s \<le> n" "p = HEAP_START + span xs + 24"
    "cs = xs @ (if n - s < 40 then [(n, p)] else [(s, p), (n - s - 24, 0)]) @ ys"
    using alloc_blocks_shape [OF al] by metis
  have ce: "xs = [] \<or> snd (last xs) \<noteq> 0" "ys = [] \<or> snd (hd ys) \<noteq> 0" using c b(1) by (auto simp: coalesced_append coalesced_Cons)
  have j: "join_next ((k, 0) # ys) = (k, 0) # ys" for k using ce(2) by (cases ys) auto
  show ?thesis
  proof (cases "n - s < 40")
    case True
    then show ?thesis using that [of xs n ys] b ce(1) j by (auto simp: freed_def Let_def)
  next
    case False
    then show ?thesis using that [of xs s "(n - s - 24, 0) # ys"] b ce(1) by (auto simp: freed_def Let_def)
  qed
qed

section \<open>Page-aligned blocks\<close>

lemma set_user:
  assumes t: "tiles m HEAP_START 0 (xs @ (n, HEAP_START + span xs + 24) # ys)"
  defines "a \<equiv> HEAP_START + span xs"
  assumes u: "a + 32 \<le> u" "u < a + 24 + n" "PAGE_SIZE dvd u"
  defines "m' \<equiv> wr (a + 20) (word_of_nat u) (wr (u - 4) (word_of_nat a) (wr (u - 8) HEAP_MAGIC_ALIGNED m))"
  shows "tiles m' HEAP_START 0 (xs @ (n, u) # ys)"
    and "x \<in> datas HEAP_START (xs @ (n, 0) # ys) \<Longrightarrow> byte_at m' x = byte_at m x"
proof -
  note f = tiles_middle [OF t [folded a_def], folded a_def, simplified]
  let ?p = "last_addr HEAP_START 0 xs"
  have b: "a + 24 + n \<le> 0x1400000" using f(4) by (simp add: heap_nats)
  obtain v where v: "u = v + 8" "a + 24 \<le> v" using u(1) that [of "u - 8"] by simp
  have H: "rd m a = HEAP_MAGIC" "rd m (a + 4) = word_of_nat n" "rd m (a + 8) = 0" "rd m (a + 12) = word_of_nat (if ys = [] then 0 else a + 24 + n)"
     "rd m (a + 16) = word_of_nat ?p" using f(1) by (simp_all add: hdr_def)
  have m': "m' = wr (a + 20) (word_of_nat u) (wr (v + 4) (word_of_nat a) (wr v HEAP_MAGIC_ALIGNED m))"
    by (simp add: m'_def v(1) add.commute)
  have r: "rd m' a = HEAP_MAGIC" "rd m' (a + 4) = word_of_nat n" "rd m' (a + 8) = 0"
    "rd m' (a + 12) = word_of_nat (if ys = [] then 0 else a + 24 + n)" "rd m' (a + 16) = word_of_nat ?p"
    "rd m' (a + 20) = word_of_nat u" "rd m' v = HEAP_MAGIC_ALIGNED" "rd m' (v + 4) = word_of_nat a"
    using b H u v unfolding m' by (simp_all add: rd_wr del: of_nat_add)
  have "part m' a ?p [(n, u)] (if ys = [] then 0 else a + span [(n, u)])"
    using r f(3) u v by (simp add: hdr_def aligned_ok_def size_ok_def add.commute [of 4 v])
  moreover have "changes_only a (a + span [(n, a + 24)]) m m'"
    using b u v unfolding changes_only_def m' by (auto simp: byte_wr)
  moreover have "rd m' (a + span [(n, a + 24)] + 16) = word_of_nat (last_addr a ?p [(n, u)])" if "ys \<noteq> []"
  proof -
    obtain c cs where ys: "ys = c # cs" using \<open>ys \<noteq> []\<close> by (auto simp: neq_Nil_conv)
    have "rd m (a + 24 + n + 16) = word_of_nat a" using f(7) unfolding ys by (simp add: hdr_def)
    then show ?thesis using b u v f(5) [OF that] unfolding m' by (simp add: rd_wr heap_nats del: of_nat_add)
  qed
  ultimately show "tiles m' HEAP_START 0 (xs @ (n, u) # ys)"
    "x \<in> datas HEAP_START (xs @ (n, 0) # ys) \<Longrightarrow> byte_at m' x = byte_at m x"
    using replace_blocks [of m xs "[(n, a + 24)]" ys "[(n, u)]" m', folded a_def] t by (simp_all add: datas_append add.assoc a_def)
qed

lemma alloc_block_at:
  assumes "alloc_blocks s bs = Some (p, cs)" and "tiles m HEAP_START 0 cs"
  obtains xs n ys where "cs = xs @ (n, p) # ys" "p = HEAP_START + span xs + 24" "s \<le> n" "p + n \<le> heap_stop"
    "datas HEAP_START bs = datas HEAP_START (xs @ (n, 0) # ys)"
proof -
  obtain xs n ys where b: "bs = xs @ (n, 0) # ys" "s \<le> n" "p = HEAP_START + span xs + 24"
    "cs = xs @ (if n - s < 40 then [(n, p)] else [(s, p), (n - s - 24, 0)]) @ ys"
    using alloc_blocks_shape [OF assms(1)] by metis
  show ?thesis
  proof (cases "n - s < 40")
    case True
    then have cs: "cs = xs @ (n, p) # ys" using b(4) by simp
    have "p + n \<le> heap_stop" using tiles_middle(4) [OF assms(2) [unfolded cs]] b(3) by simp
    then show ?thesis using that [of xs n ys] cs b by simp
  next
    case False
    then have cs: "cs = xs @ (s, p) # (n - s - 24, 0) # ys" using b(4) by simp
    have "p + s \<le> heap_stop" using tiles_middle(4) [OF assms(2) [unfolded cs]] b(3) by simp
    moreover have "datas HEAP_START bs = datas HEAP_START (xs @ (s, 0) # (n - s - 24, 0) # ys)"
      using False b(1,2) by (simp add: datas_append add.assoc)
    ultimately show ?thesis using that [of xs s "(n - s - 24, 0) # ys"] cs b by simp
  qed
qed

text \<open>
  \<^verbatim>\<open>kmalloc_aligned\<close> takes a block with room for a page of slack and moves its pointer to the
  first page boundary that leaves space for the aligned header.
\<close>

lemma page_up:
  assumes "v \<le> 0xFFFFFFFF - 4095"
  shows "v \<le> align_up v PAGE_SIZE" "align_up v PAGE_SIZE \<le> v + 4095" "PAGE_SIZE dvd align_up v PAGE_SIZE"
proof -
  have e: "align_up v PAGE_SIZE = v + 4095 - (v + 4095) mod 4096" by (rule align_up_page [OF assms])
  then show "v \<le> align_up v PAGE_SIZE" "align_up v PAGE_SIZE \<le> v + 4095" using mod_less_divisor [of 4096 "v + 4095"] by linarith+
  show "PAGE_SIZE dvd align_up v PAGE_SIZE" unfolding e by (simp add: PAGE_SIZE_def minus_mod_eq_mult_div)
qed

definition aligned_valid :: "u32 \<Rightarrow> bool" where
  "aligned_valid siz \<longleftrightarrow> 0 < unat siz \<and> unat siz \<le> HEAP_SIZE - 24 - PAGE_SIZE - 8"

lemma kmalloc_aligned_refines:
  assumes h: "heap_holds st bs" and k: "kmalloc_aligned st siz = (q, st')"
  shows "case (if aligned_valid siz then alloc_blocks (round8 (unat siz + PAGE_SIZE + 8)) bs else None) of
      None \<Rightarrow> q = 0 \<and> heap_holds st' bs \<and> same_data bs st st' \<and> hp_allocation_failures st' = hp_allocation_failures st + 1
    | Some (p, cs) \<Rightarrow> \<exists>xs n ys. cs = xs @ (n, p) # ys \<and> q = word_of_nat (align_up (p + 8) PAGE_SIZE) \<and>
        heap_holds st' (xs @ (n, align_up (p + 8) PAGE_SIZE) # ys) \<and> same_data bs st st' \<and>
        align_up (p + 8) PAGE_SIZE + unat siz \<le> p + n \<and> p = HEAP_START + span xs + 24"
proof -
  have hf: "heap_holds (s\<lparr>hp_allocation_failures := c\<rparr>) bs = heap_holds s bs"
    "same_data bs st (s\<lparr>hp_allocation_failures := c\<rparr>) = same_data bs st s" for s c by (simp_all add: heap_holds_def same_data_def)
  have bad: "siz = 0 \<or> siz > word_of_nat HEAP_SIZE - block_bytes - word_of_nat PAGE_SIZE - aligned_bytes \<longleftrightarrow> \<not> aligned_valid siz"
    by (auto simp: aligned_valid_def unat_gt_0 word_less_nat_alt block_bytes_def aligned_bytes_def heap_nats unat_eq_0)
  show ?thesis
  proof (cases "aligned_valid siz")
    case False
    then show ?thesis using k h bad by (auto simp: kmalloc_aligned_def heap_fail_def hf same_data_def)
  next
    case True
    let ?t = "siz + word_of_nat PAGE_SIZE + aligned_bytes"
    have u: "unat siz \<le> 0x3FEFE0" "0 < unat siz" using True by (simp_all add: aligned_valid_def heap_nats)
    have ut: "unat ?t = unat siz + PAGE_SIZE + 8" using u by (simp add: unat_word_ariths aligned_bytes_def PAGE_SIZE_def)
    have sv: "size_valid ?t" using u unfolding size_valid_def ut by (simp add: heap_nats)
    obtain w s where kw: "kmalloc_internal st ?t = (w, s)" by force
    note r = kmalloc_refines [OF h kw, unfolded ut if_P [OF sv]]
    have cond: "\<not> (siz = 0 \<or> siz > word_of_nat HEAP_SIZE - block_bytes - word_of_nat PAGE_SIZE - aligned_bytes)" using True bad by simp
    show ?thesis
    proof (cases "alloc_blocks (round8 (unat siz + PAGE_SIZE + 8)) bs")
      case None
      then have "w = 0" "heap_holds s bs" "same_data bs st s" "hp_allocation_failures s = hp_allocation_failures st + 1" using r by simp_all
      moreover have "q = w \<and> st' = s" using k kw \<open>w = 0\<close> unfolding kmalloc_aligned_def Let_def if_not_P [OF cond] by simp
      ultimately show ?thesis using None True by simp
    next
      case (Some z)
      then obtain p cs where z: "alloc_blocks (round8 (unat siz + PAGE_SIZE + 8)) bs = Some (p, cs)" by (cases z) auto
      have s: "w = word_of_nat p" "heap_holds s cs" "same_data bs st s" using r z by simp_all
      obtain xs0 n0 ys0 where c0: "cs = xs0 @ (n0, p) # ys0" "p = HEAP_START + span xs0 + 24"
        using freed_alloc [OF z] h by (metis heap_holds_def)
      have p0: "p \<noteq> 0" using c0(2) by simp
      have tl: "tiles (hp_mem s) HEAP_START 0 cs" "hp_base s = word_of_nat HEAP_START" "coalesced cs"
        using holds_live [of s xs0 n0 p ys0] s(2) p0 c0(1) by simp_all
      obtain xs n ys where c: "cs = xs @ (n, p) # ys" "p = HEAP_START + span xs + 24" "round8 (unat siz + PAGE_SIZE + 8) \<le> n"
          "p + n \<le> heap_stop" "datas HEAP_START bs = datas HEAP_START (xs @ (n, 0) # ys)"
        using alloc_block_at [OF z tl(1)] by metis
      define v where "v = align_up (p + 8) PAGE_SIZE"
      have pb: "p + n \<le> 0x1400000" "0x1000018 \<le> p" using c(2,4) by (simp_all add: heap_nats)
      have vb: "p + 8 \<le> v" "v \<le> p + 8 + 4095" "PAGE_SIZE dvd v" using page_up [of "p + 8"] pb by (simp_all add: v_def)
      have room: "v + unat siz \<le> p + n" using vb(2) c(3) round8_bounds(1) [of "unat siz + PAGE_SIZE + 8"] by (simp add: PAGE_SIZE_def)
      have vl: "v < p + n" using room u(2) by simp
      have wv: "word_of_nat (align_up (unat (w + aligned_bytes)) PAGE_SIZE) = (word_of_nat v :: u32)"
        using pb by (simp add: s(1) v_def aligned_bytes_def unat_word_ariths unat_of_nat_small)
      have nz: "w \<noteq> 0" "(word_of_nat v :: u32) \<noteq> 0"
        using word_of_nat_eq_iff [of p 0] word_of_nat_eq_iff [of v 0] pb vb room s(1) by auto
      have rc: "heap_range_contains (word_of_nat v) siz"
        using range_contains_nat [of v "unat siz"] vb room pb u by (simp add: heap_nats)
      have ad: "w - block_bytes = word_of_nat (p - 24)" "(word_of_nat v :: u32) - aligned_bytes = word_of_nat (v - 8)"
        using pb vb by (simp_all add: s(1) word_consts of_nat_diff)
      have a: "p - 24 = HEAP_START + span xs" using c(2) by simp
      have v4: "v - 8 + 4 = v - 4" using vb(1) by simp
      let ?m = "wr (p - 24 + 20) (word_of_nat v) (wr (v - 4) (word_of_nat (p - 24)) (wr (v - 8) HEAP_MAGIC_ALIGNED (hp_mem s)))"
      have eq: "q = word_of_nat v" "st' = s\<lparr>hp_mem := ?m\<rparr>"
        using k kw nz rc unfolding kmalloc_aligned_def Let_def if_not_P [OF cond] by (auto simp: wv ad v4 block_writes)
      have t': "tiles (hp_mem s) HEAP_START 0 (xs @ (n, HEAP_START + span xs + 24) # ys)" using tl(1) c(1,2) by simp
      have vr: "HEAP_START + span xs + 32 \<le> v" "v < HEAP_START + span xs + 24 + n" using vb(1) vl c(2) by simp_all
      note su = set_user [OF t' vr vb(3), folded a]
      have "coalesced (xs @ (n, v) # ys)" using tl(3) vr(1) unfolding c(1) by (auto simp: coalesced_append coalesced_Cons)
      then have "heap_holds st' (xs @ (n, v) # ys)" using su(1) tl(2) by (simp add: heap_holds_def eq(2))
      moreover have "same_data bs s st'" using su(2) c(5) by (simp add: same_data_def eq(2))
      ultimately have "cs = xs @ (n, p) # ys \<and> q = word_of_nat v \<and> heap_holds st' (xs @ (n, v) # ys) \<and> same_data bs st st' \<and>
          v + unat siz \<le> p + n \<and> p = HEAP_START + span xs + 24"
        using c(1,2) eq(1) room same_data_trans [OF s(3)] by blast
      then show ?thesis unfolding if_P [OF True] z option.case prod.case v_def by blast
    qed
  qed
qed

end
