(* ===== verification/Heap_Contract.thy ===== *)
theory Heap_Contract
  imports Heap_Correct
begin

text \<open>
  The contract of the kernel heap (\<^verbatim>\<open>memory/memory.c\<close>): the states its callers can reach, the
  statistics, double frees, and the properties clients rely on. Each property reads the heap as
  the list of blocks that \<open>Heap_Correct\<close> shows its bytes to describe.
\<close>

section \<open>Reachable states\<close>

text \<open>
  Any sequence of calls whose frees name null or a pointer that is handed out, with clients
  that write what they like outside the headers and the gaps before aligned pointers.
\<close>

inductive heap_reachable :: "heap_state \<Rightarrow> bool" where
  start: "hp_base st = 0 \<Longrightarrow> heap_reachable st"
| kmalloc: "heap_reachable st \<Longrightarrow> heap_reachable (snd (kmalloc st siz))"
| kmalloc_aligned: "heap_reachable st \<Longrightarrow> heap_reachable (snd (kmalloc_aligned st siz))"
| kfree_null: "heap_reachable st \<Longrightarrow> heap_reachable (kfree st 0)"
| kfree: "heap_reachable st \<Longrightarrow> heap_holds st bs \<Longrightarrow> (n, u) \<in> set bs \<Longrightarrow> u \<noteq> 0 \<Longrightarrow> heap_reachable (kfree st (word_of_nat u))"
| client: "heap_reachable st \<Longrightarrow> heap_holds st bs \<Longrightarrow> \<forall>x \<in> metas HEAP_START bs. byte_at m x = byte_at (hp_mem st) x \<Longrightarrow>
    heap_reachable (st\<lparr>hp_mem := m\<rparr>)"

lemma tiles_unique:
  assumes "tiles m a p bs" "tiles m a p cs" and "HEAP_START \<le> a"
  shows "bs = cs"
  using assms
proof (induction bs arbitrary: a p cs)
  case Nil
  then show ?case using tiles_span [OF Nil.prems(2)] by (cases cs) simp_all
next
  case (Cons b bs)
  obtain c ds where cs: "cs = c # ds" using tiles_span [OF Cons.prems(1)] Cons.prems(2) by (cases cs) auto
  note f = tiles_first [OF Cons.prems(1,3)] and g = tiles_first [OF Cons.prems(2) [unfolded cs] Cons.prems(3)]
  have "fst b = fst c" using f(2,4) g(2,4) word_of_nat_eq_iff [of "fst b" "fst c"] by simp
  moreover have "snd b = snd c"
  proof -
    have ub: "snd b < 2 ^ 32" "snd c < 2 ^ 32"
      using Cons.prems(1,2) cs f(5) g(5) by (auto simp: aligned_ok_def size_ok_def heap_nats)
    have "rd m (a + 20) = word_of_nat (snd b)" "rd m (a + 20) = word_of_nat (snd c)"
      using Cons.prems(1,2) cs by (simp_all add: hdr_def)
    then show ?thesis using word_of_nat_eq_iff [OF ub] by simp
  qed
  ultimately have bc: "b = c" by (simp add: prod_eq_iff)
  have "bs = ds" using Cons.prems cs bc by (intro Cons.IH [of "a + 24 + fst b" a ds]) simp_all
  then show ?case using cs bc by simp
qed

lemma heap_holds_unique: "heap_holds st bs \<Longrightarrow> heap_holds st cs \<Longrightarrow> bs = cs"
  using tiles_unique [of "hp_mem st" HEAP_START 0 bs cs] by (auto simp: heap_holds_def split: if_splits)

lemma split_at: "b \<in> set bs \<Longrightarrow> \<exists>xs ys. bs = xs @ b # ys"
  by (rule split_list)

lemma heap_reachable_holds: "heap_reachable st \<Longrightarrow> \<exists>bs. heap_holds st bs"
proof (induction rule: heap_reachable.induct)
  case (start st)
  then show ?case by (intro exI [of _ "[(HEAP_SIZE - 24, 0)]"]) (simp add: heap_holds_def)
next
  case (kmalloc st siz)
  then obtain bs where h: "heap_holds st bs" by blast
  obtain q s where k: "kmalloc_internal st siz = (q, s)" by force
  show ?case using kmalloc_refines [OF h k] k by (auto simp: kmalloc_def split: option.splits)
next
  case (kmalloc_aligned st siz)
  then obtain bs where h: "heap_holds st bs" by blast
  obtain q s where k: "kmalloc_aligned st siz = (q, s)" by force
  show ?case using kmalloc_aligned_refines [OF h k] k by (auto split: option.splits)
next
  case (kfree_null st)
  then show ?case by (simp add: kfree_def)
next
  case (kfree st bs n u)
  then show ?case using kfree_refines(1) split_at [of "(n, u)" bs] by metis
next
  case (client st bs m)
  have "tiles m HEAP_START 0 bs = tiles (hp_mem st) HEAP_START 0 bs" using client(3) by (intro tiles_cong) simp
  then show ?case using client(2) by (intro exI [of _ bs]) (auto simp: heap_holds_def split: if_splits)
qed

section \<open>Statistics\<close>

definition count_block :: "blk \<Rightarrow> memory_heap_stats \<Rightarrow> memory_heap_stats" where
  "count_block b s =
     (let s = s\<lparr>hs_total_bytes := hs_total_bytes s + word_of_nat (fst b)\<rparr> in
      if snd b = 0 then
        let s = s\<lparr>hs_free_blocks := hs_free_blocks s + 1, hs_free_bytes := hs_free_bytes s + word_of_nat (fst b)\<rparr>
        in if word_of_nat (fst b) > hs_largest_free_block s then s\<lparr>hs_largest_free_block := word_of_nat (fst b)\<rparr> else s
      else s\<lparr>hs_allocated_blocks := hs_allocated_blocks s + 1, hs_used_bytes := hs_used_bytes s + word_of_nat (fst b)\<rparr>)"

lemma measure_loop_result:
  assumes "tiles m a p bs" and "HEAP_START \<le> a" and "length bs \<le> fuel"
  shows "measure_loop fuel m (if bs = [] then 0 else word_of_nat a) (word_of_nat p) s = (True, fold count_block bs s)"
  using assms
proof (induction bs arbitrary: a p fuel s)
  case Nil
  then show ?case by (simp add: measure_loop.simps)
next
  case (Cons b bs)
  note f = tiles_first [OF Cons.prems(1,2)]
  obtain k where k: "fuel = Suc k" "length bs \<le> k" using Cons.prems(3) by (cases fuel) auto
  have mb: "measure_block m (word_of_nat a) s = count_block b s"
    unfolding measure_block_def count_block_def block_reads f(2,3) by (simp add: Let_def)
  have "measure_loop fuel m (word_of_nat a) (word_of_nat p) s =
      measure_loop k m (if bs = [] then 0 else word_of_nat (a + 24 + fst b)) (word_of_nat a) (count_block b s)"
    by (subst measure_loop.simps) (simp add: k f(1,6,7) block_reads mb del: of_nat_add)
  moreover have "measure_loop k m (if bs = [] then 0 else word_of_nat (a + 24 + fst b)) (word_of_nat a) (count_block b s) =
      (True, fold count_block bs (count_block b s))"
    using Cons.prems(1,2) k(2) by (intro Cons.IH) simp_all
  ultimately show ?case by (simp del: of_nat_add)
qed

abbreviation free_blocks :: "blk list \<Rightarrow> blk list" where "free_blocks bs \<equiv> filter (\<lambda>b. snd b = 0) bs"
abbreviation used_blocks :: "blk list \<Rightarrow> blk list" where "used_blocks bs \<equiv> filter (\<lambda>b. snd b \<noteq> 0) bs"
abbreviation bytes_of :: "blk list \<Rightarrow> nat" where "bytes_of bs \<equiv> sum_list (map fst bs)"

lemma fold_count_block:
  "hs_total_bytes (fold count_block bs s) = hs_total_bytes s + word_of_nat (bytes_of bs)"
  "hs_free_bytes (fold count_block bs s) = hs_free_bytes s + word_of_nat (bytes_of (free_blocks bs))"
  "hs_used_bytes (fold count_block bs s) = hs_used_bytes s + word_of_nat (bytes_of (used_blocks bs))"
  "hs_free_blocks (fold count_block bs s) = hs_free_blocks s + word_of_nat (length (free_blocks bs))"
  "hs_allocated_blocks (fold count_block bs s) = hs_allocated_blocks s + word_of_nat (length (used_blocks bs))"
  "hs_valid (fold count_block bs s) = hs_valid s" "hs_initialized (fold count_block bs s) = hs_initialized s"
  by (induction bs arbitrary: s) (simp_all add: count_block_def Let_def add.assoc add.commute [of 1])

lemma fold_count_largest:
  "w \<le> hs_largest_free_block (fold count_block bs s) \<longleftrightarrow>
    w \<le> hs_largest_free_block s \<or> (\<exists>b \<in> set bs. snd b = 0 \<and> w \<le> word_of_nat (fst b))"
proof (induction bs arbitrary: s)
  case (Cons b bs)
  have "w \<le> hs_largest_free_block (count_block b s) \<longleftrightarrow> w \<le> hs_largest_free_block s \<or> snd b = 0 \<and> w \<le> word_of_nat (fst b)"
    by (auto simp: count_block_def Let_def)
  then show ?case using Cons.IH [of "count_block b s"] by auto
qed simp

lemma heap_stats_result:
  assumes h: "heap_holds st bs" and b: "hp_base st \<noteq> 0"
  obtains s where "memory_get_heap_stats st True = Some s" "hs_valid s" "hs_initialized s"
    "unat (hs_free_bytes s) = bytes_of (free_blocks bs)" "unat (hs_used_bytes s) = bytes_of (used_blocks bs)"
    "unat (hs_free_blocks s) = length (free_blocks bs)" "unat (hs_allocated_blocks s) = length (used_blocks bs)"
    "\<And>n. n < 2 ^ 32 \<Longrightarrow> 0 < n \<Longrightarrow> n \<le> unat (hs_largest_free_block s) \<longleftrightarrow> (\<exists>b \<in> set bs. fits n b)"
proof -
  have t: "tiles (hp_mem st) HEAP_START 0 bs" "hp_base st = word_of_nat HEAP_START" using h b by (auto simp: heap_holds_def)
  have ne: "bs \<noteq> []" using t(1) by (auto simp: heap_nats)
  have sp: "span bs = HEAP_SIZE" using tiles_span [OF t(1)] by simp
  have "length bs \<le> span bs" by (induction bs) auto
  have "bytes_of bs \<le> span bs" "\<And>b. b \<in> set bs \<Longrightarrow> fst b \<le> span bs" by (induction bs) (auto intro: trans_le_add2)
  moreover have "bytes_of (free_blocks bs) \<le> bytes_of bs" "bytes_of (used_blocks bs) \<le> bytes_of bs" by (induction bs) auto
  ultimately have bd: "bytes_of (free_blocks bs) < 2 ^ 32" "bytes_of (used_blocks bs) < 2 ^ 32" "\<And>b. b \<in> set bs \<Longrightarrow> fst b < 2 ^ 32"
    using sp by (fastforce simp: heap_nats)+
  have "length (filter P bs) < 2 ^ 32" for P
    by (rule le_less_trans [OF length_filter_le]) (use \<open>length bs \<le> span bs\<close> sp in \<open>simp add: heap_nats\<close>)
  note bd = bd this this
  let ?z = "memory_heap_stats_zero\<lparr>hs_initialized := True, hs_valid := True, hs_allocation_failures := hp_allocation_failures st,
      hs_invalid_frees := hp_invalid_frees st, hs_double_frees := hp_double_frees st\<rparr>"
  let ?f = "fold count_block bs ?z"
  have ml: "measure_loop heap_max_blocks (hp_mem st) (hp_base st) 0 ?z = (True, ?f)"
    using measure_loop_result [OF t(1) _ heap_fuel [OF t(1)], of ?z] ne t(2) by simp
  have z: "hs_total_bytes ?z = 0" "hs_free_bytes ?z = 0" "hs_used_bytes ?z = 0" "hs_free_blocks ?z = 0" "hs_allocated_blocks ?z = 0"
    "hs_largest_free_block ?z = 0" by (simp_all add: memory_heap_stats_zero_def)
  have val: "unat (hs_free_bytes ?f) = bytes_of (free_blocks bs)" "unat (hs_used_bytes ?f) = bytes_of (used_blocks bs)"
    "unat (hs_free_blocks ?f) = length (free_blocks bs)" "unat (hs_allocated_blocks ?f) = length (used_blocks bs)"
    using bd by (simp_all add: fold_count_block z unat_of_nat_small)
  have lg: "n \<le> unat (hs_largest_free_block ?f) \<longleftrightarrow> (\<exists>b \<in> set bs. fits n b)" if "n < 2 ^ 32" "0 < n" for n
  proof -
    have "n \<le> unat (hs_largest_free_block ?f) \<longleftrightarrow> (word_of_nat n :: u32) \<le> hs_largest_free_block ?f"
      using that(1) by (simp add: word_le_nat_alt unat_of_nat_small)
    also have "\<dots> \<longleftrightarrow> (\<exists>b \<in> set bs. snd b = 0 \<and> (word_of_nat n :: u32) \<le> word_of_nat (fst b))"
      using fold_count_largest [of "word_of_nat n" bs ?z, unfolded z(6)] that word_of_nat_eq_iff [of n 0] by auto
    also have "\<dots> \<longleftrightarrow> (\<exists>b \<in> set bs. fits n b)" using word_nat_less(2) [OF that(1) bd(3)] by (auto simp: fits_def)
    finally show ?thesis .
  qed
  show ?thesis
  proof (rule that)
    show "memory_get_heap_stats st True = Some (if hs_free_bytes ?f \<noteq> 0
        then ?f\<lparr>hs_fragmentation_percent := ((hs_free_bytes ?f - hs_largest_free_block ?f) * 100) div hs_free_bytes ?f\<rparr> else ?f)"
      using b ml by (simp add: memory_get_heap_stats_def heap_measure_def Let_def)
  qed (use val lg in \<open>auto simp: fold_count_block(6,7)\<close>)
qed

section \<open>Freeing twice\<close>




section \<open>Properties\<close>

lemma alloc_blocks_None: "alloc_blocks s bs = None \<longleftrightarrow> \<not> (\<exists>b \<in> set bs. fits s b)"
  using first_index_None_iff [of "fits s" bs] by (auto simp: alloc_blocks_def Let_def split: option.splits)

lemma fits_bound:
  assumes "heap_holds st bs" and "b \<in> set bs" "fits n b"
  shows "n \<le> HEAP_SIZE - 24"
proof -
  have "fst b + 24 \<le> span bs" using assms(2) by (induction bs) auto
  moreover have "span bs = HEAP_SIZE" using tiles_span [OF initialize_holds(3) [OF assms(1)]] by simp
  moreover have "n \<le> fst b" using assms(3) by (simp add: fits_def)
  ultimately show ?thesis by linarith
qed

lemma kmalloc_succeeds:
  assumes h: "heap_holds st bs"
  shows "fst (kmalloc st siz) \<noteq> 0 \<longleftrightarrow> siz \<noteq> 0 \<and> (\<exists>b \<in> set bs. fits (round8 (unat siz)) b)"
proof -
  obtain q st' where k: "kmalloc_internal st siz = (q, st')" by force
  note r = kmalloc_refines [OF h k]
  have v: "size_valid siz" if s: "siz \<noteq> 0" "\<exists>b \<in> set bs. fits (round8 (unat siz)) b"
  proof -
    have "round8 (unat siz) \<le> HEAP_SIZE - 24" using s(2) fits_bound [OF h] by blast
    then have "unat siz \<le> HEAP_SIZE - 24" using round8_bounds(1) [of "unat siz"] by (rule order_trans [rotated])
    then show ?thesis using s(1) by (simp add: size_valid_def unat_gt_0)
  qed
  have z: "siz \<noteq> 0" if "size_valid siz" using that by (auto simp: size_valid_def)
  have "q \<noteq> 0 \<longleftrightarrow> size_valid siz \<and> alloc_blocks (round8 (unat siz)) bs \<noteq> None"
  proof (cases "if size_valid siz then alloc_blocks (round8 (unat siz)) bs else None")
    case (Some w)
    then obtain p cs where w: "size_valid siz" "alloc_blocks (round8 (unat siz)) bs = Some (p, cs)" by (cases w) (auto split: if_splits)
    obtain xs n ys where x: "bs = xs @ (n, 0) # ys" "p = HEAP_START + span xs + 24" using alloc_blocks_shape [OF w(2)] by metis
    have "span bs = HEAP_SIZE" using tiles_span [OF initialize_holds(3) [OF h]] by simp
    then have "(word_of_nat p :: u32) \<noteq> 0" using word_of_nat_eq_iff [of p 0] x by (simp add: heap_nats del: of_nat_add)
    then show ?thesis using r w by simp
  qed (use r in \<open>auto split: if_splits\<close>)
  then show ?thesis using alloc_blocks_None [of "round8 (unat siz)" bs] k v z by (auto simp: kmalloc_def)
qed

abbreviation block_addr :: "blk list \<Rightarrow> nat \<Rightarrow> nat" where
  "block_addr bs i \<equiv> HEAP_START + span (take i bs)"

text \<open>The bytes from the pointer of block \<open>i\<close> to the end of its payload.\<close>

definition live_range :: "blk list \<Rightarrow> nat \<Rightarrow> nat set" where
  "live_range bs i = {snd (bs ! i)..<block_addr bs i + 24 + fst (bs ! i)}"

lemma span_take_less:
  assumes "i < j" "j \<le> length bs"
  shows "span (take i bs) + 24 + fst (bs ! i) \<le> span (take j bs)"
proof -
  have "take j bs = take i bs @ bs ! i # take (j - Suc i) (drop (Suc i) bs)"
    using assms by (metis id_take_nth_drop[of i "take j bs"] drop_take length_take min.absorb2 nth_take take_take min.absorb1 less_imp_le)
  then show ?thesis by simp
qed

lemma live_range_block:
  assumes "tiles m HEAP_START 0 bs" and "i < length bs" "snd (bs ! i) \<noteq> 0"
  shows "live_range bs i \<subseteq> {block_addr bs i + 24..<block_addr bs i + 24 + fst (bs ! i)}" "snd (bs ! i) \<in> live_range bs i"
    "block_addr bs i + 24 + fst (bs ! i) \<le> heap_stop"
proof -
  have "tiles m HEAP_START 0 (take i bs @ bs ! i # drop (Suc i) bs)" using assms(1,2) by (simp add: id_take_nth_drop [symmetric])
  note f = tiles_middle [OF this]
  show "live_range bs i \<subseteq> {block_addr bs i + 24..<block_addr bs i + 24 + fst (bs ! i)}" "snd (bs ! i) \<in> live_range bs i"
    "block_addr bs i + 24 + fst (bs ! i) \<le> heap_stop"
    using f(2,3,4) assms(3) by (auto simp: live_range_def aligned_ok_def size_ok_def)
qed

text \<open>
  C4. The heap is sound in every reachable state: its bytes describe exactly one list of
  blocks, the list tiles the heap without a gap and has no two free neighbours, and the ranges
  handed out to clients lie inside the heap and never overlap.
\<close>

theorem heap_reachable_sound:
  assumes "heap_reachable st"
  shows "\<exists>bs. heap_holds st bs \<and> (\<forall>cs. heap_holds st cs \<longrightarrow> cs = bs) \<and> span bs = HEAP_SIZE \<and> coalesced bs \<and>
    (\<forall>i < length bs. snd (bs ! i) \<noteq> 0 \<longrightarrow> live_range bs i \<subseteq> {HEAP_START..<HEAP_START + HEAP_SIZE}) \<and>
    (\<forall>i < length bs. \<forall>j < length bs. i \<noteq> j \<and> snd (bs ! i) \<noteq> 0 \<and> snd (bs ! j) \<noteq> 0 \<longrightarrow> live_range bs i \<inter> live_range bs j = {})"
proof -
  obtain bs where h: "heap_holds st bs" using heap_reachable_holds [OF assms] by blast
  obtain m where t: "tiles m HEAP_START 0 bs" using initialize_holds(3) [OF h] by blast
  have lt: "live_range bs i \<inter> live_range bs j = {}" if "i < j" "j < length bs" "snd (bs ! i) \<noteq> 0" "snd (bs ! j) \<noteq> 0" for i j
    using live_range_block(1) [OF t, of i] live_range_block(1) [OF t, of j] that span_take_less [of i j bs] by fastforce
  have "live_range bs i \<inter> live_range bs j = {}" if "i < length bs" "j < length bs" "i \<noteq> j" "snd (bs ! i) \<noteq> 0" "snd (bs ! j) \<noteq> 0" for i j
    using lt [of i j] lt [of j i] that by (cases "i < j") auto
  moreover have "live_range bs i \<subseteq> {HEAP_START..<heap_stop}" if "i < length bs" "snd (bs ! i) \<noteq> 0" for i
    using live_range_block [OF t that] by fastforce
  moreover have "\<forall>cs. heap_holds st cs \<longrightarrow> cs = bs" using heap_holds_unique [OF h] by blast
  moreover have "coalesced bs" "span bs = HEAP_SIZE" using h tiles_span [OF t] by (simp_all add: heap_holds_def)
  ultimately show ?thesis using h by (intro exI [of _ bs]) blast
qed

text \<open>
  C12. \<^verbatim>\<open>kmalloc\<close> is first fit: with the size rounded up to 8 bytes it takes the first free
  block that is large enough, splitting off the rest when that can hold another block, and
  fails exactly when the size is invalid or no free block is large enough. In no case does it
  touch a byte that a client owns.
\<close>

theorem kmalloc_first_fit:
  assumes "heap_reachable st" and "heap_holds st bs" and "kmalloc st siz = (q, st')"
  shows "same_data bs st st' \<and>
    (if 0 < unat siz \<and> unat siz \<le> HEAP_SIZE - 24 \<and> (\<exists>b \<in> set bs. fits (round8 (unat siz)) b)
     then \<exists>xs n ys. bs = xs @ (n, 0) # ys \<and> round8 (unat siz) \<le> n \<and> (\<forall>b \<in> set xs. \<not> fits (round8 (unat siz)) b) \<and>
       unat q = HEAP_START + span xs + 24 \<and>
       heap_holds st' (xs @ (if n - round8 (unat siz) < 40 then [(n, unat q)]
         else [(round8 (unat siz), unat q), (n - round8 (unat siz) - 24, 0)]) @ ys)
     else q = 0 \<and> heap_holds st' bs \<and> hp_allocation_failures st' = hp_allocation_failures st + 1)"
proof -
  let ?s = "round8 (unat siz)"
  note r = kmalloc_refines [OF assms(2) assms(3) [unfolded kmalloc_def]]
  note none = alloc_blocks_None [of ?s bs]
  show ?thesis
  proof (cases "size_valid siz \<and> (\<exists>b \<in> set bs. fits ?s b)")
    case False
    then show ?thesis using r none by (auto simp: size_valid_def split: option.splits if_splits)
  next
    case True
    then obtain p cs where z: "alloc_blocks ?s bs = Some (p, cs)" using none by (cases "alloc_blocks ?s bs") auto
    then have q: "q = word_of_nat p" "heap_holds st' cs" "same_data bs st st'" using r True by simp_all
    obtain xs n ys where b: "bs = xs @ (n, 0) # ys" "?s \<le> n" "p = HEAP_START + span xs + 24"
      "cs = xs @ (if n - ?s < 40 then [(n, p)] else [(?s, p), (n - ?s - 24, 0)]) @ ys" "\<forall>b \<in> set xs. \<not> fits ?s b"
      using alloc_blocks_shape [OF z] by metis
    have "span bs = HEAP_SIZE" using tiles_span [OF initialize_holds(3) [OF assms(2)]] by simp
    then have "p < 2 ^ 32" using b(1,3) by (simp add: heap_nats)
    then have u: "unat q = p" using q(1) by (simp add: unat_of_nat_small)
    have c: "0 < unat siz \<and> unat siz \<le> HEAP_SIZE - 24 \<and> (\<exists>b \<in> set bs. fits ?s b)" using True by (simp add: size_valid_def)
    show ?thesis unfolding if_P [OF c] u using q(2,3) b by blast
  qed
qed

text \<open>
  C7. \<^verbatim>\<open>kfree\<close> of a pointer that is handed out, plain or page-aligned, frees exactly its
  block and joins it with the free neighbours on both sides. No byte of any other client
  changes.
\<close>

theorem kfree_exact:
  assumes "heap_reachable st" and "heap_holds st (xs @ (n, u) # ys)" and "u \<noteq> 0"
  shows "heap_holds (kfree st (word_of_nat u)) (freed xs n ys) \<and> same_data (xs @ (n, 0) # ys) st (kfree st (word_of_nat u))"
  using kfree_refines(1,2) [OF assms(2,3)] by blast

text \<open>
  C33. Freeing what was just allocated restores the heap: the same blocks, free and used, as
  before the allocation, with all client data in place.
\<close>

theorem kmalloc_kfree_roundtrip:
  assumes "heap_reachable st" and "heap_holds st bs" and "kmalloc st siz = (q, st')" and "q \<noteq> 0"
  shows "heap_holds (kfree st' q) bs \<and> same_data bs st (kfree st' q)"
proof -
  note r = kmalloc_refines [OF assms(2) assms(3) [unfolded kmalloc_def]]
  obtain p cs where z: "alloc_blocks (round8 (unat siz)) bs = Some (p, cs)" "q = word_of_nat p" "heap_holds st' cs" "same_data bs st st'"
    using r assms(4) by (auto split: option.splits if_splits)
  have c: "coalesced bs" using assms(2) by (simp add: heap_holds_def)
  obtain xs n ys where x: "cs = xs @ (n, p) # ys" "freed xs n ys = bs" "p = HEAP_START + span xs + 24"
    using freed_alloc [OF z(1) c] by metis
  have p0: "p \<noteq> 0" using x(3) by simp
  have hc: "heap_holds st' (xs @ (n, p) # ys)" using z(3) x(1) by simp
  note k = kfree_refines [OF hc p0]
  have "datas HEAP_START bs = datas HEAP_START (xs @ (n, 0) # ys)"
    using free_block_result(3) [OF holds_live(2) [OF hc p0]] x(2) by simp
  then have "same_data bs st' (kfree st' q)" using k(2) z(2) by (simp add: same_data_def)
  then show ?thesis using k(1) x(2) z(2) same_data_trans [OF z(4)] by simp
qed

text \<open>
  C34. In every reachable state the heap statistics are valid exactly when the heap is in use,
  that is, after the first call of an allocator that passed its size check. They then account for
  every byte of the heap and predict allocation for every size: a request succeeds exactly when
  it is not empty and its rounded size does not exceed the largest free block reported.
\<close>

theorem heap_stats_predict_kmalloc:
  assumes "heap_reachable st"
  shows "\<exists>s. memory_get_heap_stats st True = Some s \<and>
    hs_initialized s = (hp_base st \<noteq> 0) \<and> hs_valid s = (hp_base st \<noteq> 0) \<and>
    (hp_base st \<noteq> 0 \<longrightarrow>
      unat (hs_used_bytes s) + unat (hs_free_bytes s) + 24 * (unat (hs_allocated_blocks s) + unat (hs_free_blocks s)) = HEAP_SIZE \<and>
      (\<forall>siz. fst (kmalloc st siz) \<noteq> 0 \<longleftrightarrow> siz \<noteq> 0 \<and> round8 (unat siz) \<le> unat (hs_largest_free_block s)))"
proof (cases "hp_base st = 0")
  case True
  then show ?thesis by (simp add: memory_get_heap_stats_def heap_measure_def Let_def)
next
  case base: False
  obtain bs where h: "heap_holds st bs" using heap_reachable_holds [OF assms] by blast
  obtain s where s: "memory_get_heap_stats st True = Some s" "hs_valid s" "hs_initialized s"
    "unat (hs_free_bytes s) = bytes_of (free_blocks bs)" "unat (hs_used_bytes s) = bytes_of (used_blocks bs)"
    "unat (hs_free_blocks s) = length (free_blocks bs)" "unat (hs_allocated_blocks s) = length (used_blocks bs)"
    "\<And>n. n < 2 ^ 32 \<Longrightarrow> 0 < n \<Longrightarrow> n \<le> unat (hs_largest_free_block s) \<longleftrightarrow> (\<exists>b \<in> set bs. fits n b)"
    using heap_stats_result [OF h base] by metis
  have "bytes_of (used_blocks bs) + bytes_of (free_blocks bs) + 24 * (length (used_blocks bs) + length (free_blocks bs)) = span bs"
    by (induction bs) auto
  moreover have "span bs = HEAP_SIZE" using tiles_span [OF initialize_holds(3) [OF h]] by simp
  moreover have "fst (kmalloc st siz) \<noteq> 0 \<longleftrightarrow> siz \<noteq> 0 \<and> round8 (unat siz) \<le> unat (hs_largest_free_block s)" for siz
  proof (cases "siz = 0")
    case False
    let ?r = "round8 (unat siz)"
    have r0: "0 < ?r" using False round8_bounds [of "unat siz"] by (simp add: unat_gt_0)
    have "?r \<le> unat (hs_largest_free_block s) \<longleftrightarrow> (\<exists>b \<in> set bs. fits ?r b)"
    proof (cases "?r < 2 ^ 32")
      case True
      then show ?thesis by (rule s(8) [OF _ r0])
    next
      case False
      have "\<not> ?r \<le> unat (hs_largest_free_block s)"
        using unsigned_less [of "hs_largest_free_block s", where 'a = nat] False by simp
      moreover have "\<not> fits ?r b" if "b \<in> set bs" for b
        using fits_bound [OF h that, of ?r] False by (auto simp: heap_nats)
      ultimately show ?thesis by blast
    qed
    then show ?thesis using kmalloc_succeeds [OF h, of siz] False by simp
  qed (use kmalloc_succeeds [OF h, of siz] in simp)
  ultimately show ?thesis using s base by (intro exI [of _ s]) auto
qed

text \<open>
  C35. \<^verbatim>\<open>kmalloc_aligned\<close> succeeds exactly when the size is between 1 and the largest that
  leaves room for a page and the eight bytes of its marker, and some free block holds the rounded
  sum. It then returns a page-aligned pointer with the requested number of bytes behind it inside
  its own block. Otherwise it returns null, the blocks are as before and the failure is counted.
  Either way the data of every live block is kept.
\<close>

theorem kmalloc_aligned_page:
  assumes "heap_reachable st" and "heap_holds st bs" and "kmalloc_aligned st siz = (q, st')"
  shows "same_data bs st st' \<and>
    (if 0 < unat siz \<and> unat siz \<le> HEAP_SIZE - 24 - PAGE_SIZE - 8 \<and> (\<exists>b \<in> set bs. fits (round8 (unat siz + PAGE_SIZE + 8)) b)
     then q \<noteq> 0 \<and> PAGE_SIZE dvd unat q \<and>
       (\<exists>cs i. heap_holds st' cs \<and> i < length cs \<and> snd (cs ! i) = unat q \<and> {unat q..<unat q + unat siz} \<subseteq> live_range cs i)
     else q = 0 \<and> heap_holds st' bs \<and> hp_allocation_failures st' = hp_allocation_failures st + 1)"
proof -
  note r = kmalloc_aligned_refines [OF assms(2,3)]
  have c: "(0 < unat siz \<and> unat siz \<le> HEAP_SIZE - 24 - PAGE_SIZE - 8 \<and> (\<exists>b \<in> set bs. fits (round8 (unat siz + PAGE_SIZE + 8)) b)) =
    ((if aligned_valid siz then alloc_blocks (round8 (unat siz + PAGE_SIZE + 8)) bs else None) \<noteq> None)"
    using alloc_blocks_None [of "round8 (unat siz + PAGE_SIZE + 8)" bs]
    by (cases "aligned_valid siz") (auto simp: aligned_valid_def simp del: not_None_eq)
  show ?thesis
  proof (cases "if aligned_valid siz then alloc_blocks (round8 (unat siz + PAGE_SIZE + 8)) bs else None")
    case None
    then show ?thesis unfolding c using r by simp
  next
    case (Some z)
    obtain p cs where z: "z = (p, cs)" by (cases z)
    have al: "alloc_blocks (round8 (unat siz + PAGE_SIZE + 8)) bs = Some (p, cs)" using Some z by (simp split: if_splits)
    define v where "v = align_up (p + 8) PAGE_SIZE"
    obtain xs n ys where x: "cs = xs @ (n, p) # ys" "q = word_of_nat v" "heap_holds st' (xs @ (n, v) # ys)" "same_data bs st st'"
      "v + unat siz \<le> p + n" "p = HEAP_START + span xs + 24" using r unfolding Some z by (auto simp: v_def)
    obtain xs' n' ys' where y: "bs = xs' @ (n', 0) # ys'" "p = HEAP_START + span xs' + 24" using alloc_blocks_shape [OF al] by metis
    have "span bs = HEAP_SIZE" using tiles_span [OF initialize_holds(3) [OF assms(2)]] by simp
    then have pb: "p + 8 \<le> 0x1400008" "0x1000018 \<le> p" using y by (simp_all add: heap_nats)
    note pu = page_up [of "p + 8", folded v_def]
    have uq: "unat q = v" using pu(2) pb x(2) by (simp add: unat_of_nat_small)
    have v0: "v \<noteq> 0" using pu(1) pb by simp
    have "{v..<v + unat siz} \<subseteq> live_range (xs @ (n, v) # ys) (length xs)" using x(5,6) by (auto simp: live_range_def)
    then have "\<exists>cs i. heap_holds st' cs \<and> i < length cs \<and> snd (cs ! i) = v \<and> {v..<v + unat siz} \<subseteq> live_range cs i"
      using x(3) by (intro exI [of _ "xs @ (n, v) # ys"] exI [of _ "length xs"]) simp
    then show ?thesis unfolding c using x(4) pu(3) pb uq v0 Some by auto
  qed
qed


section \<open>Witnesses\<close>

text \<open>The heap before its first use, and after one allocation of 100 bytes.\<close>

definition fresh_heap :: heap_state where
  "fresh_heap = \<lparr>hp_mem = (\<lambda>_. 0), hp_base = 0, hp_allocation_failures = 0, hp_invalid_frees = 0, hp_double_frees = 0\<rparr>"

abbreviation used_heap :: heap_state where
  "used_heap \<equiv> snd (kmalloc fresh_heap 100)"

lemma fresh_facts: "heap_reachable fresh_heap" "heap_holds fresh_heap [(HEAP_SIZE - 24, 0)]"
  by (simp_all add: fresh_heap_def heap_reachable.start heap_holds_def)

lemma used_facts:
  "fst (kmalloc fresh_heap 100) = 0x1000018" "heap_reachable used_heap" "hp_base used_heap \<noteq> 0"
  "heap_holds used_heap ([] @ (104, 0x1000018) # [(HEAP_SIZE - 152, 0)])"
proof -
  have r: "round8 (unat (100 :: u32)) = 104" "size_valid 100" by (simp_all add: round8_def size_valid_def heap_nats)
  have al: "alloc_blocks 104 [(HEAP_SIZE - 24, 0)] = Some (0x1000018, [(104, 0x1000018), (HEAP_SIZE - 152, 0)])"
    by (simp add: alloc_blocks_def fits_def heap_nats)
  note k = kmalloc_refines [OF fresh_facts(2), of 100 "fst (kmalloc fresh_heap 100)" used_heap, unfolded r(1) if_P [OF r(2)] al option.case prod.case]
  show "fst (kmalloc fresh_heap 100) = 0x1000018" "heap_holds used_heap ([] @ (104, 0x1000018) # [(HEAP_SIZE - 152, 0)])"
    using k by (simp_all add: kmalloc_def)
  then show "hp_base used_heap \<noteq> 0" by (auto simp: heap_holds_def)
  show "heap_reachable used_heap" by (rule heap_reachable.kmalloc [OF fresh_facts(1)])
qed

theorem heap_reachable_sound_witness:
  "\<exists>bs. heap_holds used_heap bs \<and> span bs = HEAP_SIZE \<and> (\<forall>i < length bs. snd (bs ! i) \<noteq> 0 \<longrightarrow> live_range bs i \<subseteq> {HEAP_START..<HEAP_START + HEAP_SIZE})"
  using heap_reachable_sound [OF used_facts(2)] by blast

theorem kmalloc_first_fit_witness:
  "heap_reachable used_heap \<and> fst (kmalloc used_heap 8) = 0x1000098"
proof -
  have v: "0 < unat (8 :: u32) \<and> unat (8 :: u32) \<le> HEAP_SIZE - 24 \<and>
      (\<exists>b \<in> set ([] @ (104, 0x1000018) # [(HEAP_SIZE - 152, 0)]). fits (round8 (unat (8 :: u32))) b)"
    by (simp add: fits_def round8_def heap_nats)
  obtain xs n ys where x: "[(104, 0x1000018), (HEAP_SIZE - 152, 0)] = xs @ (n, 0) # ys" "unat (fst (kmalloc used_heap 8)) = HEAP_START + span xs + 24"
    using kmalloc_first_fit [OF used_facts(2,4), of 8 "fst (kmalloc used_heap 8)" "snd (kmalloc used_heap 8)", unfolded if_P [OF v]] by auto
  have "xs = [(104, 0x1000018)]" using x(1) by (cases xs; cases "tl xs") auto
  then have "unat (fst (kmalloc used_heap 8)) = unat (0x1000098 :: u32)" using x(2) by (simp add: heap_nats)
  then show ?thesis using used_facts(2) by (simp add: word_unat_eq_iff)
qed

theorem kfree_exact_witness:
  "heap_holds (kfree used_heap 0x1000018) (freed [] 104 [(HEAP_SIZE - 152, 0)])"
  using kfree_exact [OF used_facts(2,4)] by simp

theorem kmalloc_kfree_roundtrip_witness:
  "heap_holds (kfree (snd (kmalloc fresh_heap 100)) 0x1000018) [(HEAP_SIZE - 24, 0)]"
  using kmalloc_kfree_roundtrip [OF fresh_facts, of 100 "0x1000018" used_heap] used_facts(1) by (simp add: prod_eq_iff)

theorem heap_stats_predict_kmalloc_witness:
  "\<exists>s. memory_get_heap_stats used_heap True = Some s \<and> hs_valid s \<and>
    (\<forall>siz. fst (kmalloc used_heap siz) \<noteq> 0 \<longleftrightarrow> siz \<noteq> 0 \<and> round8 (unat siz) \<le> unat (hs_largest_free_block s))"
  using heap_stats_predict_kmalloc [OF used_facts(2)] used_facts(3) by auto

theorem kmalloc_aligned_page_witness:
  "fst (kmalloc_aligned used_heap 4096) \<noteq> 0 \<and> PAGE_SIZE dvd unat (fst (kmalloc_aligned used_heap 4096)) \<and>
   same_data ([] @ (104, 0x1000018) # [(HEAP_SIZE - 152, 0)]) used_heap (snd (kmalloc_aligned used_heap 4096))"
proof -
  have "0 < unat (4096 :: u32) \<and> unat (4096 :: u32) \<le> HEAP_SIZE - 24 - PAGE_SIZE - 8 \<and>
    (\<exists>b \<in> set ([] @ (104, 0x1000018) # [(HEAP_SIZE - 152, 0)]). fits (round8 (unat (4096 :: u32) + PAGE_SIZE + 8)) b)"
    by (simp add: fits_def round8_def heap_nats)
  then show ?thesis
    using kmalloc_aligned_page [OF used_facts(2,4), of 4096 "fst (kmalloc_aligned used_heap 4096)" "snd (kmalloc_aligned used_heap 4096)"] by auto
qed


end
