(* ===== verification/Sha256.thy ===== *)
theory Sha256
  imports Prelude
begin

text \<open>
  SHA-256 of \<^verbatim>\<open>core/crypto.c\<close>: the message schedule, the compression function, the incremental
  interface and the one-shot digest, the constant-time comparison and the SHA-256 self test. A
  read-only pointer into a buffer is the rest of the buffer from there on.
\<close>

unbundle bit_operations_syntax

type_synonym u64 = "64 word"

section \<open>Compression\<close>

definition SHA256_BLOCK_SIZE :: nat where "SHA256_BLOCK_SIZE = 64"
definition SHA256_WORD_COUNT :: nat where "SHA256_WORD_COUNT = 64"
definition CRYPTO_SHA256_SIZE :: nat where "CRYPTO_SHA256_SIZE = 32"

definition sha256_constants :: "u32 list" where
  "sha256_constants = [
    0x428A2F98, 0x71374491, 0xB5C0FBCF, 0xE9B5DBA5,
    0x3956C25B, 0x59F111F1, 0x923F82A4, 0xAB1C5ED5,
    0xD807AA98, 0x12835B01, 0x243185BE, 0x550C7DC3,
    0x72BE5D74, 0x80DEB1FE, 0x9BDC06A7, 0xC19BF174,
    0xE49B69C1, 0xEFBE4786, 0x0FC19DC6, 0x240CA1CC,
    0x2DE92C6F, 0x4A7484AA, 0x5CB0A9DC, 0x76F988DA,
    0x983E5152, 0xA831C66D, 0xB00327C8, 0xBF597FC7,
    0xC6E00BF3, 0xD5A79147, 0x06CA6351, 0x14292967,
    0x27B70A85, 0x2E1B2138, 0x4D2C6DFC, 0x53380D13,
    0x650A7354, 0x766A0ABB, 0x81C2C92E, 0x92722C85,
    0xA2BFE8A1, 0xA81A664B, 0xC24B8B70, 0xC76C51A3,
    0xD192E819, 0xD6990624, 0xF40E3585, 0x106AA070,
    0x19A4C116, 0x1E376C08, 0x2748774C, 0x34B0BCB5,
    0x391C0CB3, 0x4ED8AA4A, 0x5B9CCA4F, 0x682E6FF3,
    0x748F82EE, 0x78A5636F, 0x84C87814, 0x8CC70208,
    0x90BEFFFA, 0xA4506CEB, 0xBEF9A3F7, 0xC67178F2]"

record crypto_sha256_ctx =
  sh_state :: "u32 list"
  sh_total_size :: u64
  sh_buffer :: "u8 list"
  sh_buffer_size :: u32

definition sha256_rotate_right :: "u32 \<Rightarrow> nat \<Rightarrow> u32" where
  "sha256_rotate_right value count = drop_bit count value OR push_bit (32 - count) value"

definition sha256_load_be :: "u8 list \<Rightarrow> u32" where
  "sha256_load_be data =
     push_bit 24 (ucast (data ! 0)) OR push_bit 16 (ucast (data ! 1)) OR
     push_bit 8 (ucast (data ! 2)) OR ucast (data ! 3)"

definition sha256_store_be :: "u8 list \<Rightarrow> nat \<Rightarrow> u32 \<Rightarrow> u8 list" where
  "sha256_store_be output offset value =
     output[offset := ucast (drop_bit 24 value), offset + 1 := ucast (drop_bit 16 value),
            offset + 2 := ucast (drop_bit 8 value), offset + 3 := ucast value]"

text \<open>The words computed so far determine the next one.\<close>

definition next_word :: "u32 list \<Rightarrow> u32" where
  "next_word words =
     (let index = length words;
          first = words ! (index - 15);
          second = words ! (index - 2);
          sigma0 = sha256_rotate_right first 7 XOR sha256_rotate_right first 18 XOR drop_bit 3 first;
          sigma1 = sha256_rotate_right second 17 XOR sha256_rotate_right second 19 XOR drop_bit 10 second
      in words ! (index - 16) + sigma0 + words ! (index - 7) + sigma1)"

primrec expand_loop :: "nat \<Rightarrow> u32 list \<Rightarrow> u32 list" where
  "expand_loop 0 words = words"
| "expand_loop (Suc n) words = (let words = words @ [next_word words] in expand_loop n words)"

definition sha256_expand_words :: "u8 list \<Rightarrow> u32 list" where
  "sha256_expand_words block =
     expand_loop (SHA256_WORD_COUNT - 16) (map (\<lambda>index. sha256_load_be (drop (index * 4) block)) [0..<16])"

record sha256_vars =
  va :: u32
  vb :: u32
  vc :: u32
  vd :: u32
  ve :: u32
  vf :: u32
  vg :: u32
  vh :: u32

definition sha256_round :: "u32 \<Rightarrow> u32 \<Rightarrow> sha256_vars \<Rightarrow> sha256_vars" where
  "sha256_round constant word v =
     (let a = va v; e = ve v;
          sigma1 = sha256_rotate_right e 6 XOR sha256_rotate_right e 11 XOR sha256_rotate_right e 25;
          choice = (e AND vf v) XOR (NOT e AND vg v);
          temp1 = vh v + sigma1 + choice + constant + word;
          sigma0 = sha256_rotate_right a 2 XOR sha256_rotate_right a 13 XOR sha256_rotate_right a 22;
          majority = (a AND vb v) XOR (a AND vc v) XOR (vb v AND vc v);
          temp2 = sigma0 + majority
      in \<lparr>va = temp1 + temp2, vb = a, vc = vb v, vd = vc v, ve = vd v + temp1, vf = e, vg = vf v, vh = vg v\<rparr>)"

definition sha256_compress :: "crypto_sha256_ctx \<Rightarrow> u8 list \<Rightarrow> crypto_sha256_ctx" where
  "sha256_compress ctx block =
     (let s = sh_state ctx;
          words = sha256_expand_words block;
          v = fold (\<lambda>index. sha256_round (sha256_constants ! index) (words ! index)) [0..<SHA256_WORD_COUNT]
                \<lparr>va = s ! 0, vb = s ! 1, vc = s ! 2, vd = s ! 3, ve = s ! 4, vf = s ! 5, vg = s ! 6, vh = s ! 7\<rparr>
      in ctx\<lparr>sh_state := [s ! 0 + va v, s ! 1 + vb v, s ! 2 + vc v, s ! 3 + vd v,
                          s ! 4 + ve v, s ! 5 + vf v, s ! 6 + vg v, s ! 7 + vh v]\<rparr>)"

section \<open>Incremental interface\<close>

definition sha256_initial :: crypto_sha256_ctx where
  "sha256_initial = \<lparr>
     sh_state = [0x6A09E667, 0xBB67AE85, 0x3C6EF372, 0xA54FF53A, 0x510E527F, 0x9B05688C, 0x1F83D9AB, 0x5BE0CD19],
     sh_total_size = 0, sh_buffer = replicate 64 0, sh_buffer_size = 0\<rparr>"

definition sha256_cleared :: crypto_sha256_ctx where
  "sha256_cleared = \<lparr>sh_state = replicate 8 0, sh_total_size = 0, sh_buffer = replicate 64 0, sh_buffer_size = 0\<rparr>"

text \<open>Every field of the context is assigned, so its old contents do not matter.\<close>

definition crypto_sha256_init :: "crypto_sha256_ctx option \<Rightarrow> status \<times> crypto_sha256_ctx option" where
  "crypto_sha256_init ctx =
     (case ctx of None \<Rightarrow> (ERR_NULL, None) | Some _ \<Rightarrow> (OK, Some sha256_initial))"

definition copy_at :: "u8 list \<Rightarrow> nat \<Rightarrow> u8 list \<Rightarrow> nat \<Rightarrow> u8 list" where
  "copy_at buffer offset data n = take offset buffer @ kmemcpy (drop offset buffer) data n"

definition sha256_copy_input :: "crypto_sha256_ctx \<Rightarrow> u8 list \<Rightarrow> u32 \<Rightarrow> crypto_sha256_ctx \<times> u8 list \<times> u32" where
  "sha256_copy_input ctx data siz =
     (let available = word_of_nat SHA256_BLOCK_SIZE - sh_buffer_size ctx;
          copied = (if siz < available then siz else available)
      in (ctx\<lparr>sh_buffer := copy_at (sh_buffer ctx) (unat (sh_buffer_size ctx)) data (unat copied),
              sh_buffer_size := sh_buffer_size ctx + copied\<rparr>,
          drop (unat copied) data, siz - copied))"

definition flush_block :: "crypto_sha256_ctx \<Rightarrow> crypto_sha256_ctx" where
  "flush_block ctx =
     (sha256_compress ctx (sh_buffer ctx))\<lparr>sh_buffer_size := 0, sh_buffer := kmemset (sh_buffer ctx) 0 64\<rparr>"

function update_loop :: "crypto_sha256_ctx \<Rightarrow> u8 list \<Rightarrow> u32 \<Rightarrow> crypto_sha256_ctx" where
  "update_loop ctx data siz =
     (if siz > 0 then
        let (ctx', data', siz') = sha256_copy_input ctx data siz in
        update_loop (if sh_buffer_size ctx' = word_of_nat SHA256_BLOCK_SIZE then flush_block ctx' else ctx') data' siz'
      else ctx)"
  by pat_completeness auto
termination
proof (relation "measures [\<lambda>(ctx, data, siz). unat siz, \<lambda>(ctx, data, siz). if sh_buffer_size ctx = 64 then 1 else 0]", goal_cases)
  case (2 ctx data siz x ctx' y data' siz')
  define av where "av = (64 :: u32) - sh_buffer_size ctx"
  define n where "n = (if siz < av then siz else av)"
  have e: "siz' = siz - n" "sh_buffer_size ctx' = sh_buffer_size ctx + n"
    using 2(2-4) by (auto simp: sha256_copy_input_def Let_def av_def n_def SHA256_BLOCK_SIZE_def)
  have le: "n \<le> siz" by (auto simp: n_def)
  show ?case
  proof (cases "n = 0")
    case True
    then have "av = 0" using 2(1) by (auto simp: n_def split: if_splits)
    then have "sh_buffer_size ctx = 64" by (simp add: av_def)
    then show ?thesis using e True by (simp add: flush_block_def SHA256_BLOCK_SIZE_def)
  next
    case False
    then have "unat siz' < unat siz" using le e(1) 2(1) by (simp add: unat_sub word_le_nat_alt unat_gt_0 word_less_nat_alt)
    then show ?thesis by simp
  qed
qed simp

declare update_loop.simps [simp del]

definition crypto_sha256_update ::
  "crypto_sha256_ctx option \<Rightarrow> u8 list option \<Rightarrow> u32 \<Rightarrow> status \<times> crypto_sha256_ctx option" where
  "crypto_sha256_update ctx data siz =
     (case ctx of
        None \<Rightarrow> (ERR_NULL, None)
      | Some c \<Rightarrow>
          if data = None \<and> siz > 0 then (ERR_NULL, ctx)
          else
            let c = update_loop c (case data of None \<Rightarrow> [] | Some d \<Rightarrow> d) siz
            in (OK, Some (c\<lparr>sh_total_size := sh_total_size c + ucast siz\<rparr>)))"

definition sha256_append_length :: "crypto_sha256_ctx \<Rightarrow> u64 \<Rightarrow> crypto_sha256_ctx" where
  "sha256_append_length ctx bit_length =
     ctx\<lparr>sh_buffer := fold (\<lambda>index b. b[63 - index := ucast (drop_bit (index * 8) bit_length)]) [0..<8] (sh_buffer ctx)\<rparr>"

definition push_byte :: "u8 \<Rightarrow> crypto_sha256_ctx \<Rightarrow> crypto_sha256_ctx" where
  "push_byte v ctx =
     ctx\<lparr>sh_buffer := (sh_buffer ctx)[unat (sh_buffer_size ctx) := v], sh_buffer_size := sh_buffer_size ctx + 1\<rparr>"

function zero_until :: "u32 \<Rightarrow> crypto_sha256_ctx \<Rightarrow> crypto_sha256_ctx" where
  "zero_until limit ctx =
     (if sh_buffer_size ctx < limit then zero_until limit (push_byte 0 ctx) else ctx)"
  by pat_completeness auto
termination
proof (relation "measure (\<lambda>(limit, ctx). unat limit - unat (sh_buffer_size ctx))", goal_cases)
  case (2 limit ctx)
  then have "unat (sh_buffer_size ctx) < 0xFFFFFFFF" using unsigned_less [of limit, where 'a = nat] by (simp add: word_less_nat_alt)
  then have "unat (sh_buffer_size ctx + 1) = Suc (unat (sh_buffer_size ctx))" by (intro unat_word_Suc) auto
  then show ?case using 2 by (simp add: push_byte_def word_less_nat_alt)
qed simp

declare zero_until.simps [simp del]

definition crypto_sha256_final ::
  "crypto_sha256_ctx option \<Rightarrow> u8 list option \<Rightarrow> status \<times> crypto_sha256_ctx option \<times> u8 list option" where
  "crypto_sha256_final ctx hash =
     (case (ctx, hash) of
        (Some c, Some h) \<Rightarrow>
          let bit_length = sh_total_size c * 8;
              c = push_byte 0x80 c;
              c = (if sh_buffer_size c > 56 then flush_block (zero_until (word_of_nat SHA256_BLOCK_SIZE) c) else c);
              c = zero_until 56 c;
              c = sha256_append_length c bit_length;
              c = sha256_compress c (sh_buffer c);
              h = fold (\<lambda>index h. sha256_store_be h (index * 4) (sh_state c ! index)) [0..<8] h
          in (OK, Some sha256_cleared, Some h)
      | _ \<Rightarrow> (ERR_NULL, ctx, hash))"

section \<open>One-shot digest, comparison and self test\<close>

definition crypto_sha256 :: "u8 list option \<Rightarrow> u32 \<Rightarrow> u8 list option \<Rightarrow> status \<times> u8 list option" where
  "crypto_sha256 data siz hash =
     (if hash = None \<or> (data = None \<and> siz > 0) then (ERR_NULL, hash)
      else
        let (result, ctx) = crypto_sha256_init (Some sha256_cleared) in
        if result \<noteq> OK then (result, hash)
        else
          let (result, ctx) = crypto_sha256_update ctx data siz in
          if result \<noteq> OK then (result, hash)
          else let (result, ctx, hash) = crypto_sha256_final ctx hash in (result, hash))"

definition crypto_equal :: "u8 list option \<Rightarrow> u8 list option \<Rightarrow> nat \<Rightarrow> bool" where
  "crypto_equal first second siz =
     (case (first, second) of
        (Some f, Some s) \<Rightarrow> fold (\<lambda>index difference. difference OR (f ! index XOR s ! index)) [0..<siz] 0 = 0
      | _ \<Rightarrow> False)"

definition sha256_expected :: "u8 list" where
  "sha256_expected =
    [0xBA, 0x78, 0x16, 0xBF, 0x8F, 0x01, 0xCF, 0xEA,
     0x41, 0x41, 0x40, 0xDE, 0x5D, 0xAE, 0x22, 0x23,
     0xB0, 0x03, 0x61, 0xA3, 0x96, 0x17, 0x7A, 0x9C,
     0xB4, 0x10, 0xFF, 0x61, 0xF2, 0x00, 0x15, 0xAD]"

definition crypto_test_sha256 :: "u8 list \<Rightarrow> status" where
  "crypto_test_sha256 actual =
     (let (result, hash) = crypto_sha256 (Some [0x61, 0x62, 0x63]) 3 (Some actual) in
      if result \<noteq> OK \<or> \<not> crypto_equal hash (Some sha256_expected) CRYPTO_SHA256_SIZE then ERR_INVALID else OK)"

end
