(* ===== verification/Sha256_Constants.thy ===== *)
theory Sha256_Constants
  imports Sha256 Complex_Main
begin

text \<open>
  The constants of SHA-256 as FIPS 180-4 derives them from the primes, independently of the
  tables in crypto.c, and that the code's tables hold exactly these values.
\<close>

section \<open>The constants of the standard\<close>

text \<open>
  FIPS 180-4 takes the first 32 bits of the fractional parts of the cube roots of the first 64
  primes as round constants, and of the square roots of the first 8 primes as initial words.
\<close>

definition is_prime :: "int \<Rightarrow> bool" where
  "is_prime p \<longleftrightarrow> 1 < p \<and> (\<forall>d \<in> {2..<p}. \<not> d dvd p)"

definition primes :: "int list" where
  "primes = filter is_prime [0..311]"

definition root_fraction :: "nat \<Rightarrow> int \<Rightarrow> u32" where
  "root_fraction k p = word_of_int \<lfloor>frac (root k (real_of_int p)) * 2 ^ 32\<rfloor>"

definition K256 :: "u32 list" where "K256 = map (root_fraction 3) primes"
definition H256 :: "u32 list" where "H256 = map (root_fraction 2) (take 8 primes)"

lemma root_fraction_eq:
  assumes "0 < k" "0 \<le> q" "0 \<le> p" "(q * 2 ^ 32 + uint w) ^ k \<le> p * 2 ^ (32 * k)" "p * 2 ^ (32 * k) < (q * 2 ^ 32 + uint w + 1) ^ k"
  shows "root_fraction k p = w"
proof -
  let ?n = "q * 2 ^ 32 + uint w" and ?r = "root k (real_of_int p)"
  have w: "0 \<le> uint w" "uint w < 2 ^ 32" using unsigned_less [of w, where 'a = int] by simp_all
  have r: "0 \<le> ?r" "?r ^ k = real_of_int p" using assms(1,3) by simp_all
  have e: "(?r * 2 ^ 32) ^ k = real_of_int (p * 2 ^ (32 * k))" by (simp add: power_mult_distrib r(2) power_mult)
  have n: "0 \<le> real_of_int ?n" unfolding of_int_0_le_iff using assms(2) w(1) by simp
  have "real_of_int ?n ^ k \<le> (?r * 2 ^ 32) ^ k" unfolding e of_int_power [symmetric] using assms(4) by (simp only: of_int_le_iff)
  then have lo: "real_of_int ?n \<le> ?r * 2 ^ 32" using power_mono_iff [OF n, of "?r * 2 ^ 32" k] r(1) assms(1) by simp
  have "(?r * 2 ^ 32) ^ k < real_of_int (?n + 1) ^ k" unfolding e of_int_power [symmetric] using assms(5) by (simp only: of_int_less_iff)
  then have hi: "?r * 2 ^ 32 < real_of_int (?n + 1)" by (rule power_less_imp_less_base) (use n in simp)
  have wr: "0 \<le> real_of_int (uint w)" "real_of_int (uint w) \<le> 4294967295" unfolding of_int_0_le_iff of_int_le_numeral_iff using w by simp_all
  have "\<lfloor>?r\<rfloor> = q" using lo hi wr by (intro floor_unique) auto
  then have "frac ?r * 2 ^ 32 = ?r * 2 ^ 32 - real_of_int (q * 2 ^ 32)" by (simp add: frac_def algebra_simps)
  then have "\<lfloor>frac ?r * 2 ^ 32\<rfloor> = uint w" using lo hi by (intro floor_unique) auto
  then show ?thesis by (simp add: root_fraction_def)
qed

text \<open>Below 18 * 18 trial division by the primes up to 17 decides primality.\<close>

definition trial :: "int \<Rightarrow> bool" where
  "trial p \<longleftrightarrow> 1 < p \<and> list_all (\<lambda>q. p mod q \<noteq> 0 \<or> q = p) [2, 3, 5, 7, 11, 13, 17]"

lemma small_divisor:
  assumes "2 \<le> c" "c \<le> (17 :: int)"
  shows "\<exists>q \<in> set [2, 3, 5, 7, 11, 13, 17]. q dvd c"
proof -
  have "list_all (\<lambda>c. list_ex (\<lambda>q. c mod q = 0) [2, 3, 5, 7, 11, 13, 17]) [2..17 :: int]" by code_simp
  then show ?thesis using assms unfolding list_all_iff list_ex_iff set_upto by (auto simp only: dvd_eq_mod_eq_0 atLeastAtMost_iff)
qed

lemma is_prime_trial:
  assumes "p \<in> {0..311}"
  shows "is_prime p = trial p"
proof
  assume p: "is_prime p"
  have "q = p" if "q dvd p" "2 \<le> q" for q
    using p that zdvd_imp_le [of q p] by (auto simp: is_prime_def le_less)
  then show "trial p" using p by (auto simp: is_prime_def trial_def mod_eq_0_iff_dvd)
next
  assume t: "trial p"
  have r: "q = p" if "q dvd p" "q \<in> set [2, 3, 5, 7, 11, 13, 17]" for q
    using t that by (auto simp: trial_def list_all_iff mod_eq_0_iff_dvd)
  have p1: "1 < p" using t by (simp add: trial_def)
  have "\<not> d dvd p" if d: "d \<in> {2..<p}" for d
  proof
    assume "d dvd p"
    then obtain e where e: "p = d * e" by (rule dvdE)
    have "0 < d * e" using e p1 by simp
    then have "0 < e" using d by (simp add: zero_less_mult_iff)
    moreover have "e \<noteq> 1" using e d by auto
    ultimately have e2: "2 \<le> e" by simp
    have lt: "d < p" "e < p" using d e e2 by auto
    have "d \<le> 17 \<or> e \<le> 17"
    proof (rule ccontr)
      assume "\<not> (d \<le> 17 \<or> e \<le> 17)"
      then have "18 * 18 \<le> d * e" by (intro mult_mono) auto
      then show False using e assms by simp
    qed
    then obtain c where c: "c dvd p" "2 \<le> c" "c \<le> 17" "c < p"
    proof
      assume "d \<le> 17"
      then show thesis using that [of d] \<open>d dvd p\<close> d by simp
    next
      assume "e \<le> 17"
      then show thesis using that [of e] e e2 lt by simp
    qed
    obtain q where q: "q \<in> set [2, 3, 5, 7, 11, 13, 17]" "q dvd c" using small_divisor [OF c(2,3)] by blast
    have "q = p" by (rule r [OF dvd_trans [OF q(2) c(1)] q(1)])
    then show False using zdvd_imp_le [OF q(2)] c by simp
  qed
  then show "is_prime p" using p1 by (simp add: is_prime_def)
qed

lemma primes_eq: "primes = [2, 3, 5, 7, 11, 13, 17, 19, 23, 29, 31, 37, 41, 43, 47, 53, 59, 61, 67, 71, 73, 79, 83, 89, 97, 101, 103, 107,
    109, 113, 127, 131, 137, 139, 149, 151, 157, 163, 167, 173, 179, 181, 191, 193, 197, 199, 211, 223, 227, 229, 233, 239, 241, 251, 257,
    263, 269, 271, 277, 281, 283, 293, 307, 311]"
proof -
  have "primes = filter trial [0..311]"
    unfolding primes_def by (intro filter_cong refl) (simp add: is_prime_trial)
  also have "\<dots> = [2, 3, 5, 7, 11, 13, 17, 19, 23, 29, 31, 37, 41, 43, 47, 53, 59, 61, 67, 71, 73, 79, 83, 89, 97, 101, 103, 107,
    109, 113, 127, 131, 137, 139, 149, 151, 157, 163, 167, 173, 179, 181, 191, 193, 197, 199, 211, 223, 227, 229, 233, 239, 241, 251, 257,
    263, 269, 271, 277, 281, 283, 293, 307, 311]"
    by code_simp
  finally show ?thesis .
qed

definition root_check :: "nat \<Rightarrow> int \<Rightarrow> int \<Rightarrow> u32 \<Rightarrow> bool" where
  "root_check k p q w \<longleftrightarrow> 0 \<le> q \<and> 0 \<le> p \<and> (q * 2 ^ 32 + uint w) ^ k \<le> p * 2 ^ (32 * k) \<and> p * 2 ^ (32 * k) < (q * 2 ^ 32 + uint w + 1) ^ k"

lemma roots_checked:
  assumes "0 < k" "list_all2 (\<lambda>(p, q) w. root_check k p q w) (zip ps qs) ws" "length ps = length qs"
  shows "map (root_fraction k) ps = ws"
proof -
  have "list_all2 (\<lambda>(p, q) w. root_fraction k p = w) (zip ps qs) ws"
    using assms(2) by (rule list_all2_mono) (auto simp: root_check_def intro: root_fraction_eq [OF assms(1)])
  then have "map (root_fraction k \<circ> fst) (zip ps qs) = ws"
    using assms(3) by (auto simp: list_all2_conv_all_nth list_eq_iff_nth_eq split_beta)
  then show ?thesis using assms(3) by (simp add: map_fst_zip map_map [symmetric] del: map_map)
qed

text \<open>The constants in the code are those of the standard.\<close>

lemma constants_eq: "sha256_constants = K256"
proof -
  have "list_all2 (\<lambda>(p, q) w. root_check 3 p q w)
      (zip primes [1, 1, 1, 1, 2, 2, 2, 2, 2, 3, 3, 3, 3, 3, 3, 3, 3, 3, 4, 4, 4, 4, 4, 4, 4, 4, 4, 4, 4, 4, 5, 5, 5, 5, 5, 5, 5, 5, 5, 5, 5, 5, 5, 5, 5, 5, 5, 6, 6, 6, 6, 6, 6, 6, 6, 6, 6, 6, 6, 6, 6, 6, 6, 6]) sha256_constants"
    unfolding primes_eq sha256_constants_def by (simp add: root_check_def)
  from roots_checked [OF _ this] show ?thesis by (simp add: K256_def primes_eq)
qed

lemma initial_eq: "sh_state sha256_initial = H256"
proof -
  have "list_all2 (\<lambda>(p, q) w. root_check 2 p q w) (zip (take 8 primes) [1, 1, 2, 2, 3, 3, 4, 4]) (sh_state sha256_initial)"
    unfolding primes_eq sha256_initial_def by (simp add: root_check_def)
  from roots_checked [OF _ this] show ?thesis by (simp add: H256_def primes_eq)
qed

end
