(* ===== verification/Sha256_Correct.thy ===== *)
theory Sha256_Correct
  imports Sha256_Constants
begin

text \<open>
  SHA-256 computes the digest of FIPS 180-4 for every way of feeding the message in chunks. The
  reference below states the standard directly: the schedule as a recursion on the index, the
  working variables as a shift register, the padding as a list, the constants as fractional parts
  of roots of primes. It shares no definition with the code but the word type.
\<close>

section \<open>Reference\<close>

definition Ch :: "u32 \<Rightarrow> u32 \<Rightarrow> u32 \<Rightarrow> u32" where "Ch x y z = (x AND y) XOR (NOT x AND z)"
definition Maj :: "u32 \<Rightarrow> u32 \<Rightarrow> u32 \<Rightarrow> u32" where "Maj x y z = (x AND y) XOR (x AND z) XOR (y AND z)"
definition Sum0 :: "u32 \<Rightarrow> u32" where "Sum0 x = word_rotr 2 x XOR word_rotr 13 x XOR word_rotr 22 x"
definition Sum1 :: "u32 \<Rightarrow> u32" where "Sum1 x = word_rotr 6 x XOR word_rotr 11 x XOR word_rotr 25 x"
definition Sig0 :: "u32 \<Rightarrow> u32" where "Sig0 x = word_rotr 7 x XOR word_rotr 18 x XOR drop_bit 3 x"
definition Sig1 :: "u32 \<Rightarrow> u32" where "Sig1 x = word_rotr 17 x XOR word_rotr 19 x XOR drop_bit 10 x"

definition be_word :: "u8 list \<Rightarrow> u32" where
  "be_word bs = foldl (\<lambda>w b. push_bit 8 w OR ucast b) 0 bs"

definition be_bytes :: "nat \<Rightarrow> nat \<Rightarrow> u8 list" where
  "be_bytes n v = map (\<lambda>i. word_of_nat (v div 256 ^ (n - 1 - i))) [0..<n]"

fun schedule :: "u8 list \<Rightarrow> nat \<Rightarrow> u32" where
  "schedule M t =
     (if t < 16 then be_word (take 4 (drop (4 * t) M))
      else Sig1 (schedule M (t - 2)) + schedule M (t - 7) + Sig0 (schedule M (t - 15)) + schedule M (t - 16))"

declare schedule.simps [simp del]

definition shift_round :: "u32 \<Rightarrow> u32 \<Rightarrow> u32 list \<Rightarrow> u32 list" where
  "shift_round k w v =
     (let t1 = v ! 7 + Sum1 (v ! 4) + Ch (v ! 4) (v ! 5) (v ! 6) + k + w;
          t2 = Sum0 (v ! 0) + Maj (v ! 0) (v ! 1) (v ! 2)
      in [t1 + t2, v ! 0, v ! 1, v ! 2, v ! 3 + t1, v ! 4, v ! 5, v ! 6])"

definition hash_block :: "u32 list \<Rightarrow> u8 list \<Rightarrow> u32 list" where
  "hash_block H M = map2 (+) H (fold (\<lambda>t. shift_round (K256 ! t) (schedule M t)) [0..<64] H)"

definition block_at :: "u8 list \<Rightarrow> nat \<Rightarrow> u8 list" where
  "block_at M i = take 64 (drop (64 * i) M)"

definition hash_blocks :: "u8 list \<Rightarrow> nat \<Rightarrow> u32 list" where
  "hash_blocks M n = fold (\<lambda>i H. hash_block H (block_at M i)) [0..<n] H256"

definition pad :: "u8 list \<Rightarrow> u8 list" where
  "pad m = m @ 0x80 # replicate ((119 - length m mod 64) mod 64) 0 @ be_bytes 8 (8 * length m)"

definition sha256 :: "u8 list \<Rightarrow> u8 list" where
  "sha256 m = concat (map (be_bytes 4 \<circ> unat) (hash_blocks (pad m) (length (pad m) div 64)))"

section \<open>The compression function\<close>

lemma rotate_right_rotr:
  assumes "0 < n" "n < 32"
  shows "sha256_rotate_right x n = word_rotr n x"
proof (rule bit_word_eqI)
  fix i assume "i < LENGTH(32)"
  then have i: "i < 32" by simp
  have "(i + n) mod 32 = (if i + n < 32 then i + n else i + n - 32)" using i assms by (simp add: le_mod_geq)
  moreover have "\<not> bit x j" if "32 \<le> j" for j using bit_imp_le_length [of x j] that by auto
  ultimately show "bit (sha256_rotate_right x n) i = bit (word_rotr n x) i"
    using i assms by (auto simp: sha256_rotate_right_def bit_or_iff bit_drop_bit_eq bit_push_bit_iff bit_word_rotr_iff add.commute)
qed

lemma sigma_eqs:
  "sha256_rotate_right x 7 XOR sha256_rotate_right x 18 XOR drop_bit 3 x = Sig0 x"
  "sha256_rotate_right x 17 XOR sha256_rotate_right x 19 XOR drop_bit 10 x = Sig1 x"
  "sha256_rotate_right x 2 XOR sha256_rotate_right x 13 XOR sha256_rotate_right x 22 = Sum0 x"
  "sha256_rotate_right x 6 XOR sha256_rotate_right x 11 XOR sha256_rotate_right x 25 = Sum1 x"
  by (simp_all add: rotate_right_rotr Sig0_def Sig1_def Sum0_def Sum1_def)

lemma load_be_eq:
  assumes "4 \<le> length bs"
  shows "sha256_load_be bs = be_word (take 4 bs)"
proof -
  obtain a b c d r where "bs = a # b # c # d # r" using assms by (auto simp: numeral_eq_Suc Suc_le_length_iff)
  then show ?thesis by (simp add: sha256_load_be_def be_word_def push_bit_or or.assoc)
qed

lemma expand_loop_schedule:
  assumes "words = map (schedule M) [0..<k]" and "16 \<le> k"
  shows "expand_loop n words = map (schedule M) [0..<k + n]"
  using assms
proof (induction n arbitrary: words k)
  case (Suc n)
  have "next_word words = schedule M k"
    using Suc.prems by (simp add: next_word_def Let_def sigma_eqs schedule.simps [of M k] add_ac)
  then have "words @ [next_word words] = map (schedule M) [0..<Suc k]" using Suc.prems by simp
  from Suc.IH [OF this] Suc.prems(2) show ?case by simp
qed simp

lemma expand_words_schedule:
  assumes "length M = 64"
  shows "sha256_expand_words M = map (schedule M) [0..<64]"
proof -
  have "map (\<lambda>i. sha256_load_be (drop (i * 4) M)) [0..<16] = map (schedule M) [0..<16]"
    using assms by (intro map_cong refl) (simp add: schedule.simps load_be_eq mult.commute)
  from expand_loop_schedule [OF this] show ?thesis by (simp add: sha256_expand_words_def SHA256_WORD_COUNT_def)
qed

definition vars_list :: "sha256_vars \<Rightarrow> u32 list" where
  "vars_list v = [va v, vb v, vc v, vd v, ve v, vf v, vg v, vh v]"

lemma round_shift: "vars_list (sha256_round k w v) = shift_round k w (vars_list v)"
  by (simp add: vars_list_def sha256_round_def shift_round_def Let_def sigma_eqs Ch_def Maj_def)

lemma rounds_shift:
  "vars_list (fold (\<lambda>i. sha256_round (f i) (g i)) is v) = fold (\<lambda>i. shift_round (f i) (g i)) is (vars_list v)"
  by (induction "is" arbitrary: v) (simp_all add: round_shift)

lemma list8: "length s = 8 \<Longrightarrow> [s ! 0, s ! 1, s ! 2, s ! 3, s ! 4, s ! 5, s ! 6, s ! 7] = s"
  by (rule nth_equalityI) (auto simp: numeral_eq_Suc less_Suc_eq)

lemma compress_hash_block:
  assumes "length M = 64" and "length (sh_state c) = 8"
  shows "sha256_compress c M = c\<lparr>sh_state := hash_block (sh_state c) M\<rparr>"
proof -
  let ?s = "sh_state c"
  let ?v = "fold (\<lambda>i. sha256_round (sha256_constants ! i) (map (schedule M) [0..<64] ! i)) [0..<64]
      \<lparr>va = ?s ! 0, vb = ?s ! 1, vc = ?s ! 2, vd = ?s ! 3, ve = ?s ! 4, vf = ?s ! 5, vg = ?s ! 6, vh = ?s ! 7\<rparr>"
  have "vars_list ?v = fold (\<lambda>i. shift_round (sha256_constants ! i) (map (schedule M) [0..<64] ! i)) [0..<64] ?s"
    unfolding rounds_shift using list8 [OF assms(2)] by (simp add: vars_list_def)
  also have "\<dots> = fold (\<lambda>i. shift_round (sha256_constants ! i) (schedule M i)) [0..<64] ?s"
    by (intro fold_cong refl) simp
  finally have "hash_block ?s M = map2 (+) [?s ! 0, ?s ! 1, ?s ! 2, ?s ! 3, ?s ! 4, ?s ! 5, ?s ! 6, ?s ! 7] (vars_list ?v)"
    unfolding hash_block_def list8 [OF assms(2)] constants_eq [symmetric] by simp
  then show ?thesis
    by (simp add: sha256_compress_def Let_def expand_words_schedule [OF assms(1)] SHA256_WORD_COUNT_def vars_list_def)
qed

lemma length_rounds: "length v = 8 \<Longrightarrow> length (fold (\<lambda>i. shift_round (f i) (g i)) is v) = 8"
  by (induction "is" arbitrary: v) (simp_all add: shift_round_def Let_def)

lemma length_hash_block: "length H = 8 \<Longrightarrow> length (hash_block H M) = 8"
  by (simp add: hash_block_def length_rounds)

lemma length_hash_blocks [simp]: "length (hash_blocks M n) = 8"
  by (induction n) (simp_all add: hash_blocks_def length_hash_block H256_def primes_eq)

lemma hash_blocks_Suc: "hash_blocks M (Suc n) = hash_block (hash_blocks M n) (block_at M n)"
  by (simp add: hash_blocks_def)

lemma hash_blocks_append:
  "64 * n \<le> length M \<Longrightarrow> hash_blocks (M @ X) n = hash_blocks M n"
  by (induction n) (simp_all add: hash_blocks_Suc block_at_def, simp add: hash_blocks_def)

section \<open>Absorbing input\<close>

text \<open>The context after the bytes \<open>m\<close>: full blocks are hashed, the rest waits in the buffer.\<close>

definition rest :: "u8 list \<Rightarrow> u8 list" where
  "rest m = drop (64 * (length m div 64)) m"

definition absorbed :: "crypto_sha256_ctx \<Rightarrow> u8 list \<Rightarrow> bool" where
  "absorbed c m \<longleftrightarrow>
     sh_state c = hash_blocks m (length m div 64) \<and>
     sh_buffer c = rest m @ replicate (64 - length m mod 64) 0 \<and>
     sh_buffer_size c = word_of_nat (length m mod 64)"

lemma length_rest [simp]: "length (rest m) = length m mod 64"
  by (simp add: rest_def minus_mult_div_eq_mod)

lemma div_mod_64_add:
  fixes l :: nat
  shows "l mod 64 + n < 64 \<Longrightarrow> (l + n) div 64 = l div 64" "l mod 64 + n < 64 \<Longrightarrow> (l + n) mod 64 = l mod 64 + n"
    "l + (64 - l mod 64) = 64 * Suc (l div 64)" "l + (128 - l mod 64) = 64 * Suc (Suc (l div 64))"
proof -
  obtain q r where l: "l = 64 * q + r" "r < 64" "l div 64 = q" "l mod 64 = r"
    using that [of "l div 64" "l mod 64"] by simp
  show "l + (64 - l mod 64) = 64 * Suc (l div 64)" "l + (128 - l mod 64) = 64 * Suc (Suc (l div 64))"
    unfolding l(3,4) using l(1,2) by simp_all
  assume n: "l mod 64 + n < 64"
  have e: "l + n = 64 * q + (r + n)" using l(1) by simp
  show "(l + n) div 64 = l div 64" "(l + n) mod 64 = l mod 64 + n"
    unfolding e l(3,4) using n l(4) by simp_all
qed

lemma block_at_rest: "block_at (m @ zs) (length m div 64) = rest m @ take (64 - length m mod 64) zs"
proof -
  have "64 * (length m div 64) \<le> length m" "length m - 64 * (length m div 64) = length m mod 64"
    by (simp_all add: minus_mult_div_eq_mod)
  then show ?thesis by (simp add: block_at_def rest_def)
qed

lemma absorbed_initial: "absorbed sha256_initial []"
  by (simp add: absorbed_def hash_blocks_def rest_def initial_eq) (simp add: sha256_initial_def)

lemma copy_at_zeros:
  assumes "n \<le> length d" and "n \<le> k"
  shows "copy_at (xs @ replicate k 0) (length xs) d n = xs @ take n d @ replicate (k - n) 0"
  using assms by (simp add: copy_at_def kmemcpy_eq)

lemma absorb_step:
  assumes a: "absorbed c m" and z: "0 < siz" "unat siz \<le> length data"
  defines "n \<equiv> min (unat siz) (64 - length m mod 64)"
  shows "\<exists>c'. sha256_copy_input c data siz = (c', drop n data, siz - word_of_nat n) \<and>
    absorbed (if sh_buffer_size c' = word_of_nat SHA256_BLOCK_SIZE then flush_block c' else c') (m @ take n data)"
proof -
  let ?r = "length m mod 64" and ?q = "length m div 64"
  have r: "?r < 64" and lm: "length m = 64 * ?q + ?r" by simp_all
  have un: "unat (word_of_nat n :: u32) = n" "unat (word_of_nat ?r :: u32) = ?r"
    using r unsigned_less [of siz, where 'a = nat] by (simp_all add: n_def unat_of_nat_small)
  have av: "unat ((64 :: u32) - word_of_nat ?r) = 64 - ?r"
    using r un(2) by (simp add: unat_sub word_le_nat_alt)
  have cp: "(if siz < 64 - word_of_nat ?r then siz else 64 - word_of_nat ?r) = word_of_nat n"
    unfolding word_unat_eq_iff un(1) by (auto simp: n_def word_less_nat_alt av)
  have nl: "n \<le> length data" "n \<le> 64 - ?r" "0 < n" using z r by (auto simp: n_def unat_gt_0)
  define c' where "c' = c\<lparr>sh_buffer := rest m @ take n data @ replicate (64 - ?r - n) 0, sh_buffer_size := word_of_nat (?r + n)\<rparr>"
  have ci: "sha256_copy_input c data siz = (c', drop n data, siz - word_of_nat n)"
    using a copy_at_zeros [OF nl(1,2), of "rest m"]
    by (simp add: sha256_copy_input_def Let_def absorbed_def SHA256_BLOCK_SIZE_def cp un c'_def)
  have full: "sh_buffer_size c' = word_of_nat SHA256_BLOCK_SIZE \<longleftrightarrow> ?r + n = 64"
    using nl(2) r by (simp add: c'_def SHA256_BLOCK_SIZE_def word_unat_eq_iff unat_of_nat_small del: of_nat_add)
  have st: "sh_state c' = hash_blocks m ?q" using a by (simp add: c'_def absorbed_def)
  have "absorbed (if ?r + n = 64 then flush_block c' else c') (m @ take n data)"
  proof (cases "?r + n = 64")
    case True
    have "length (m @ take n data) = 64 * ?q + (?r + n)" using nl(1) by simp
    then have ln: "length (m @ take n data) = 64 * Suc ?q" unfolding True by simp
    have "64 - ?r = n" using True by simp
    then have "block_at (m @ take n data) ?q = rest m @ take n data" unfolding block_at_rest by simp
    then have "hash_blocks (m @ take n data) (Suc ?q) = hash_block (hash_blocks m ?q) (rest m @ take n data)"
      by (simp add: hash_blocks_Suc hash_blocks_append)
    moreover have "sh_buffer c' = rest m @ take n data" using True by (simp add: c'_def)
    moreover have "length (rest m @ take n data) = 64" using True nl(1) by simp
    ultimately have "sha256_compress c' (sh_buffer c') = c'\<lparr>sh_state := hash_blocks (m @ take n data) (Suc ?q)\<rparr>"
      using compress_hash_block [of "rest m @ take n data" c'] by (simp add: st)
    then have "flush_block c' = c'\<lparr>sh_state := hash_blocks (m @ take n data) (Suc ?q), sh_buffer_size := 0, sh_buffer := replicate 64 0\<rparr>"
      using \<open>length (rest m @ take n data) = 64\<close> \<open>sh_buffer c' = rest m @ take n data\<close>
      by (simp add: flush_block_def kmemset_eq)
    moreover have "length (m @ take n data) div 64 = Suc ?q" "length (m @ take n data) mod 64 = 0" unfolding ln by simp_all
    moreover from this have "rest (m @ take n data) = []" unfolding rest_def using ln by simp
    ultimately show ?thesis unfolding absorbed_def if_P [OF True] by simp
  next
    case False
    then have lt: "?r + n < 64" using nl(2) r by simp
    have ln: "length (m @ take n data) = length m + n" using nl(1) by simp
    note dm = div_mod_64_add(1,2) [OF lt, folded ln]
    have "64 * ?q \<le> length m" by simp
    then have "rest (m @ take n data) = rest m @ take n data" "hash_blocks (m @ take n data) ?q = hash_blocks m ?q"
      unfolding rest_def dm by (simp_all add: hash_blocks_append)
    then show ?thesis unfolding absorbed_def if_not_P [OF False] dm using st by (simp add: c'_def)
  qed
  then show ?thesis using ci full by simp
qed

lemma update_loop_absorbs:
  "absorbed c m \<Longrightarrow> unat siz \<le> length data \<Longrightarrow>
   absorbed (update_loop c data siz) (m @ take (unat siz) data) \<and> sh_total_size (update_loop c data siz) = sh_total_size c"
proof (induction c data siz arbitrary: m rule: update_loop.induct)
  case (1 c data siz)
  show ?case
  proof (cases "siz > 0")
    case False
    then have "siz = 0" by (simp add: word_gt_0)
    then show ?thesis using "1.prems" by (simp add: update_loop.simps [of c data 0])
  next
    case True
    let ?n = "min (unat siz) (64 - length m mod 64)"
    obtain c' where c': "sha256_copy_input c data siz = (c', drop ?n data, siz - word_of_nat ?n)"
      "absorbed (if sh_buffer_size c' = word_of_nat SHA256_BLOCK_SIZE then flush_block c' else c') (m @ take ?n data)"
      using absorb_step [OF "1.prems"(1) True "1.prems"(2)] by blast
    let ?c = "if sh_buffer_size c' = word_of_nat SHA256_BLOCK_SIZE then flush_block c' else c'"
    have un: "unat (siz - word_of_nat ?n) = unat siz - ?n"
      using unsigned_less [of siz, where 'a = nat] by (simp add: unat_sub word_le_nat_alt unat_of_nat_small)
    have le: "unat (siz - word_of_nat ?n) \<le> length (drop ?n data)"
      unfolding un length_drop by (rule diff_le_mono [OF "1.prems"(2)])
    note "1.IH" [OF True c'(1) [symmetric] refl refl c'(2) le, unfolded un]
    moreover have "take ?n data @ take (unat siz - ?n) (drop ?n data) = take (unat siz) data"
      using take_add [of ?n "unat siz - ?n" data] by simp
    moreover have "sh_total_size ?c = sh_total_size c"
      using c'(1) by (auto simp: sha256_copy_input_def Let_def flush_block_def sha256_compress_def)
    moreover have "update_loop c data siz = update_loop ?c (drop ?n data) (siz - word_of_nat ?n)"
      unfolding update_loop.simps [of c data siz] c'(1) using True by simp
    ultimately show ?thesis by (simp only: append_assoc)
  qed
qed

section \<open>Finishing\<close>

lemma zero_until_zeros:
  assumes "sh_buffer c = xs @ replicate k 0" "unat (sh_buffer_size c) = length xs" "sh_buffer_size c \<le> limit" "unat limit \<le> length xs + k"
  shows "zero_until limit c = c\<lparr>sh_buffer_size := limit\<rparr>"
  using assms
proof (induction limit c arbitrary: xs k rule: zero_until.induct)
  case (1 limit c)
  show ?case
  proof (cases "sh_buffer_size c < limit")
    case False
    then show ?thesis using "1.prems"(3) by (simp add: zero_until.simps [of limit c])
  next
    case True
    then obtain k' where k: "k = Suc k'" using "1.prems"(2,4) by (cases k) (auto simp: word_less_nat_alt)
    have "unat (sh_buffer_size c) < 0xFFFFFFFF"
      using True unsigned_less [of limit, where 'a = nat] by (simp add: word_less_nat_alt)
    then have "sh_buffer_size c \<noteq> 0xFFFFFFFF" by (intro notI) simp
    from unat_word_Suc [OF this] have s: "unat (sh_buffer_size c + 1) = Suc (length xs)" using "1.prems"(2) by simp
    have p: "push_byte 0 c = c\<lparr>sh_buffer_size := sh_buffer_size c + 1\<rparr>"
      using "1.prems"(1,2) k by (simp add: push_byte_def)
    have "zero_until limit (push_byte 0 c) = (push_byte 0 c)\<lparr>sh_buffer_size := limit\<rparr>"
      by (rule "1.IH" [OF True, of "xs @ [0]" k'])
        (use "1.prems" True s k in \<open>simp_all add: p word_le_nat_alt word_less_nat_alt\<close>)
    then show ?thesis using True p by (simp add: zero_until.simps [of limit c])
  qed
qed

lemma byte_of_u64: "k \<le> 56 \<Longrightarrow> ucast (drop_bit k (word_of_nat x :: u64)) = (word_of_nat (x div 2 ^ k) :: u8)"
  unfolding drop_bit_eq_div [symmetric]
  by (rule bit_word_eqI) (auto simp: bit_simps)

lemma byte_of_u32: "ucast (drop_bit k (w :: u32)) = (word_of_nat (unat w div 2 ^ k) :: u8)"
  unfolding drop_bit_eq_div [symmetric]
  by (rule bit_word_eqI) (auto simp: bit_simps)

lemma length_be_bytes [simp]: "length (be_bytes n v) = n"
  by (simp add: be_bytes_def)

lemma append_length_eq:
  assumes "sh_buffer c = xs @ ys" "length xs = 56" "length ys = 8"
  shows "sha256_append_length c (word_of_nat x) = c\<lparr>sh_buffer := xs @ be_bytes 8 x\<rparr>"
proof -
  obtain a b d e f g h i where ys: "ys = [a, b, d, e, f, g, h, i]"
    using assms(3) by (auto simp: numeral_eq_Suc length_Suc_conv)
  have u: "[0..<8] = [0, 1, 2, 3, 4, 5, 6, 7 :: nat]" by (simp add: upt_rec)
  show ?thesis using assms(1,2) byte_of_u64 [of 0 x]
    by (simp add: sha256_append_length_def u ys list_update_append be_bytes_def byte_of_u64 power_mult [of 2 8, symmetric] del: push_bit_of_1)
qed

lemma store_be_eq:
  assumes "length xs = k" "4 \<le> length ys"
  shows "sha256_store_be (xs @ ys) k v = xs @ be_bytes 4 (unat v) @ drop 4 ys"
proof -
  obtain a b c d r where ys: "ys = a # b # c # d # r" using assms(2) by (auto simp: numeral_eq_Suc Suc_le_length_iff)
  have u: "[0..<4] = [0, 1, 2, 3 :: nat]" by (simp add: upt_rec)
  show ?thesis using assms(1) byte_of_u32 [of 0 v]
    by (simp add: sha256_store_be_def ys list_update_append be_bytes_def u byte_of_u32)
qed

lemma store_words_eq:
  "4 * n \<le> length h \<Longrightarrow>
   fold (\<lambda>i h. sha256_store_be h (i * 4) (f i)) [0..<n] h = concat (map (\<lambda>i. be_bytes 4 (unat (f i))) [0..<n]) @ drop (4 * n) h"
proof (induction n)
  case (Suc n)
  have l: "length (concat (map (\<lambda>i. be_bytes 4 (unat (f i))) [0..<n])) = n * 4"
    by (induction n) simp_all
  show ?case using Suc store_be_eq [OF l, of "drop (4 * n) h" "f n"] by simp
qed simp

text \<open>The last block: what is left, zeros up to byte 56, then the bit length.\<close>

lemma last_block:
  fixes x :: nat
  assumes b: "sh_buffer c = xs @ replicate k 0" and l: "length xs \<le> 56" "length xs + k = 64"
    and n: "sh_buffer_size c = word_of_nat (length xs)" and s: "length (sh_state c) = 8"
  defines "d \<equiv> sha256_append_length (zero_until 56 c) (word_of_nat x)"
  shows "sh_state (sha256_compress d (sh_buffer d)) = hash_block (sh_state c) (xs @ replicate (56 - length xs) 0 @ be_bytes 8 x)"
proof -
  have "zero_until 56 c = c\<lparr>sh_buffer_size := 56\<rparr>"
    by (rule zero_until_zeros [OF b]) (use l n in \<open>simp_all add: unat_of_nat_small word_le_nat_alt\<close>)
  moreover have k: "replicate k 0 = replicate (56 - length xs) 0 @ replicate 8 0" using l by (simp add: replicate_add [symmetric])
  ultimately have "d = c\<lparr>sh_buffer_size := 56, sh_buffer := (xs @ replicate (56 - length xs) 0) @ be_bytes 8 x\<rparr>"
    unfolding d_def using append_length_eq [of "zero_until 56 c" "xs @ replicate (56 - length xs) 0" "replicate 8 0" x] b l(1) by simp
  then show ?thesis using compress_hash_block [of "sh_buffer d" d] s l(1) by simp
qed

lemma final_digest:
  assumes a: "absorbed c m" and t: "sh_total_size c = word_of_nat (length m)" and h: "length h = 32"
  shows "crypto_sha256_final (Some c) (Some h) = (OK, Some sha256_cleared, Some (sha256 m))"
proof -
  let ?r = "length m mod 64" and ?q = "length m div 64" and ?L = "be_bytes 8 (8 * length m)"
  have r: "?r < 64" and lm: "length m = 64 * ?q + ?r" by simp_all
  have bl: "sh_total_size c * 8 = word_of_nat (8 * length m)" using t by simp
  have ur: "unat (word_of_nat ?r :: u32) = ?r" "unat (word_of_nat ?r + 1 :: u32) = Suc ?r"
    using r by (simp_all add: unat_of_nat_small unat_word_ariths)
  define c1 where "c1 = push_byte 0x80 c"
  have c1: "sh_state c1 = hash_blocks m ?q" "sh_buffer c1 = (rest m @ [0x80]) @ replicate (63 - ?r) 0"
    "sh_buffer_size c1 = word_of_nat (Suc ?r)" "unat (sh_buffer_size c1) = Suc ?r"
  proof -
    have "replicate (64 - ?r) (0 :: u8) = 0 # replicate (63 - ?r) 0" using r by (simp add: Suc_diff_le [symmetric] flip: replicate_Suc)
    then show "sh_state c1 = hash_blocks m ?q" "sh_buffer c1 = (rest m @ [0x80]) @ replicate (63 - ?r) 0"
      "sh_buffer_size c1 = word_of_nat (Suc ?r)" "unat (sh_buffer_size c1) = Suc ?r"
      using a ur by (simp_all add: c1_def push_byte_def absorbed_def list_update_append add.commute)
  qed
  define c2 where "c2 = (if sh_buffer_size c1 > 56 then flush_block (zero_until (word_of_nat SHA256_BLOCK_SIZE) c1) else c1)"
  define d where "d = sha256_append_length (zero_until 56 c2) (word_of_nat (8 * length m))"
  have gt: "sh_buffer_size c1 > 56 \<longleftrightarrow> 56 \<le> ?r" using c1(4) by (auto simp: word_less_nat_alt)
  have hm: "hash_blocks (m @ zs) ?q = hash_blocks m ?q" for zs by (rule hash_blocks_append) simp
  have st: "sh_state (sha256_compress d (sh_buffer d)) = hash_blocks (pad m) (length (pad m) div 64)"
  proof (cases "56 \<le> ?r")
    case False
    then have z: "(119 - ?r) mod 64 = 55 - ?r" by (simp add: le_mod_geq)
    have p1: "pad m = m @ (0x80 # replicate (55 - ?r) 0 @ ?L)" unfolding pad_def z by simp
    have "length (pad m) = length m + (64 - ?r)" unfolding p1 using False by simp
    then have "length (pad m) = 64 * Suc ?q" using div_mod_64_add(3) [of "length m"] by simp
    note p = p1 this [THEN arg_cong [of _ _ "\<lambda>n. n div 64"], simplified]
    have "block_at (pad m) ?q = (rest m @ [0x80]) @ replicate (56 - length (rest m @ [0x80])) 0 @ ?L"
      unfolding p(1) block_at_rest using False by simp
    then show ?thesis
      using last_block [of c1 "rest m @ [0x80]" "63 - ?r" "8 * length m"] c1 False gt
      by (simp add: d_def c2_def p(2) hash_blocks_Suc) (simp add: p(1) hm)
  next
    case True
    then have z: "(119 - ?r) mod 64 = (63 - ?r) + 56" using r by simp
    have p1: "pad m = m @ (0x80 # replicate (63 - ?r) 0) @ (replicate 56 0 @ ?L)" unfolding pad_def z replicate_add by simp
    have "length (pad m) = length m + (128 - ?r)" unfolding p1 using r by simp
    then have "length (pad m) = 64 * Suc (Suc ?q)" using div_mod_64_add(4) [of "length m"] by simp
    note p = p1 this [THEN arg_cong [of _ _ "\<lambda>n. n div 64"], simplified]
    let ?B = "rest m @ 0x80 # replicate (63 - ?r) 0"
    have B: "length ?B = 64" "sh_buffer c1 = ?B" using r c1(2) by simp_all
    have zu: "zero_until (word_of_nat SHA256_BLOCK_SIZE) c1 = c1\<lparr>sh_buffer_size := 64\<rparr>"
      using zero_until_zeros [OF c1(2), of 64] c1(4) r by (simp add: SHA256_BLOCK_SIZE_def word_le_nat_alt)
    have c2: "c2 = c1\<lparr>sh_state := hash_block (hash_blocks m ?q) ?B, sh_buffer_size := 0, sh_buffer := replicate 64 0\<rparr>"
      using True gt B compress_hash_block [of ?B "c1\<lparr>sh_buffer_size := 64\<rparr>"] c1(1)
      by (simp add: c2_def zu flush_block_def kmemset_eq)
    have "64 - ?r = Suc (63 - ?r)" using r by simp
    then have "block_at (pad m) ?q = ?B" unfolding p(1) block_at_rest by simp
    moreover have "block_at (pad m) (Suc ?q) = replicate 56 0 @ ?L"
    proof -
      have "length (m @ 0x80 # replicate (63 - ?r) 0) = length m + (64 - ?r)" using r by simp
      then have "length (m @ 0x80 # replicate (63 - ?r) 0) = 64 * Suc ?q" using div_mod_64_add(3) [of "length m"] by simp
      then show ?thesis unfolding p(1) block_at_def by (simp add: drop_append [of "64 * Suc ?q" "m @ 0x80 # replicate (63 - ?r) 0", simplified])
    qed
    ultimately show ?thesis
      using last_block [of c2 "[]" 64 "8 * length m"]
      by (simp add: c2 d_def p(2) hash_blocks_Suc length_hash_block) (simp add: p(1) hm)
  qed
  let ?s = "hash_blocks (pad m) (length (pad m) div 64)"
  have "map (\<lambda>i. be_bytes 4 (unat (?s ! i))) [0..<8] = map (be_bytes 4 \<circ> unat) ?s"
    by (intro nth_equalityI) simp_all
  then show ?thesis
    using store_words_eq [of 8 h "\<lambda>i. ?s ! i"] h unfolding crypto_sha256_final_def
    by (simp add: Let_def bl c1_def [symmetric] c2_def [symmetric] d_def [symmetric] st sha256_def del: of_nat_mult)
qed

section \<open>The interface\<close>

lemma update_absorbs:
  assumes "absorbed c m" "sh_total_size c = word_of_nat (length m)" "length d < 2 ^ 32"
  obtains c' where "crypto_sha256_update (Some c) (Some d) (word_of_nat (length d)) = (OK, Some c')"
    "absorbed c' (m @ d)" "sh_total_size c' = word_of_nat (length (m @ d))"
proof -
  have u: "unat (word_of_nat (length d) :: u32) = length d" using assms(3) by (rule unat_of_nat_small)
  let ?c = "update_loop c d (word_of_nat (length d))"
  have "absorbed ?c (m @ d)" "sh_total_size ?c = sh_total_size c"
    using update_loop_absorbs [OF assms(1), of "word_of_nat (length d)" d] u by simp_all
  moreover have "ucast (word_of_nat (length d) :: u32) = (word_of_nat (length d) :: u64)"
    using u by (metis of_nat_unat)
  ultimately show ?thesis using assms(2)
    by (intro that [of "?c\<lparr>sh_total_size := sh_total_size ?c + ucast (word_of_nat (length d) :: u32)\<rparr>"])
      (simp_all add: crypto_sha256_update_def Let_def absorbed_def)
qed

definition update_all :: "u8 list list \<Rightarrow> crypto_sha256_ctx option \<Rightarrow> crypto_sha256_ctx option" where
  "update_all chunks ctx = fold (\<lambda>d c. snd (crypto_sha256_update c (Some d) (word_of_nat (length d)))) chunks ctx"

lemma update_all_absorbs:
  "absorbed c m \<Longrightarrow> sh_total_size c = word_of_nat (length m) \<Longrightarrow> \<forall>d \<in> set chunks. length d < 2 ^ 32 \<Longrightarrow>
   \<exists>c'. update_all chunks (Some c) = Some c' \<and> absorbed c' (m @ concat chunks) \<and> sh_total_size c' = word_of_nat (length (m @ concat chunks))"
proof (induction chunks arbitrary: c m)
  case Nil
  then show ?case by (simp add: update_all_def)
next
  case (Cons d ds)
  obtain c' where c': "crypto_sha256_update (Some c) (Some d) (word_of_nat (length d)) = (OK, Some c')"
    "absorbed c' (m @ d)" "sh_total_size c' = word_of_nat (length (m @ d))"
    using update_absorbs [OF Cons.prems(1,2), of d] Cons.prems(3) by auto
  have "update_all (d # ds) (Some c) = update_all ds (Some c')" by (simp add: update_all_def c'(1))
  then show ?case using Cons.IH [OF c'(2,3)] Cons.prems(3) by simp
qed

lemma one_shot_digest:
  assumes "length d < 2 ^ 32" "length hash = 32"
  shows "crypto_sha256 (Some d) (word_of_nat (length d)) (Some hash) = (OK, Some (sha256 d))"
proof -
  have z: "sh_total_size sha256_initial = word_of_nat (length [])" by (simp add: sha256_initial_def)
  obtain c' where c': "crypto_sha256_update (Some sha256_initial) (Some d) (word_of_nat (length d)) = (OK, Some c')"
    "absorbed c' d" "sh_total_size c' = word_of_nat (length d)"
    using update_absorbs [OF absorbed_initial z assms(1)] by auto
  show ?thesis using final_digest [OF c'(2,3) assms(2)] c'(1)
    by (simp add: crypto_sha256_def crypto_sha256_init_def)
qed

lemma xor_eq_0: "(a :: u8) XOR b = 0 \<longleftrightarrow> a = b"
  by (metis xor.left_neutral xor.assoc xor_self_eq)

lemma crypto_equal_iff: "crypto_equal (Some f) (Some s) n \<longleftrightarrow> (\<forall>i < n. f ! i = s ! i)"
proof -
  have "fold (\<lambda>i d. d OR (f ! i XOR s ! i)) is d = 0 \<longleftrightarrow> d = 0 \<and> (\<forall>i \<in> set is. f ! i = s ! i)" for "is" d
    by (induction "is" arbitrary: d) (auto simp: or_eq_0_iff xor_eq_0)
  then show ?thesis by (auto simp: crypto_equal_def)
qed

lemma length_sha256 [simp]: "length (sha256 m) = 32"
proof -
  have "length (concat (map (be_bytes 4 \<circ> unat) s)) = 4 * length s" for s by (induction s) simp_all
  from this [of "hash_blocks (pad m) (length (pad m) div 64)"] show ?thesis by (simp add: sha256_def)
qed

section \<open>Properties\<close>

text \<open>
  C5. However a message is cut into chunks, initialising a context, feeding the chunks in
  order and finishing yields the FIPS 180-4 digest of the whole message, and wipes the context.
\<close>

theorem sha256_streaming:
  assumes "\<forall>d \<in> set chunks. length d < 2 ^ 32" and "length hash = CRYPTO_SHA256_SIZE"
  shows "crypto_sha256_final (update_all chunks (snd (crypto_sha256_init (Some ctx)))) (Some hash) =
    (OK, Some sha256_cleared, Some (sha256 (concat chunks)))"
proof -
  have z: "sh_total_size sha256_initial = word_of_nat (length [])" by (simp add: sha256_initial_def)
  obtain c' where "update_all chunks (Some sha256_initial) = Some c'" "absorbed c' (concat chunks)"
    "sh_total_size c' = word_of_nat (length (concat chunks))"
    using update_all_absorbs [OF absorbed_initial z assms(1)] by auto
  then show ?thesis using final_digest assms(2) by (simp add: crypto_sha256_init_def CRYPTO_SHA256_SIZE_def)
qed

text \<open>
  C37. Checking a digest, as the update and package code does, is exact: the one-shot digest
  always succeeds, and comparing its result with an expected value of 32 bytes succeeds if and
  only if the expected value is the FIPS 180-4 digest of the data.
\<close>

theorem sha256_check_exact:
  assumes "length d < 2 ^ 32" and "length hash = CRYPTO_SHA256_SIZE" and "length expected = CRYPTO_SHA256_SIZE"
    and "crypto_sha256 (Some d) (word_of_nat (length d)) (Some hash) = (result, out)"
  shows "result = OK \<and> (crypto_equal out (Some expected) CRYPTO_SHA256_SIZE \<longleftrightarrow> expected = sha256 d)"
proof -
  have "result = OK" "out = Some (sha256 d)"
    using one_shot_digest [of d hash] assms by (simp_all add: CRYPTO_SHA256_SIZE_def)
  moreover have "(\<forall>i < 32. sha256 d ! i = expected ! i) \<longleftrightarrow> expected = sha256 d"
    using assms(3) by (auto simp: CRYPTO_SHA256_SIZE_def intro!: nth_equalityI)
  ultimately show ?thesis by (simp add: crypto_equal_iff CRYPTO_SHA256_SIZE_def)
qed

lemma abc_vector: "crypto_test_sha256 (replicate 32 0) = OK"
  by code_simp

text \<open>
  C38. The SHA-256 self test of the kernel passes, whatever its result buffer held before: the
  code computes the published digest of the message abc.
\<close>

theorem crypto_test_sha256_passes:
  assumes "length actual = CRYPTO_SHA256_SIZE"
  shows "crypto_test_sha256 actual = OK"
proof -
  have "crypto_sha256 (Some [0x61, 0x62, 0x63]) 3 (Some actual) = crypto_sha256 (Some [0x61, 0x62, 0x63]) 3 (Some (replicate 32 0))"
    using one_shot_digest [of "[0x61, 0x62, 0x63]" actual] one_shot_digest [of "[0x61, 0x62, 0x63]" "replicate 32 0"] assms
    by (simp add: CRYPTO_SHA256_SIZE_def)
  then show ?thesis using abc_vector by (simp only: crypto_test_sha256_def)
qed

section \<open>Witnesses\<close>

theorem sha256_streaming_witness:
  "crypto_sha256_final (update_all [[0x61], [0x62, 0x63]] (snd (crypto_sha256_init (Some sha256_cleared)))) (Some (replicate 32 0)) =
    (OK, Some sha256_cleared, Some (sha256 [0x61, 0x62, 0x63]))"
  using sha256_streaming [of "[[0x61], [0x62, 0x63]]" "replicate 32 0" sha256_cleared] by (simp add: CRYPTO_SHA256_SIZE_def)

theorem sha256_check_exact_witness:
  "sha256 [0x61, 0x62, 0x63] = sha256_expected \<and>
   crypto_equal (snd (crypto_sha256 (Some [0x61, 0x62, 0x63]) 3 (Some (replicate 32 0)))) (Some sha256_expected) CRYPTO_SHA256_SIZE \<and>
   \<not> crypto_equal (snd (crypto_sha256 (Some [0x61, 0x62, 0x63]) 3 (Some (replicate 32 0)))) (Some (replicate 32 0)) CRYPTO_SHA256_SIZE"
proof -
  obtain r h where rh: "crypto_sha256 (Some [0x61, 0x62, 0x63]) 3 (Some (replicate 32 0)) = (r, h)" by (rule prod.exhaust)
  have c: "crypto_equal h (Some x) CRYPTO_SHA256_SIZE \<longleftrightarrow> x = sha256 [0x61, 0x62, 0x63]" if "length x = 32" for x
    using sha256_check_exact [of "[0x61, 0x62, 0x63]" "replicate 32 0" x r h] that rh by (simp add: CRYPTO_SHA256_SIZE_def)
  have "crypto_equal h (Some sha256_expected) CRYPTO_SHA256_SIZE"
    using abc_vector rh by (simp add: crypto_test_sha256_def split: if_splits)
  then have e: "sha256_expected = sha256 [0x61, 0x62, 0x63]" using c [of sha256_expected] by (simp add: sha256_expected_def)
  have "replicate 32 0 ! 0 \<noteq> sha256_expected ! 0" by (simp add: sha256_expected_def)
  then have "replicate 32 0 \<noteq> sha256 [0x61, 0x62, 0x63]" unfolding e [symmetric] by metis
  then show ?thesis using c [of sha256_expected, OF e [THEN arg_cong [of _ _ length], simplified]] c [of "replicate 32 0"] rh e by simp
qed

theorem crypto_test_sha256_passes_witness: "crypto_test_sha256 (replicate 32 7) = OK"
  using crypto_test_sha256_passes [of "replicate 32 7"] by (simp add: CRYPTO_SHA256_SIZE_def)

end
