(* ===== verification/Clock.thy ===== *)
theory Clock
  imports Prelude
begin

text \<open>
  The UTC and monotonic clock of \<^verbatim>\<open>core/clock.c\<close>: 64-bit division by repeated subtraction, the
  64-bit extension of the timer's 32-bit tick counter, the conversion of a calendar date to Unix
  seconds, and the clock's state. The fields of a date are 16 and 8 bits wide in the code, which
  only compares and widens them; they are naturals here. What the hardware returns, the tick counter, its frequency and
  the date of the real-time clock, is an argument of the operations that read it.
\<close>

unbundle bit_operations_syntax

section \<open>Constants and data\<close>

definition CLOCK_UNIX_EPOCH_YEAR :: nat where "CLOCK_UNIX_EPOCH_YEAR = 1970"
definition CLOCK_MONTH_COUNT :: nat where "CLOCK_MONTH_COUNT = 12"
definition CLOCK_SECONDS_PER_MINUTE :: nat where "CLOCK_SECONDS_PER_MINUTE = 60"
definition CLOCK_MINUTES_PER_HOUR :: nat where "CLOCK_MINUTES_PER_HOUR = 60"
definition CLOCK_HOURS_PER_DAY :: nat where "CLOCK_HOURS_PER_DAY = 24"
definition CLOCK_SECONDS_PER_HOUR :: nat where "CLOCK_SECONDS_PER_HOUR = CLOCK_SECONDS_PER_MINUTE * CLOCK_MINUTES_PER_HOUR"
definition CLOCK_SECONDS_PER_DAY :: nat where "CLOCK_SECONDS_PER_DAY = CLOCK_SECONDS_PER_HOUR * CLOCK_HOURS_PER_DAY"

datatype clock_source = CLOCK_SOURCE_NONE | CLOCK_SOURCE_RTC

record clock_status =
  ck_initialized :: bool
  ck_monotonic_available :: bool
  ck_utc_available :: bool
  ck_source :: clock_source
  ck_frequency :: u32
  ck_anchor_monotonic_ticks :: "64 word"
  ck_anchor_unix_seconds :: "64 word"
  ck_monotonic_wraps :: "64 word"
  ck_reads :: u32
  ck_last_error :: status

definition clock_status_zero :: clock_status where
  "clock_status_zero = \<lparr>ck_initialized = False, ck_monotonic_available = False, ck_utc_available = False,
     ck_source = CLOCK_SOURCE_NONE, ck_frequency = 0, ck_anchor_monotonic_ticks = 0, ck_anchor_unix_seconds = 0,
     ck_monotonic_wraps = 0, ck_reads = 0, ck_last_error = OK\<rparr>"

record clock_state =
  cl_status :: clock_status
  cl_last_raw_tick :: u32
  cl_tick_high :: "64 word"

record rtc_datetime =
  dt_year :: nat
  dt_month :: nat
  dt_day :: nat
  dt_hour :: nat
  dt_minute :: nat
  dt_second :: nat

section \<open>Arithmetic\<close>

fun divide_loop :: "nat \<Rightarrow> u32 \<Rightarrow> u32 \<Rightarrow> u32 \<Rightarrow> u32 \<Rightarrow> u32 \<times> u32" where
  "divide_loop 0 word divisor quot remainder = (quot, remainder)"
| "divide_loop (Suc n) word divisor quot remainder =
     (let carry = drop_bit 31 remainder;
          shifted = push_bit 1 remainder OR (drop_bit n word AND 1)
      in if carry \<noteq> 0 \<or> shifted \<ge> divisor
         then divide_loop n word divisor (quot OR push_bit n 1) (shifted - divisor)
         else divide_loop n word divisor quot shifted)"

definition clock_divide_word :: "u32 \<Rightarrow> u32 \<Rightarrow> u32 \<Rightarrow> u32 \<times> u32" where
  "clock_divide_word word divisor remainder = divide_loop 32 word divisor 0 remainder"

definition clock_divide_ticks :: "64 word \<Rightarrow> u32 \<Rightarrow> 64 word" where
  "clock_divide_ticks dividend divisor =
     (if divisor = 0 then 0
      else
        let dividend_high = ucast (drop_bit 32 dividend);
            dividend_low = ucast dividend;
            (quotient_high, remainder) = clock_divide_word dividend_high divisor 0;
            (quotient_low, remainder) = clock_divide_word dividend_low divisor remainder
        in push_bit 32 (ucast quotient_high) OR ucast quotient_low)"

definition clock_extend_tick :: "u32 \<Rightarrow> u32 \<Rightarrow> 64 word \<Rightarrow> 64 word \<times> u32 \<times> 64 word" where
  "clock_extend_tick raw_tick last_raw_tick tick_high =
     (let tick_high = (if raw_tick < last_raw_tick then tick_high + 1 else tick_high)
      in (push_bit 32 tick_high OR ucast raw_tick, raw_tick, tick_high))"

section \<open>Calendar\<close>

definition clock_is_leap_year :: "nat \<Rightarrow> bool" where
  "clock_is_leap_year year \<longleftrightarrow> year mod 4 = 0 \<and> (year mod 100 \<noteq> 0 \<or> year mod 400 = 0)"

definition clock_days_in_month :: "nat \<Rightarrow> nat \<Rightarrow> nat" where
  "clock_days_in_month year month =
     (if month < 1 \<or> month > CLOCK_MONTH_COUNT then 0
      else if month = 2 \<and> clock_is_leap_year year then 29
      else [31, 28, 31, 30, 31, 30, 31, 31, 30, 31, 30, 31] ! (month - 1))"

definition clock_datetime_to_unix :: "rtc_datetime option \<Rightarrow> bool \<Rightarrow> status \<times> 64 word option" where
  "clock_datetime_to_unix datetime has_out =
     (case datetime of
        None \<Rightarrow> (ERR_NULL, None)
      | Some d \<Rightarrow>
          if \<not> has_out then (ERR_NULL, None)
          else if dt_year d < CLOCK_UNIX_EPOCH_YEAR \<or> dt_month d < 1 \<or> dt_month d > CLOCK_MONTH_COUNT \<or>
                  dt_hour d \<ge> CLOCK_HOURS_PER_DAY \<or> dt_minute d \<ge> CLOCK_MINUTES_PER_HOUR \<or>
                  dt_second d \<ge> CLOCK_SECONDS_PER_MINUTE \<or> dt_day d < 1 \<or>
                  dt_day d > clock_days_in_month (dt_year d) (dt_month d)
          then (ERR_INVALID, None)
          else
            let days = fold (\<lambda>year days. days + (if clock_is_leap_year year then 366 else 365)) [CLOCK_UNIX_EPOCH_YEAR..<dt_year d] (0 :: 64 word);
                days = fold (\<lambda>month days. days + word_of_nat (clock_days_in_month (dt_year d) month)) [1..<dt_month d] days;
                days = days + word_of_nat (dt_day d - 1)
            in (OK, Some (days * word_of_nat CLOCK_SECONDS_PER_DAY +
                          word_of_nat (dt_hour d) * word_of_nat CLOCK_SECONDS_PER_HOUR +
                          word_of_nat (dt_minute d) * word_of_nat CLOCK_SECONDS_PER_MINUTE +
                          word_of_nat (dt_second d))))"

section \<open>The clock\<close>

definition clock_update_monotonic :: "u32 \<Rightarrow> bool \<Rightarrow> clock_state \<Rightarrow> (status \<times> 64 word option) \<times> clock_state" where
  "clock_update_monotonic raw_tick has_out st =
     (if \<not> has_out then ((ERR_NULL, None), st)
      else if \<not> ck_initialized (cl_status st) \<or> \<not> ck_monotonic_available (cl_status st) then ((ERR_STATE, None), st)
      else
        let (ticks, last, high) = clock_extend_tick raw_tick (cl_last_raw_tick st) (cl_tick_high st)
        in ((OK, Some ticks), st\<lparr>cl_last_raw_tick := last, cl_tick_high := high,
              cl_status := (cl_status st)\<lparr>ck_monotonic_wraps := high\<rparr>\<rparr>))"

text \<open>The timer is read twice, before and after the real-time clock.\<close>

definition clock_init :: "u32 \<Rightarrow> u32 \<Rightarrow> status \<times> rtc_datetime \<Rightarrow> u32 \<Rightarrow> clock_state \<Rightarrow> status \<times> clock_state" where
  "clock_init frequency tick1 rtc tick2 st =
     (let cs = clock_status_zero\<lparr>ck_initialized := True, ck_frequency := frequency\<rparr> in
      if frequency = 0 then (ERR_STATE, st\<lparr>cl_status := cs\<lparr>ck_last_error := ERR_STATE\<rparr>\<rparr>)
      else
        let cs = cs\<lparr>ck_monotonic_available := True, ck_anchor_monotonic_ticks := ucast tick1\<rparr>;
            st = st\<lparr>cl_last_raw_tick := tick1, cl_tick_high := 0\<rparr>;
            (result, datetime) = rtc;
            (result, seconds) = (if result = OK then clock_datetime_to_unix (Some datetime) True else (result, None))
        in case (result, seconds) of
             (OK, Some unix_seconds) \<Rightarrow>
               (OK, st\<lparr>cl_last_raw_tick := tick2, cl_tick_high := 0,
                      cl_status := cs\<lparr>ck_source := CLOCK_SOURCE_RTC, ck_utc_available := True,
                        ck_anchor_monotonic_ticks := ucast tick2, ck_anchor_unix_seconds := unix_seconds,
                        ck_last_error := OK\<rparr>\<rparr>)
           | _ \<Rightarrow> (ERR_UNAVAILABLE, st\<lparr>cl_status := cs\<lparr>ck_source := CLOCK_SOURCE_NONE, ck_utc_available := False,
                        ck_last_error := result\<rparr>\<rparr>))"

definition clock_get_utc :: "u32 \<Rightarrow> bool \<Rightarrow> clock_state \<Rightarrow> (status \<times> 64 word option) \<times> clock_state" where
  "clock_get_utc raw_tick has_out st =
     (if \<not> has_out then ((ERR_NULL, None), st)
      else if \<not> ck_initialized (cl_status st) \<or> \<not> ck_utc_available (cl_status st) then ((ERR_UNAVAILABLE, None), st)
      else
        case clock_update_monotonic raw_tick True st of
          ((OK, Some now_ticks), st) \<Rightarrow>
            let elapsed_ticks = now_ticks - ck_anchor_monotonic_ticks (cl_status st);
                elapsed_seconds = clock_divide_ticks elapsed_ticks (ck_frequency (cl_status st))
            in ((OK, Some (ck_anchor_unix_seconds (cl_status st) + elapsed_seconds)),
                st\<lparr>cl_status := (cl_status st)\<lparr>ck_reads := ck_reads (cl_status st) + 1\<rparr>\<rparr>)
        | (_, st) \<Rightarrow> ((ERR_STATE, None), st))"

definition clock_get_monotonic_ticks :: "u32 \<Rightarrow> bool \<Rightarrow> clock_state \<Rightarrow> (status \<times> 64 word option) \<times> clock_state" where
  "clock_get_monotonic_ticks raw_tick has_out st = clock_update_monotonic raw_tick has_out st"

definition clock_get_status :: "bool \<Rightarrow> clock_state \<Rightarrow> status \<times> clock_status option" where
  "clock_get_status has_out st = (if has_out then (OK, Some (cl_status st)) else (ERR_NULL, None))"

text \<open>The enumeration has no value beyond \<open>CLOCK_SOURCE_RTC\<close>, so that test of the source cannot fail.\<close>

definition clock_validate_state :: "u32 \<Rightarrow> clock_state \<Rightarrow> status \<times> clock_state" where
  "clock_validate_state raw_tick st =
     (let cs = cl_status st in
      if \<not> ck_initialized cs \<or> ck_frequency cs = 0 \<or> \<not> ck_monotonic_available cs \<or>
         (ck_utc_available cs \<and> (ck_source cs \<noteq> CLOCK_SOURCE_RTC \<or> ck_last_error cs \<noteq> OK))
      then (ERR_STATE, st)
      else
        case clock_update_monotonic raw_tick True st of
          ((OK, Some now_ticks), st) \<Rightarrow>
            if now_ticks < ck_anchor_monotonic_ticks (cl_status st) then (ERR_STATE, st)
            else if \<not> ck_utc_available (cl_status st) \<and> ck_source (cl_status st) \<noteq> CLOCK_SOURCE_NONE then (ERR_STATE, st)
            else (OK, st)
        | (_, st) \<Rightarrow> (ERR_STATE, st))"

definition clock_source_name :: "clock_source \<Rightarrow> string" where
  "clock_source_name source = (if source = CLOCK_SOURCE_RTC then ''RTC'' else ''NONE'')"

record clock_self_test_result =
  ct_epoch_conversion :: bool
  ct_leap_year_conversion :: bool
  ct_invalid_date_rejected :: bool
  ct_monotonic_rollover :: bool
  ct_invariants :: bool
  ct_passed :: nat
  ct_failed :: nat

definition clock_self_test :: "u32 \<Rightarrow> bool \<Rightarrow> clock_state \<Rightarrow> (status \<times> clock_self_test_result option) \<times> clock_state" where
  "clock_self_test raw_tick has_out st =
     (if \<not> has_out then ((ERR_NULL, None), st)
      else
        let date = \<lparr>dt_year = 1970, dt_month = 1, dt_day = 1, dt_hour = 0, dt_minute = 0, dt_second = 0\<rparr>;
            epoch = clock_datetime_to_unix (Some date) True = (OK, Some 0);
            leap = clock_datetime_to_unix (Some (date\<lparr>dt_year := 2000, dt_month := 2, dt_day := 29\<rparr>)) True = (OK, Some 951782400);
            invalid = fst (clock_datetime_to_unix (Some (date\<lparr>dt_year := 2001, dt_month := 2, dt_day := 29\<rparr>)) True) \<noteq> OK;
            (rollover_ticks, _, tick_high) = clock_extend_tick 1 0xFFFFFFFE 0;
            rollover = rollover_ticks = (push_bit 32 1 OR 1) \<and> tick_high = 1;
            (validated, st) = clock_validate_state raw_tick st;
            invariants = validated = OK;
            passed = of_bool epoch + of_bool leap + of_bool invalid + of_bool rollover + of_bool invariants;
            result = \<lparr>ct_epoch_conversion = epoch, ct_leap_year_conversion = leap, ct_invalid_date_rejected = invalid,
                      ct_monotonic_rollover = rollover, ct_invariants = invariants, ct_passed = passed, ct_failed = 5 - passed\<rparr>
        in ((if ct_failed result \<noteq> 0 then ERR_STATE else OK, Some result), st))"

end
