(* ===== verification/Clock_Correct.thy ===== *)
theory Clock_Correct
  imports Clock
begin

text \<open>
  The clock is right: its division is exact, its conversion of dates counts the seconds of the
  Gregorian calendar, and a clock that is read often enough never loses or gains a second.
\<close>

unbundle bit_operations_syntax

section \<open>Division\<close>

lemma unat_drop_bit: "unat (drop_bit k (w :: 'a :: len word)) = unat w div 2 ^ k"
proof -
  have "unat (drop_bit k w) = drop_bit k (unat w)" by (simp add: unsigned_drop_bit_eq take_bit_nat_eq_self)
  then show ?thesis by (simp only: drop_bit_eq_div)
qed

lemma unat_or_shift:
  fixes a b :: u32
  assumes "unat a < 2 ^ k" and "unat b = 2 ^ k * c"
  shows "unat (a OR b) = unat a + unat b"
  using or_push_bit_eq_add [OF assms(1), of c] assms(2) by (simp add: unsigned_or_eq push_bit_eq_mult mult.commute)

lemma unat_shifted:
  fixes r w :: u32
  assumes "k < 32"
  shows "unat (push_bit 1 r OR (drop_bit k w AND 1)) = (2 * unat r + unat w div 2 ^ k mod 2) mod 2 ^ 32"
proof -
  have b: "unat (drop_bit k w AND 1) = unat w div 2 ^ k mod 2"
    using unat_drop_bit [of k w] by (simp add: unsigned_and_eq and_one_eq unat_mod_distrib)
  have p: "unat (push_bit 1 r) = 2 ^ 1 * (unat r mod 2 ^ 31)"
    by (simp add: push_bit_eq_mult unat_word_ariths mult_mod_right mult.commute)
  have "unat ((drop_bit k w AND 1) OR push_bit 1 r) = unat (drop_bit k w AND 1) + unat (push_bit 1 r)"
    by (rule unat_or_shift [OF _ p]) (simp add: b)
  moreover have "(2 * unat r + unat w div 2 ^ k mod 2) mod 2 ^ 32 = 2 * (unat r mod 2 ^ 31) + unat w div 2 ^ k mod 2"
  proof -
    have "(2 * unat r + unat w div 2 ^ k mod 2) mod (2 * 2 ^ 31) = 2 * ((2 * unat r + unat w div 2 ^ k mod 2) div 2 mod 2 ^ 31) + (2 * unat r + unat w div 2 ^ k mod 2) mod 2"
      by (rule mod_mult2_eq)
    then show ?thesis by simp
  qed
  ultimately show ?thesis using b p by (simp add: or.commute)
qed

lemma carry_iff: "drop_bit 31 (r :: u32) \<noteq> 0 \<longleftrightarrow> 2 ^ 31 \<le> unat r"
proof -
  note unat_drop_bit [of 31 r]
  then have "drop_bit 31 r = 0 \<longleftrightarrow> unat r div 2 ^ 31 = 0" by (metis unat_0 word_unat_eq_iff)
  then show ?thesis by (simp add: div_eq_0_iff not_less)
qed

lemma divide_loop_correct:
  assumes "unat r < unat d" "k \<le> 32" "unat q = 2 ^ k * c" "unat q + 2 ^ k \<le> 2 ^ 32"
    and "divide_loop k w d q r = (q', r')"
  shows "unat q' = unat q + (unat r * 2 ^ k + unat w mod 2 ^ k) div unat d \<and> unat r' = (unat r * 2 ^ k + unat w mod 2 ^ k) mod unat d"
  using assms
proof (induction k arbitrary: q r c)
  case 0
  then show ?case by simp
next
  case (Suc k)
  define b where "b = unat w div 2 ^ k mod 2"
  define s where "s = 2 * unat r + b"
  define sh where "sh = push_bit 1 r OR (drop_bit k w AND 1)"
  have b1: "b \<le> 1" by (simp add: b_def)
  have d32: "unat d < 2 ^ 32" using unsigned_less [of d, where 'a = nat] by simp
  have us: "unat sh = s mod 2 ^ 32" using unat_shifted [of k r w] Suc.prems(2) by (simp add: s_def sh_def b_def)
  have s2: "s < 2 * unat d" "s < 2 ^ 33" using Suc.prems(1) b1 d32 by (simp_all add: s_def)
  have n: "unat r * 2 ^ Suc k + unat w mod 2 ^ Suc k = s * 2 ^ k + unat w mod 2 ^ k"
    using mod_mult2_eq [of "unat w" "2 ^ k" 2] by (simp add: s_def b_def algebra_simps)
  have cond: "drop_bit 31 r \<noteq> 0 \<or> sh \<ge> d \<longleftrightarrow> unat d \<le> s"
  proof (cases "s < 2 ^ 32")
    case True
    then have "\<not> 2 ^ 31 \<le> unat r" by (simp add: s_def)
    then show ?thesis using True us carry_iff [of r] by (simp add: word_le_nat_alt)
  next
    case False
    then have "2 ^ 31 \<le> unat r" using b1 by (simp add: s_def)
    then show ?thesis using False d32 carry_iff [of r] by simp
  qed
  have step: "divide_loop k w d (if unat d \<le> s then q OR push_bit k 1 else q) (if unat d \<le> s then sh - d else sh) = (q', r')"
    using Suc.prems(5) cond by (auto simp: Let_def sh_def split: if_splits)
  show ?case
  proof (cases "unat d \<le> s")
    case True
    have "unat (sh - d) = s - unat d"
    proof (cases "s < 2 ^ 32")
      case sl: True
      then show ?thesis using True us by (simp add: unat_sub word_le_nat_alt)
    next
      case False
      then have e: "unat sh = s - 2 ^ 32" using us s2(2) by (simp add: le_mod_geq)
      then have "unat sh < unat d" using s2(1) d32 False by simp
      then have "unat (sh - d) = 2 ^ 32 + unat sh - unat d" by (simp add: unat_sub_if_size word_size)
      then show ?thesis using e False by simp
    qed
    then have r: "unat (sh - d) = s - unat d" "unat (sh - d) < unat d" using s2(1) True by simp_all
    have pk: "unat (push_bit k (1 :: u32)) = 2 ^ k"
      using unat_of_nat_small [OF power_strict_increasing [of k 32 "2 :: nat"]] Suc.prems(2) by (simp add: push_bit_eq_mult)
    have "unat (push_bit k 1 OR q) = unat (push_bit k (1 :: u32)) + unat q"
      by (rule unat_or_shift [OF _ Suc.prems(3)]) (simp only: pk, simp)
    then have q: "unat (q OR push_bit k 1) = unat q + 2 ^ k" using pk by (simp add: or.commute)
    have ih: "unat q' = unat (q OR push_bit k 1) + (unat (sh - d) * 2 ^ k + unat w mod 2 ^ k) div unat d \<and>
        unat r' = (unat (sh - d) * 2 ^ k + unat w mod 2 ^ k) mod unat d"
      by (rule Suc.IH [OF r(2), of _ "2 * c + 1"]) (use Suc.prems step True q in \<open>simp_all add: algebra_simps\<close>)
    have e: "s * 2 ^ k + unat w mod 2 ^ k = (unat (sh - d) * 2 ^ k + unat w mod 2 ^ k) + unat d * 2 ^ k"
    proof -
      obtain t where "s = unat d + t" using True by (auto simp: le_iff_add)
      then show ?thesis by (simp add: r(1) algebra_simps)
    qed
    have d0: "unat d \<noteq> 0" using Suc.prems(1) by simp
    show ?thesis unfolding n e using ih q d0 by simp
  next
    case False
    then have "unat sh = s" using us d32 by simp
    then show ?thesis unfolding n
      using Suc.IH [of sh q "2 * c"] Suc.prems step False by (simp add: algebra_simps)
  qed
qed

lemma divide_word_correct:
  assumes "unat r < unat d" and "clock_divide_word w d r = (q', r')"
  shows "unat q' = (unat r * 2 ^ 32 + unat w) div unat d" "unat r' = (unat r * 2 ^ 32 + unat w) mod unat d"
proof -
  have "unat w mod 2 ^ 32 = unat w" using unsigned_less [of w, where 'a = nat] by simp
  then show "unat q' = (unat r * 2 ^ 32 + unat w) div unat d" "unat r' = (unat r * 2 ^ 32 + unat w) mod unat d"
    using divide_loop_correct [OF assms(1), of 32 0 0 w q' r'] assms(2) by (simp_all add: clock_divide_word_def)
qed

lemma divide_ticks_correct:
  assumes "d \<noteq> 0"
  shows "unat (clock_divide_ticks n d) = unat n div unat d"
proof -
  define hi lo where "hi = (ucast (drop_bit 32 n) :: u32)" and "lo = (ucast n :: u32)"
  have n64: "unat n < 2 ^ 64" using unsigned_less [of n, where 'a = nat] by simp
  have un: "unat hi = unat n div 2 ^ 32" "unat lo = unat n mod 2 ^ 32"
    using n64 unat_drop_bit [of 32 n] by (simp_all add: hi_def lo_def unsigned_ucast_eq take_bit_eq_mod less_mult_imp_div_less)
  have d0: "0 < unat d" using assms by (simp add: unat_gt_0)
  have alg: "a * p + l + e * (p * b) = (e * b + a) * p + l" for a b e l p :: nat by (simp add: algebra_simps)
  obtain qh r where h: "clock_divide_word hi d 0 = (qh, r)" by fastforce
  obtain ql r' where l: "clock_divide_word lo d r = (ql, r')" by fastforce
  have h': "unat qh = unat hi div unat d" "unat r = unat hi mod unat d" using divide_word_correct [OF _ h] d0 by simp_all
  have l': "unat ql = (unat r * 2 ^ 32 + unat lo) div unat d" using divide_word_correct(1) [OF _ l] h'(2) d0 by simp
  have "unat (clock_divide_ticks n d) = unat (push_bit 32 (ucast qh :: 64 word) OR ucast ql)"
    using assms h l by (simp add: clock_divide_ticks_def hi_def lo_def)
  also have "\<dots> = unat ql OR push_bit 32 (unat qh)"
  proof -
    have l: "unat qh < 2 ^ 32" "unat ql < 2 ^ 32" using unsigned_less [of qh, where 'a = nat] unsigned_less [of ql, where 'a = nat] by simp_all
    then have "take_bit 64 (push_bit 32 (unat qh)) = push_bit 32 (unat qh)" "take_bit 64 (unat qh) = unat qh" "take_bit 64 (unat ql) = unat ql"
      by (simp_all add: take_bit_eq_mod push_bit_eq_mult)
    then show ?thesis by (simp add: unsigned_or_eq unsigned_push_bit_eq unsigned_ucast_eq or.commute)
  qed
  also have "\<dots> = unat ql + 2 ^ 32 * unat qh"
    by (rule or_push_bit_eq_add) (use unsigned_less [of ql, where 'a = nat] in simp)
  also have "\<dots> = ((unat hi mod unat d) * 2 ^ 32 + unat lo) div unat d + 2 ^ 32 * (unat hi div unat d)" by (simp add: l' h')
  also have "\<dots> = ((unat hi mod unat d) * 2 ^ 32 + unat lo + unat d * (2 ^ 32 * (unat hi div unat d))) div unat d" using d0 by simp
  also have "(unat hi mod unat d) * 2 ^ 32 + unat lo + unat d * (2 ^ 32 * (unat hi div unat d)) = (unat d * (unat hi div unat d) + unat hi mod unat d) * 2 ^ 32 + unat lo"
    by (rule alg)
  also have "\<dots> = unat n" by (simp add: un)
  finally show ?thesis .
qed

section \<open>Calendar\<close>

text \<open>The Gregorian calendar, stated independently of the code.\<close>

definition leap :: "nat \<Rightarrow> bool" where
  "leap y \<longleftrightarrow> (if 400 dvd y then True else if 100 dvd y then False else 4 dvd y)"

definition month_length :: "nat \<Rightarrow> nat \<Rightarrow> nat" where
  "month_length y m = (if m = 2 then if leap y then 29 else 28 else if m \<in> {4, 6, 9, 11} then 30 else 31)"

definition valid_date :: "rtc_datetime \<Rightarrow> bool" where
  "valid_date d \<longleftrightarrow> 1970 \<le> dt_year d \<and> dt_month d \<in> {1..12} \<and> dt_day d \<in> {1..month_length (dt_year d) (dt_month d)} \<and>
     dt_hour d < 24 \<and> dt_minute d < 60 \<and> dt_second d < 60"

definition next_day :: "rtc_datetime \<Rightarrow> rtc_datetime" where
  "next_day d =
     (if dt_day d < month_length (dt_year d) (dt_month d) then d\<lparr>dt_day := dt_day d + 1\<rparr>
      else if dt_month d < 12 then d\<lparr>dt_month := dt_month d + 1, dt_day := 1\<rparr>
      else d\<lparr>dt_year := dt_year d + 1, dt_month := 1, dt_day := 1\<rparr>)"

definition next_second :: "rtc_datetime \<Rightarrow> rtc_datetime" where
  "next_second d =
     (if dt_second d < 59 then d\<lparr>dt_second := dt_second d + 1\<rparr>
      else if dt_minute d < 59 then d\<lparr>dt_minute := dt_minute d + 1, dt_second := 0\<rparr>
      else if dt_hour d < 23 then d\<lparr>dt_hour := dt_hour d + 1, dt_minute := 0, dt_second := 0\<rparr>
      else (next_day d)\<lparr>dt_hour := 0, dt_minute := 0, dt_second := 0\<rparr>)"

definition epoch :: rtc_datetime where
  "epoch = \<lparr>dt_year = 1970, dt_month = 1, dt_day = 1, dt_hour = 0, dt_minute = 0, dt_second = 0\<rparr>"

lemma leap_year_eq: "clock_is_leap_year y = leap y"
  unfolding clock_is_leap_year_def leap_def by presburger

lemma month_cases:
  assumes "(m :: nat) \<in> {1..12}"
  shows "m = 1 \<or> m = 2 \<or> m = 3 \<or> m = 4 \<or> m = 5 \<or> m = 6 \<or> m = 7 \<or> m = 8 \<or> m = 9 \<or> m = 10 \<or> m = 11 \<or> m = 12"
  using assms unfolding atLeastAtMost_iff by presburger

lemma days_in_month_eq:
  assumes "m \<in> {1..12}"
  shows "clock_days_in_month y m = month_length y m"
  using month_cases [OF assms]
  by (elim disjE) (simp_all add: clock_days_in_month_def month_length_def CLOCK_MONTH_COUNT_def leap_year_eq)

definition days_before :: "nat \<Rightarrow> nat \<Rightarrow> nat \<Rightarrow> 64 word" where
  "days_before y m d =
     (\<Sum>x\<leftarrow>[1970..<y]. if leap x then 366 else 365) + (\<Sum>x\<leftarrow>[1..<m]. word_of_nat (month_length y x)) + word_of_nat (d - 1)"

definition unix_of :: "rtc_datetime \<Rightarrow> 64 word" where
  "unix_of d = days_before (dt_year d) (dt_month d) (dt_day d) * 86400 + word_of_nat (dt_hour d) * 3600 +
     word_of_nat (dt_minute d) * 60 + word_of_nat (dt_second d)"

lemma fold_sum: "fold (\<lambda>x a. a + f x) xs (a :: 'a :: comm_monoid_add) = a + sum_list (map f xs)"
  by (induction xs arbitrary: a) (simp_all add: add.assoc)

lemma to_unix_eq:
  "clock_datetime_to_unix (Some d) True = (if valid_date d then (OK, Some (unix_of d)) else (ERR_INVALID, None))"
proof -
  have bad: "(dt_year d < CLOCK_UNIX_EPOCH_YEAR \<or> dt_month d < 1 \<or> dt_month d > CLOCK_MONTH_COUNT \<or>
      dt_hour d \<ge> CLOCK_HOURS_PER_DAY \<or> dt_minute d \<ge> CLOCK_MINUTES_PER_HOUR \<or>
      dt_second d \<ge> CLOCK_SECONDS_PER_MINUTE \<or> dt_day d < 1 \<or>
      dt_day d > clock_days_in_month (dt_year d) (dt_month d)) \<longleftrightarrow> \<not> valid_date d"
    using days_in_month_eq [of "dt_month d" "dt_year d"]
    by (auto simp: valid_date_def CLOCK_UNIX_EPOCH_YEAR_def CLOCK_MONTH_COUNT_def CLOCK_HOURS_PER_DAY_def
        CLOCK_MINUTES_PER_HOUR_def CLOCK_SECONDS_PER_MINUTE_def)
  show ?thesis
  proof (cases "valid_date d")
    case False
    then show ?thesis unfolding clock_datetime_to_unix_def option.case bad by simp
  next
    case True
    then have "(\<Sum>m\<leftarrow>[1..<dt_month d]. word_of_nat (clock_days_in_month (dt_year d) m) :: 64 word) =
        (\<Sum>m\<leftarrow>[1..<dt_month d]. word_of_nat (month_length (dt_year d) m))"
      by (intro arg_cong [of _ _ sum_list] map_cong refl) (simp add: valid_date_def days_in_month_eq)
    then show ?thesis using True unfolding clock_datetime_to_unix_def option.case bad
      by (simp add: fold_sum Let_def unix_of_def days_before_def leap_year_eq CLOCK_UNIX_EPOCH_YEAR_def
          CLOCK_SECONDS_PER_DAY_def CLOCK_SECONDS_PER_HOUR_def CLOCK_SECONDS_PER_MINUTE_def CLOCK_MINUTES_PER_HOUR_def
          CLOCK_HOURS_PER_DAY_def)
  qed
qed

lemma days_of_year: "(\<Sum>x\<leftarrow>[1..<12]. word_of_nat (month_length y x)) + 31 = (if leap y then 366 else 365 :: 64 word)"
  by (simp add: upt_rec month_length_def)

lemma next_day_valid: "valid_date d \<Longrightarrow> valid_date (next_day d)"
  by (auto simp: valid_date_def next_day_def month_length_def)

lemma days_before_next:
  assumes "valid_date d"
  shows "days_before (dt_year (next_day d)) (dt_month (next_day d)) (dt_day (next_day d)) =
    days_before (dt_year d) (dt_month d) (dt_day d) + 1"
proof -
  have v: "1970 \<le> dt_year d" "1 \<le> dt_month d" "dt_month d \<le> 12" "1 \<le> dt_day d" "dt_day d \<le> month_length (dt_year d) (dt_month d)"
    using assms by (simp_all add: valid_date_def)
  have dd: "word_of_nat (dt_day d - 1) + 1 = (word_of_nat (dt_day d) :: 64 word)" using v(4) by (simp add: of_nat_diff)
  consider "dt_day d < month_length (dt_year d) (dt_month d)"
    | "dt_day d = month_length (dt_year d) (dt_month d)" "dt_month d < 12"
    | "dt_day d = month_length (dt_year d) (dt_month d)" "dt_month d = 12" using v by linarith
  then show ?thesis
  proof cases
    case 1
    then show ?thesis using dd by (simp add: next_day_def days_before_def add.assoc)
  next
    case 2
    then show ?thesis using v(2) dd by (simp add: next_day_def days_before_def add.assoc)
  next
    case 3
    have "dt_day d = 31" using 3 by (simp add: month_length_def)
    then show ?thesis using 3 v(1) days_of_year [of "dt_year d"]
      by (simp add: next_day_def days_before_def algebra_simps)
  qed
qed

lemma next_second_counts:
  assumes "valid_date d"
  shows "valid_date (next_second d)" "unix_of (next_second d) = unix_of d + 1"
proof -
  have v: "dt_hour d < 24" "dt_minute d < 60" "dt_second d < 60" using assms by (simp_all add: valid_date_def)
  have nv: "valid_date (next_day d)" by (rule next_day_valid [OF assms])
  show "valid_date (next_second d)" using assms nv by (auto simp: next_second_def valid_date_def)
  consider "dt_second d < 59" | "dt_second d = 59" "dt_minute d < 59" | "dt_second d = 59" "dt_minute d = 59" "dt_hour d < 23"
    | "dt_second d = 59" "dt_minute d = 59" "dt_hour d = 23" using v by linarith
  then show "unix_of (next_second d) = unix_of d + 1"
    by cases (simp_all add: next_second_def unix_of_def days_before_next [OF assms] algebra_simps)
qed

section \<open>A running clock\<close>

text \<open>
  \<open>T\<close> counts the timer's ticks without bound; the hardware register holds it modulo \<open>2 ^ 32\<close>. A
  clock is running from \<open>T0\<close> on when it was initialised then and every later call that reads
  the timer came less than a full turn of the register after the previous one.
\<close>

inductive clock_running :: "u32 \<Rightarrow> rtc_datetime \<Rightarrow> nat \<Rightarrow> nat \<Rightarrow> clock_state \<Rightarrow> bool" for freq date T0 where
  start: "clock_init freq tick1 (OK, date) (word_of_nat T0) st0 = (OK, st) \<Longrightarrow> clock_running freq date T0 T0 st"
| utc: "clock_running freq date T0 T st \<Longrightarrow> T \<le> T' \<Longrightarrow> T' < T + 2 ^ 32 \<Longrightarrow>
    clock_running freq date T0 T' (snd (clock_get_utc (word_of_nat T') True st))"
| monotonic: "clock_running freq date T0 T st \<Longrightarrow> T \<le> T' \<Longrightarrow> T' < T + 2 ^ 32 \<Longrightarrow>
    clock_running freq date T0 T' (snd (clock_get_monotonic_ticks (word_of_nat T') True st))"
| validate: "clock_running freq date T0 T st \<Longrightarrow> T \<le> T' \<Longrightarrow> T' < T + 2 ^ 32 \<Longrightarrow>
    clock_running freq date T0 T' (snd (clock_validate_state (word_of_nat T') st))"
| self_test: "clock_running freq date T0 T st \<Longrightarrow> T \<le> T' \<Longrightarrow> T' < T + 2 ^ 32 \<Longrightarrow>
    clock_running freq date T0 T' (snd (clock_self_test (word_of_nat T') True st))"

definition high_at :: "nat \<Rightarrow> nat \<Rightarrow> 64 word" where
  "high_at T0 T = word_of_nat (T div 2 ^ 32 - T0 div 2 ^ 32)"

definition clock_inv :: "u32 \<Rightarrow> rtc_datetime \<Rightarrow> nat \<Rightarrow> nat \<Rightarrow> clock_state \<Rightarrow> bool" where
  "clock_inv freq date T0 T st \<longleftrightarrow> T0 \<le> T \<and> freq \<noteq> 0 \<and> valid_date date \<and>
     cl_last_raw_tick st = word_of_nat T \<and> cl_tick_high st = high_at T0 T \<and>
     ck_initialized (cl_status st) \<and> ck_monotonic_available (cl_status st) \<and> ck_utc_available (cl_status st) \<and>
     ck_source (cl_status st) = CLOCK_SOURCE_RTC \<and> ck_last_error (cl_status st) = OK \<and>
     ck_frequency (cl_status st) = freq \<and> ck_anchor_monotonic_ticks (cl_status st) = ucast (word_of_nat T0 :: u32) \<and>
     ck_anchor_unix_seconds (cl_status st) = unix_of date"

text \<open>What the extension returns at \<open>T\<close>.\<close>

definition ticks_at :: "nat \<Rightarrow> nat \<Rightarrow> nat" where
  "ticks_at T0 T = T - 2 ^ 32 * (T0 div 2 ^ 32)"

lemma unat_u32: "unat (word_of_nat T :: u32) = T mod 2 ^ 32"
  by (simp add: unsigned_of_nat take_bit_eq_mod)

lemma word64_join: "push_bit 32 (word_of_nat h) OR ucast (w :: u32) = (word_of_nat (2 ^ 32 * h + unat w) :: 64 word)"
proof -
  have "(push_bit 32 (word_of_nat h) :: 64 word) = word_of_nat (2 ^ 32 * h)" by (simp add: push_bit_eq_mult mult.commute)
  moreover have "unat w OR push_bit 32 h = unat w + 2 ^ 32 * h"
    by (rule or_push_bit_eq_add) (use unsigned_less [of w, where 'a = nat] in simp)
  ultimately show ?thesis
    by (metis add.commute mult.commute of_nat_or_eq of_nat_unat or.commute push_bit_eq_mult)
qed

lemma turn:
  assumes "(T :: nat) \<le> T'" "T' < T + n" "0 < n"
  shows "T' div n = T div n + (if T' mod n < T mod n then 1 else 0)"
proof -
  have "T div n \<le> T' div n" "T' div n \<le> (T + n) div n" using assms(1,2) by (simp_all add: div_le_mono)
  moreover have "(T + n) div n = T div n + 1" using div_add_self2 [of n T] assms(3) by simp
  ultimately consider "T' div n = T div n" | "T' div n = T div n + 1" by linarith
  then show ?thesis
  proof cases
    case 1
    then have "T' div n * n = T div n * n" by simp
    then have "\<not> T' mod n < T mod n" using div_mult_mod_eq [of T' n] div_mult_mod_eq [of T n] assms(1) by linarith
    then show ?thesis using 1 by simp
  next
    case 2
    have "T' div n * n = T div n * n + n" using 2 by simp
    then have "T' mod n < T mod n" using div_mult_mod_eq [of T' n] div_mult_mod_eq [of T n] assms(2) by linarith
    then show ?thesis using 2 by simp
  qed
qed

lemma extend_tick_eq:
  assumes "T0 \<le> T" "T \<le> T'" "T' < T + 2 ^ 32"
  shows "clock_extend_tick (word_of_nat T') (word_of_nat T) (high_at T0 T) =
    (word_of_nat (ticks_at T0 T'), word_of_nat T', high_at T0 T')"
proof -
  have le: "T0 div 2 ^ 32 \<le> T div 2 ^ 32" using assms(1) by (rule div_le_mono)
  note t = turn [OF assms(2,3), simplified]
  have h: "(if (word_of_nat T' :: u32) < word_of_nat T then word_of_nat (T div 2 ^ 32 - T0 div 2 ^ 32) + 1
      else word_of_nat (T div 2 ^ 32 - T0 div 2 ^ 32) :: 64 word) = word_of_nat (T' div 2 ^ 32 - T0 div 2 ^ 32)"
    using le t by (simp add: word_less_nat_alt unat_u32 Suc_diff_le)
  have "2 ^ 32 * (T' div 2 ^ 32 - T0 div 2 ^ 32) + T' mod 2 ^ 32 = ticks_at T0 T'"
  proof -
    have "2 ^ 32 * (T0 div 2 ^ 32) \<le> 2 ^ 32 * (T' div 2 ^ 32)" using assms(1,2) by (simp add: div_le_mono)
    moreover have "T' = 2 ^ 32 * (T' div 2 ^ 32) + T' mod 2 ^ 32" by simp
    ultimately show ?thesis unfolding ticks_at_def diff_mult_distrib2 by linarith
  qed
  then show ?thesis unfolding clock_extend_tick_def Let_def high_at_def h word64_join unat_u32 by simp
qed

lemma update_monotonic_eq:
  assumes i: "clock_inv freq date T0 T st" and t: "T \<le> T'" "T' < T + 2 ^ 32"
  obtains st' where "clock_update_monotonic (word_of_nat T') True st = ((OK, Some (word_of_nat (ticks_at T0 T'))), st')"
    "clock_inv freq date T0 T' st'" "cl_status st' = (cl_status st)\<lparr>ck_monotonic_wraps := cl_tick_high st'\<rparr>"
proof -
  have "T0 \<le> T" using i by (simp add: clock_inv_def)
  note e = extend_tick_eq [OF this t]
  let ?st = "st\<lparr>cl_last_raw_tick := word_of_nat T', cl_tick_high := high_at T0 T',
      cl_status := (cl_status st)\<lparr>ck_monotonic_wraps := high_at T0 T'\<rparr>\<rparr>"
  show ?thesis
    by (rule that [of ?st]) (use i t in \<open>simp_all add: clock_update_monotonic_def clock_inv_def e\<close>)
qed

lemma inv_reads: "clock_inv freq date T0 T st \<Longrightarrow> clock_inv freq date T0 T (st\<lparr>cl_status := (cl_status st)\<lparr>ck_reads := n\<rparr>\<rparr>)"
  by (simp add: clock_inv_def)

lemma get_utc_eq:
  assumes i: "clock_inv freq date T0 T st" and t: "T \<le> T'" "T' < T + 2 ^ 32"
  shows "fst (clock_get_utc (word_of_nat T') True st) = (OK, Some (unix_of date + clock_divide_ticks (word_of_nat (T' - T0)) freq))"
    "clock_inv freq date T0 T' (snd (clock_get_utc (word_of_nat T') True st))"
proof -
  obtain st' where s: "clock_update_monotonic (word_of_nat T') True st = ((OK, Some (word_of_nat (ticks_at T0 T'))), st')"
    "clock_inv freq date T0 T' st'" using update_monotonic_eq [OF assms] by metis
  have g: "ck_initialized (cl_status st)" "ck_utc_available (cl_status st)" "T0 \<le> T" using i by (simp_all add: clock_inv_def)
  have f: "ck_frequency (cl_status st') = freq" "ck_anchor_monotonic_ticks (cl_status st') = ucast (word_of_nat T0 :: u32)"
    "ck_anchor_unix_seconds (cl_status st') = unix_of date" using s(2) by (simp_all add: clock_inv_def)
  have "ucast (word_of_nat T0 :: u32) = (word_of_nat (T0 mod 2 ^ 32) :: 64 word)" by (metis of_nat_unat unat_u32)
  moreover have "ticks_at T0 T' = (T' - T0) + T0 mod 2 ^ 32"
  proof -
    have "T0 = 2 ^ 32 * (T0 div 2 ^ 32) + T0 mod 2 ^ 32" by simp
    then show ?thesis using g(3) t(1) unfolding ticks_at_def by linarith
  qed
  ultimately have e: "word_of_nat (ticks_at T0 T') - ucast (word_of_nat T0 :: u32) = (word_of_nat (T' - T0) :: 64 word)"
    by (simp del: of_nat_diff)
  show "fst (clock_get_utc (word_of_nat T') True st) = (OK, Some (unix_of date + clock_divide_ticks (word_of_nat (T' - T0)) freq))"
    "clock_inv freq date T0 T' (snd (clock_get_utc (word_of_nat T') True st))"
    unfolding clock_get_utc_def s(1) using g f e inv_reads [OF s(2)] by (simp_all add: Let_def del: of_nat_diff)
qed

lemma validate_state_eq:
  assumes i: "clock_inv freq date T0 T st" and t: "T \<le> T'" "T' < T + 2 ^ 32"
  shows "clock_inv freq date T0 T' (snd (clock_validate_state (word_of_nat T') st))"
    "T' < T0 + 2 ^ 63 \<Longrightarrow> fst (clock_validate_state (word_of_nat T') st) = OK"
proof -
  obtain st' where s: "clock_update_monotonic (word_of_nat T') True st = ((OK, Some (word_of_nat (ticks_at T0 T'))), st')"
    "clock_inv freq date T0 T' st'" using update_monotonic_eq [OF assms] by metis
  have i': "T0 \<le> T" using i by (simp add: clock_inv_def)
  show "clock_inv freq date T0 T' (snd (clock_validate_state (word_of_nat T') st))"
    unfolding clock_validate_state_def s(1) using i s(2) by (auto simp: Let_def clock_inv_def)
  assume b: "T' < T0 + 2 ^ 63"
  have q: "2 ^ 32 * (T0 div 2 ^ 32) \<le> T0" "T0 = 2 ^ 32 * (T0 div 2 ^ 32) + T0 mod 2 ^ 32" "T0 mod 2 ^ 32 < 2 ^ 32" by simp_all
  then have tk: "T0 mod 2 ^ 32 \<le> ticks_at T0 T'" "ticks_at T0 T' < 2 ^ 63 + 2 ^ 32" using b i' t(1) unfolding ticks_at_def by linarith+
  have "unat (ucast (word_of_nat T0 :: u32) :: 64 word) = T0 mod 2 ^ 32" "unat (word_of_nat (ticks_at T0 T') :: 64 word) = ticks_at T0 T'"
    using tk(2) by (simp_all add: unsigned_ucast_eq unat_u32 unsigned_of_nat take_bit_eq_mod)
  then have "\<not> (word_of_nat (ticks_at T0 T') :: 64 word) < ucast (word_of_nat T0 :: u32)" using tk(1) by (simp add: word_less_nat_alt)
  then show "fst (clock_validate_state (word_of_nat T') st) = OK"
    unfolding clock_validate_state_def s(1) using i s(2) by (auto simp: Let_def clock_inv_def)
qed

lemma self_test_state: "snd (clock_self_test raw True st) = snd (clock_validate_state raw st)"
  by (simp add: clock_self_test_def Let_def split_beta)

lemma running_inv: "clock_running freq date T0 T st \<Longrightarrow> clock_inv freq date T0 T st"
proof (induction rule: clock_running.induct)
  case (start tick1 st0 st)
  then have "freq \<noteq> 0" "valid_date date" by (auto simp: clock_init_def Let_def to_unix_eq split: if_splits)
  then show ?case using start by (auto simp: clock_init_def Let_def to_unix_eq clock_inv_def clock_status_zero_def high_at_def)
next
  case (monotonic T st T')
  obtain st' where "clock_update_monotonic (word_of_nat T') True st = ((OK, Some (word_of_nat (ticks_at T0 T'))), st')"
    "clock_inv freq date T0 T' st'" using update_monotonic_eq [OF monotonic.IH monotonic.hyps(2,3)] by metis
  then show ?case by (simp add: clock_get_monotonic_ticks_def)
qed (simp_all add: get_utc_eq(2) validate_state_eq(1) self_test_state)

lemma self_test_fixtures:
  "clock_datetime_to_unix (Some \<lparr>dt_year = 1970, dt_month = 1, dt_day = 1, dt_hour = 0, dt_minute = 0, dt_second = 0\<rparr>) True = (OK, Some 0)"
  "clock_datetime_to_unix (Some \<lparr>dt_year = 2000, dt_month = 2, dt_day = 29, dt_hour = 0, dt_minute = 0, dt_second = 0\<rparr>) True = (OK, Some 951782400)"
  "fst (clock_datetime_to_unix (Some \<lparr>dt_year = 2001, dt_month = 2, dt_day = 29, dt_hour = 0, dt_minute = 0, dt_second = 0\<rparr>) True) \<noteq> OK"
  "clock_extend_tick 1 0xFFFFFFFE 0 = (push_bit 32 1 OR 1, 1, 1)"
  by (simp_all add: to_unix_eq valid_date_def month_length_def unix_of_def days_before_def leap_def upt_rec clock_extend_tick_def)

lemma self_test_passes: "fst (clock_validate_state raw st) = OK \<Longrightarrow> fst (fst (clock_self_test raw True st)) = OK"
  using self_test_fixtures by (simp add: clock_self_test_def Let_def split_beta)

section \<open>Properties\<close>

text \<open>
  C39. The conversion to Unix time counts the seconds of the Gregorian calendar: it accepts
  exactly the valid dates from 1970 on, maps the epoch to 0, and each second of the calendar to
  one more than the second before, across the ends of minutes, hours, days, months and years.
\<close>

theorem clock_unix_counts_seconds:
  "clock_datetime_to_unix (Some epoch) True = (OK, Some 0) \<and>
   (\<forall>d. fst (clock_datetime_to_unix (Some d) True) = OK \<longleftrightarrow> valid_date d) \<and>
   (\<forall>d s. clock_datetime_to_unix (Some d) True = (OK, Some s) \<longrightarrow>
      clock_datetime_to_unix (Some (next_second d)) True = (OK, Some (s + 1)))"
proof -
  have "valid_date epoch" "unix_of epoch = 0" by (simp_all add: valid_date_def epoch_def month_length_def unix_of_def days_before_def)
  then show ?thesis using next_second_counts by (auto simp: to_unix_eq)
qed

text \<open>
  C40. A running clock tells the time. When it was started from a real-time clock reading and
  has been read at least once in every \<open>2 ^ 32\<close> ticks, a reading less than \<open>2 ^ 32\<close> ticks after the
  last one and less than \<open>2 ^ 63\<close> ticks after the start is exact: UTC is the time of the
  real-time clock at the start plus the whole seconds elapsed since, the monotonic value is the
  number of ticks since the turn of the timer's register in which the clock was started, the
  state validates and the self test passes.
\<close>

theorem clock_running_exact:
  assumes "clock_running freq date T0 T st" and "T \<le> T'" "T' < T + 2 ^ 32" "T' < T0 + 2 ^ 63"
    and "clock_datetime_to_unix (Some date) True = (OK, Some u)"
  shows "fst (clock_get_utc (word_of_nat T') True st) = (OK, Some (u + word_of_nat ((T' - T0) div unat freq))) \<and>
    fst (clock_get_monotonic_ticks (word_of_nat T') True st) = (OK, Some (word_of_nat (T' - 2 ^ 32 * (T0 div 2 ^ 32)))) \<and>
    fst (clock_validate_state (word_of_nat T') st) = OK \<and> fst (fst (clock_self_test (word_of_nat T') True st)) = OK"
proof -
  have i: "clock_inv freq date T0 T st" by (rule running_inv [OF assms(1)])
  have "unat (word_of_nat (T' - T0) :: 64 word) = T' - T0"
    using assms(4) by (simp add: unsigned_of_nat take_bit_eq_mod del: of_nat_diff)
  then have "unat (clock_divide_ticks (word_of_nat (T' - T0)) freq) = (T' - T0) div unat freq"
    using divide_ticks_correct [of freq "word_of_nat (T' - T0)"] i by (simp add: clock_inv_def)
  then have "clock_divide_ticks (word_of_nat (T' - T0)) freq = word_of_nat ((T' - T0) div unat freq)" by (metis of_nat_unat ucast_id)
  moreover have "u = unix_of date" using assms(5) by (simp add: to_unix_eq split: if_splits)
  moreover obtain st' where "clock_update_monotonic (word_of_nat T') True st = ((OK, Some (word_of_nat (ticks_at T0 T'))), st')"
    using update_monotonic_eq [OF i assms(2,3)] by metis
  ultimately show ?thesis using get_utc_eq(1) [OF i assms(2,3)] validate_state_eq(2) [OF i assms(2,3,4)] self_test_passes
    by (simp add: clock_get_monotonic_ticks_def ticks_at_def)
qed

section \<open>Witnesses\<close>

definition new_year :: rtc_datetime where
  "new_year = \<lparr>dt_year = 2000, dt_month = 1, dt_day = 1, dt_hour = 0, dt_minute = 0, dt_second = 0\<rparr>"

definition started :: clock_state where
  "started = snd (clock_init 100 7 (OK, new_year) 7 \<lparr>cl_status = clock_status_zero, cl_last_raw_tick = 0, cl_tick_high = 0\<rparr>)"

lemma new_year_unix: "clock_datetime_to_unix (Some new_year) True = (OK, Some 946684800)"
  by (simp add: to_unix_eq new_year_def valid_date_def month_length_def unix_of_def days_before_def leap_def upt_rec)

theorem clock_unix_counts_seconds_witness:
  "clock_datetime_to_unix (Some (next_second new_year)) True = (OK, Some 946684801)"
  using clock_unix_counts_seconds new_year_unix by fastforce

theorem clock_running_exact_witness:
  "fst (clock_get_utc 0xA007 True started) = (OK, Some 946685209)"
proof -
  have "clock_running 100 new_year 7 7 started"
    by (rule clock_running.start [of 100 7 new_year 7]) (simp add: started_def clock_init_def new_year_unix Let_def)
  from clock_running_exact [OF this, of "0xA007" 946684800, OF _ _ _ new_year_unix] show ?thesis by simp
qed

end
