(* ===== verification/Spec2Isabelle.thy ===== *)
theory Spec2Isabelle
  imports Compress_Correct Route_Correct Pmm_Correct Net_Buffer_Correct Slab_Contract Heap_Contract Sha256_Correct
    Clock_Correct
begin

text \<open>
  A verification library for ZephyrOS, a 32-bit x86 operating system in freestanding C
  (sources under \<^verbatim>\<open>src/src\<close>). It models nine parts of the kernel, operation by operation, and
  proves what their callers rely on.

  \<^bold>\<open>How the parts interact.\<close> At start-up \<^verbatim>\<open>memory/memory.c\<close> reads the E820 map, builds the table of
  physical pages and reserves a 4 MiB heap. The page allocator hands out runs of pages; the slab
  allocator of \<^verbatim>\<open>memory/slab.c\<close> takes its slabs from it and cuts them into objects, and the kernel
  heap serves \<^verbatim>\<open>kmalloc\<close> and \<^verbatim>\<open>kfree\<close> inside the reserved range. \<^verbatim>\<open>memory/compress.c\<close> compresses
  buffers. In the network stack, \<^verbatim>\<open>core/route.c\<close> chooses the route of a packet and
  \<^verbatim>\<open>core/net_buffer.c\<close> polices the life of packet buffers. \<^verbatim>\<open>core/crypto.c\<close> computes the digests
  that updates and packages are checked against, and \<^verbatim>\<open>core/clock.c\<close> keeps UTC and monotonic time.

  \<^bold>\<open>Theories.\<close>
  \<^item> \<open>Prelude\<close>: the status codes of \<^verbatim>\<open>errors.h\<close>, sequencing of fallible steps, the routines of
    \<^verbatim>\<open>core/string.c\<close>, first-match search in a list, and facts on words. \<open>Slots\<close>, \<open>Packed\<close>, \<open>Chains\<close>
    and \<open>Page_Source\<close> state interfaces once: tables of slots, arrays of packed cells, lists
    threaded through arrays, and a source of pages. The first two and the last are locales, and
    the components interpret them on their own definitions.
  \<^item> \<open>Compress\<close>, \<open>Compress_Correct\<close>: \<^verbatim>\<open>compress_data\<close> and \<^verbatim>\<open>decompress_data\<close> with the ring buffer,
    the group flags and the destination array written out. Round trip, bounds of both, the
    size that always suffices, and the behaviour on an empty source.
  \<^item> \<open>Route\<close>, \<open>Route_Correct\<close>: the table of 16 routes with its base configuration and self test.
    Lookup is longest-prefix match, add and delete refine updates of a finite map, every
    reachable table validates.
  \<^item> \<open>Pmm\<close>, \<open>Pmm_Correct\<close>: bitmap and zone tags of the page allocator from \<^verbatim>\<open>memory_init\<close> on.
    First fit, exact release, round trip, statistics that predict allocation.
  \<^item> \<open>Net_Buffer\<close>, \<open>Net_Buffer_Correct\<close>: descriptors in a store addressed by pointer, the
    registry and the statistics. Reachable states validate, life cycle, exact release, and two
    consequences of the counters' width.
  \<^item> \<open>Slab\<close>, \<open>Slab_Correct\<close>, \<open>Slab_Contract\<close>: caches, slab records, freelists, the three lists of
    each cache and the bitmaps, on top of \<open>Pmm\<close>. The allocator refines a specification that
    knows only the set of objects in use of each cache; objects are disjoint; the validator
    accepts every reachable state.
  \<^item> \<open>Heap\<close>, \<open>Heap_Correct\<close>, \<open>Heap_Contract\<close>: the kernel heap over the bytes of memory, headers
    included. The bytes of every reachable state describe one coalesced list of blocks; first
    fit, release, alignment, statistics, double frees.
  \<^item> \<open>Sha256\<close>, \<open>Sha256_Constants\<close>, \<open>Sha256_Correct\<close>: SHA-256 with its incremental interface, against
    a direct statement of FIPS 180-4. The statement has its own constants, the fractional parts of
    roots of the first primes, and the code's tables are proved to hold them.
  \<^item> \<open>Clock\<close>, \<open>Clock_Correct\<close>: 64-bit division, calendar and the state of the clock. Division is
    exact, the conversion of dates counts the seconds of the Gregorian calendar, and a clock that is
    read often enough is exact. What the timer and the real-time clock return is an argument.

  \<^bold>\<open>Correspondence with the code.\<close> A struct or a group of static variables is a record whose fields
  carry a two-letter prefix; a definition has the name of the C function it translates, and the
  bodies of loops and long branches have definitions of their own. A pointer that the code
  compares with null is an option, or an address that may be 0 where the code computes with
  addresses; an out parameter is part of the result. \<^verbatim>\<open>uint32_t\<close> is \<open>32 word\<close> where the code relies
  on its width, and a natural number for indices that the code bounds first. Logging, locks and
  interrupt masking are left out: the model is sequential, as is the code between a lock and its
  release.

  \<^bold>\<open>Loops and fuel.\<close> Loops are recursive functions with termination proofs. The walks over linked
  structures carry the bound that the code itself counts: \<open>heap_max_blocks\<close> for the heap's block
  list, the object count for slab freelists, the table size for slab lists. The proofs show that
  a reachable state never exhausts it. There is no other fuel.

  \<^bold>\<open>Reachability.\<close> Statements about every reachable state quantify over inductively defined
  sequences of public calls: \<open>route_reachable\<close>, \<open>pmm_reachable\<close>, \<open>netbuf_reachable\<close>, \<open>slab_reachable\<close> and
  \<open>heap_reachable\<close>. The last also lets clients write anything outside the headers and the gaps in
  front of page-aligned pointers. Two of them carry a condition. In \<open>route_reachable\<close>, \<^verbatim>\<open>route_set_base\<close>
  is given no interface name or a non-empty one of fewer than 20 characters, which its callers
  ensure; \<open>Route_Correct\<close> also shows what a longer name does. In \<open>netbuf_reachable\<close>, no call makes the
  32-bit allocation counter wrap; \<open>Net_Buffer_Correct\<close> also shows what the wrap does. \<open>clock_running\<close>
  has the timer read at least once per turn of its 32-bit register, as the clock's extension needs.

  \<^bold>\<open>Not modelled.\<close> Drivers, boot code and context switching act on hardware or are assembly. The
  scheduler, wait channels and work queues interleave with interrupts. The shell, the desktop and
  its applications draw and print. File systems, storage, updates, packages, the transport
  protocols and the process table are state machines over those parts; their code is far larger
  than what is modelled here, and nothing in this library depends on them. Branches under
  \<^verbatim>\<open>ZEPHYROS_HOST_TEST\<close> belong to the host test build and are left out everywhere.
\<close>

end
